(* ===== verification/Prelude.thy ===== *)
theory Prelude
  imports Main "HOL-Library.Word"
begin

text \<open>
  Shared vocabulary of the development: the byte and string types of Go, the result type
  of a Go function that returns an error, the collections of simplification facts the
  component theories extend, and the lemmas on lists and maps that more than one component
  needs.
\<close>

unbundle bit_operations_syntax

named_theorems go_simps "evaluation of the modelled Go standard library on concrete text"
named_theorems time_simps "durations in nanoseconds"

section \<open>Types\<close>

type_synonym byte = "8 word"
type_synonym bytes = "8 word list"
type_synonym uint64 = "64 word"
type_synonym int64 = "64 word"

text \<open>A Go (T, error) pair whose callers look at the value only when the error is nil.\<close>

type_synonym ('e, 'a) result = "'e + 'a"

text \<open>A distinguished name (crypto/x509/pkix.Name), as far as the program reads or writes it.\<close>

record pkix_name =
  CommonName :: string
  Organization :: "string list"

section \<open>Lists\<close>

lemma drop_Cons_pos: "0 < k \<Longrightarrow> drop k (x # xs) = drop (k - 1) xs"
  by (cases k) simp_all

lemma min_Suc_length: "0 < k \<Longrightarrow> min k (length (x # xs)) = Suc (min (k - 1) (length xs))"
  by (cases k) simp_all

section \<open>Words\<close>

lemma unat_pos_iff: "0 < unat (w :: 'a::len word) \<longleftrightarrow> 0 < w"
  by (simp add: word_less_nat_alt)

lemma unat_minus_of_nat:
  fixes w :: "'a::len word"
  assumes "k \<le> unat w"
  shows "unat (w - of_nat k) = unat w - k"
proof -
  have k: "k < 2 ^ LENGTH('a)"
    using assms by (rule le_less_trans) (rule unsigned_less)
  then have "unat (of_nat k :: 'a word) = k"
    by (simp add: unat_of_nat)
  moreover from this have "of_nat k \<le> w"
    using assms by (simp add: word_le_nat_alt)
  ultimately show ?thesis
    by (simp add: unat_sub)
qed

end
