(* ===== verification/Slots.thy ===== *)
theory Slots
  imports Prelude "HOL-Library.Multiset"
begin

text \<open>
  Counted slots: the contract shared by the tunnel's per-node session cap (acquire/release in
  src/internal/tunnel/tunnel.go) and by the channel that bounds concurrent scrypt runs
  (scryptSlots in src/internal/nodepassword/scrypt.go). The locale states what one atomic
  acquire and one atomic release promise; its lemmas follow every interleaving of holders.
\<close>

text \<open>
  All states reachable by any number of concurrent holders, with the multiset of the keys
  whose slot is currently held. A holder that was refused holds nothing; only a holder of a
  slot gives one back.
\<close>

inductive slots_reach ::
  "('s \<Rightarrow> 'k \<Rightarrow> bool \<times> 's) \<Rightarrow> ('s \<Rightarrow> 'k \<Rightarrow> 's) \<Rightarrow> 's \<Rightarrow> 's \<Rightarrow> 'k multiset \<Rightarrow> bool"
  for acq rel s0 where
  slots_start: "slots_reach acq rel s0 s0 {#}"
| slots_granted: "slots_reach acq rel s0 s L \<Longrightarrow> acq s k = (True, s') \<Longrightarrow>
    slots_reach acq rel s0 s' (add_mset k L)"
| slots_refused: "slots_reach acq rel s0 s L \<Longrightarrow> acq s k = (False, s') \<Longrightarrow>
    slots_reach acq rel s0 s' L"
| slots_released: "slots_reach acq rel s0 s L \<Longrightarrow> k \<in># L \<Longrightarrow>
    slots_reach acq rel s0 (rel s k) (L - {#k#})"

locale slot_pool =
  fixes acq :: "'s \<Rightarrow> 'k \<Rightarrow> bool \<times> 's"
    and rel :: "'s \<Rightarrow> 'k \<Rightarrow> 's"
    and cnt :: "'s \<Rightarrow> 'k \<Rightarrow> int"
    and lim :: int
    and s0 :: 's
  assumes cnt_start: "cnt s0 k = 0"
    and lim_pos: "0 \<le> lim"
    and acq_free: "cnt s k < lim \<Longrightarrow> \<exists>s'. acq s k = (True, s') \<and>
      cnt s' j = cnt s j + (if j = k then 1 else 0)"
    and acq_full: "lim \<le> cnt s k \<Longrightarrow> acq s k = (False, s)"
    and rel_held: "0 < cnt s k \<Longrightarrow> cnt (rel s k) j = cnt s j - (if j = k then 1 else 0)"
begin

lemma acq_granted_iff: "fst (acq s k) \<longleftrightarrow> cnt s k < lim"
  using acq_free [of s k k] acq_full [of s k] by (cases "cnt s k < lim") auto

lemma acq_cnt: "acq s k = (True, s') \<Longrightarrow> cnt s' j = cnt s j + (if j = k then 1 else 0)"
  using acq_free [of s k j] acq_full [of s k] by (cases "cnt s k < lim") auto

lemma reach_cnt:
  assumes "slots_reach acq rel s0 s L"
  shows "cnt s k = int (count L k) \<and> cnt s k \<le> lim"
  using assms
proof (induction arbitrary: k rule: slots_reach.induct)
  case slots_start
  show ?case using cnt_start lim_pos by simp
next
  case (slots_granted s L k' s')
  then have "cnt s k' < lim"
    using acq_granted_iff [of s k'] by simp
  then show ?case
    using slots_granted.IH [of k] acq_cnt [OF slots_granted.hyps(2), of k] by auto
next
  case (slots_refused s L k' s')
  then have "s' = s"
    using acq_full [of s k'] acq_granted_iff [of s k'] by (auto simp: not_less)
  then show ?case using slots_refused.IH [of k] by simp
next
  case (slots_released s L k')
  have "0 < cnt s k'"
    using slots_released.IH [of k'] slots_released.hyps(2) by simp
  moreover have "1 \<le> count L k'"
    using slots_released.hyps(2) by (simp add: Suc_le_eq)
  ultimately show ?case
    using slots_released.IH [of k] rel_held [of s k' k] by (auto simp: of_nat_diff)
qed

text \<open>No holder is refused while the key is below its limit.\<close>

lemma reach_not_refused:
  assumes "slots_reach acq rel s0 s L" and "int (count L k) < lim"
  shows "fst (acq s k)"
  using reach_cnt [OF assms(1), of k] assms(2) by (simp add: acq_granted_iff)

end

end
