(* ===== verification/Go_Strings.thy ===== *)
theory Go_Strings
  imports Prelude
begin

text \<open>
  The functions of Go's strings package that the program calls. A Go string is a sequence of
  bytes, here a list of \<open>char\<close>; a Unicode space is therefore a short byte sequence, and
  TrimSpace and the scanner of the password hash share the table \<open>space_runes\<close>.
\<close>

section \<open>Prefixes, suffixes, substrings\<close>

definition hasPrefix :: "string \<Rightarrow> string \<Rightarrow> bool" where
  "hasPrefix s p \<longleftrightarrow> take (length p) s = p"

definition hasSuffix :: "string \<Rightarrow> string \<Rightarrow> bool" where
  "hasSuffix s p \<longleftrightarrow> length p \<le> length s \<and> drop (length s - length p) s = p"

definition trimPrefix :: "string \<Rightarrow> string \<Rightarrow> string" where
  "trimPrefix s p = (if hasPrefix s p then drop (length p) s else s)"

definition trimSuffix :: "string \<Rightarrow> string \<Rightarrow> string" where
  "trimSuffix s p = (if hasSuffix s p then take (length s - length p) s else s)"

definition cutPrefix :: "string \<Rightarrow> string \<Rightarrow> string \<times> bool" where
  "cutPrefix s p = (if hasPrefix s p then (drop (length p) s, True) else (s, False))"

fun contains :: "string \<Rightarrow> string \<Rightarrow> bool" where
  "contains [] p \<longleftrightarrow> p = []"
| "contains (c # s) p \<longleftrightarrow> hasPrefix (c # s) p \<or> contains s p"

text \<open>strings.Cut with a one-byte separator: the parts around its first occurrence.\<close>

fun cutAt :: "char \<Rightarrow> string \<Rightarrow> (string \<times> string) option" where
  "cutAt sep [] = None"
| "cutAt sep (c # s) =
     (if c = sep then Some ([], s) else map_option (\<lambda>(a, b). (c # a, b)) (cutAt sep s))"

text \<open>The same around the last occurrence (strings.LastIndex with slicing).\<close>

definition cutLast :: "char \<Rightarrow> string \<Rightarrow> (string \<times> string) option" where
  "cutLast sep s = map_option (\<lambda>(a, b). (rev b, rev a)) (cutAt sep (rev s))"

section \<open>Split and join\<close>

fun split :: "char \<Rightarrow> string \<Rightarrow> string list" where
  "split sep [] = [[]]"
| "split sep (c # s) =
     (if c = sep then [] # split sep s
      else case split sep s of [] \<Rightarrow> [[c]] | w # ws \<Rightarrow> (c # w) # ws)"

fun join :: "string \<Rightarrow> string list \<Rightarrow> string" where
  "join sep [] = []"
| "join sep [w] = w"
| "join sep (w # ws) = w @ sep @ join sep ws"

section \<open>White space\<close>

text \<open>UTF-8 encodings of the runes with property White_Space (unicode.IsSpace).\<close>

definition space_runes :: "string list" where
  "space_runes =
     [[CHR 0x09], [CHR 0x0A], [CHR 0x0B], [CHR 0x0C], [CHR 0x0D], [CHR 0x20],
      [CHR 0xC2, CHR 0x85], [CHR 0xC2, CHR 0xA0], [CHR 0xE1, CHR 0x9A, CHR 0x80],
      [CHR 0xE2, CHR 0x80, CHR 0x80], [CHR 0xE2, CHR 0x80, CHR 0x81],
      [CHR 0xE2, CHR 0x80, CHR 0x82], [CHR 0xE2, CHR 0x80, CHR 0x83],
      [CHR 0xE2, CHR 0x80, CHR 0x84], [CHR 0xE2, CHR 0x80, CHR 0x85],
      [CHR 0xE2, CHR 0x80, CHR 0x86], [CHR 0xE2, CHR 0x80, CHR 0x87],
      [CHR 0xE2, CHR 0x80, CHR 0x88], [CHR 0xE2, CHR 0x80, CHR 0x89],
      [CHR 0xE2, CHR 0x80, CHR 0x8A], [CHR 0xE2, CHR 0x80, CHR 0xA8],
      [CHR 0xE2, CHR 0x80, CHR 0xA9], [CHR 0xE2, CHR 0x80, CHR 0xAF],
      [CHR 0xE2, CHR 0x81, CHR 0x9F], [CHR 0xE3, CHR 0x80, CHR 0x80]]"

text \<open>Byte length of the space rune a string starts with, 0 when it starts with none.\<close>

definition space_len :: "string list \<Rightarrow> string \<Rightarrow> nat" where
  "space_len runes s = (case find (hasPrefix s) runes of None \<Rightarrow> 0 | Some r \<Rightarrow> length r)"

function trim_left :: "string list \<Rightarrow> string \<Rightarrow> string" where
  "trim_left runes s =
     (let n = space_len runes s in if n = 0 \<or> s = [] then s else trim_left runes (drop n s))"
  by pat_completeness auto
termination
  by (relation "measure (\<lambda>(r, s). length s)") auto

declare trim_left.simps [simp del]

definition trimSpace :: "string \<Rightarrow> string" where
  "trimSpace s = rev (trim_left (map rev space_runes) (rev (trim_left space_runes s)))"

section \<open>Lemmas\<close>

lemma hasPrefix_iff: "hasPrefix s p \<longleftrightarrow> (\<exists>t. s = p @ t)"
  unfolding hasPrefix_def by (metis append_eq_conv_conj)

lemma hasPrefix_append [simp]: "hasPrefix (p @ t) p"
  by (auto simp: hasPrefix_iff)

lemma hasSuffix_iff: "hasSuffix s p \<longleftrightarrow> (\<exists>t. s = t @ p)"
proof
  assume "hasSuffix s p"
  then show "\<exists>t. s = t @ p"
    unfolding hasSuffix_def by (metis append_take_drop_id)
qed (auto simp: hasSuffix_def)

lemma trimSuffix_append [simp]: "trimSuffix (s @ p) p = s"
  by (simp add: trimSuffix_def hasSuffix_iff)

lemma trimPrefix_append [simp]: "trimPrefix (p @ s) p = s"
  by (simp add: trimPrefix_def)

lemma cutPrefix_True: "cutPrefix s p = (n, True) \<longleftrightarrow> s = p @ n"
  by (auto simp: cutPrefix_def hasPrefix_iff)

lemma cutPrefix_False: "cutPrefix s p = (n, False) \<longleftrightarrow> n = s \<and> \<not> hasPrefix s p"
  by (auto simp: cutPrefix_def)

lemma contains_iff: "contains s p \<longleftrightarrow> (\<exists>a b. s = a @ p @ b)"
proof (induction s)
  case Nil
  show ?case by auto
next
  case (Cons c s)
  have "hasPrefix (c # s) p \<or> (\<exists>a b. s = a @ p @ b) \<longleftrightarrow> (\<exists>a b. c # s = a @ p @ b)"
  proof
    assume "\<exists>a b. c # s = a @ p @ b"
    then obtain a b where "c # s = a @ p @ b" by blast
    then show "hasPrefix (c # s) p \<or> (\<exists>a b. s = a @ p @ b)"
      by (cases a) (auto simp: hasPrefix_iff)
  next
    assume "hasPrefix (c # s) p \<or> (\<exists>a b. s = a @ p @ b)"
    then show "\<exists>a b. c # s = a @ p @ b"
      by (metis append_Cons append_Nil hasPrefix_iff)
  qed
  with Cons.IH show ?case by simp
qed

lemma cutAt_Some: "cutAt sep s = Some (a, b) \<longleftrightarrow> s = a @ sep # b \<and> sep \<notin> set a"
proof (induction s arbitrary: a)
  case Nil
  show ?case by simp
next
  case (Cons c s)
  then show ?case by (cases a) auto
qed

lemma cutAt_None: "cutAt sep s = None \<longleftrightarrow> sep \<notin> set s"
  by (induction s) auto

lemma cutLast_Some: "cutLast sep s = Some (a, b) \<longleftrightarrow> s = a @ sep # b \<and> sep \<notin> set b"
proof -
  have "cutLast sep s = Some (a, b) \<longleftrightarrow> cutAt sep (rev s) = Some (rev b, rev a)"
    by (auto simp: cutLast_def)
  also have "\<dots> \<longleftrightarrow> rev s = rev b @ sep # rev a \<and> sep \<notin> set b"
    by (simp add: cutAt_Some)
  also have "rev s = rev b @ sep # rev a \<longleftrightarrow> s = a @ sep # b"
    by (metis append_Cons append_Nil append_assoc rev.simps(2) rev_append rev_rev_ident)
  finally show ?thesis .
qed

lemma cutLast_None: "cutLast sep s = None \<longleftrightarrow> sep \<notin> set s"
  by (simp add: cutLast_def cutAt_None)

lemma split_not_Nil [simp]: "split sep s \<noteq> []"
  by (induction s) (auto split: list.splits)

lemma split_pieces: "w \<in> set (split sep s) \<Longrightarrow> sep \<notin> set w"
proof (induction s arbitrary: w)
  case Nil
  then show ?case by simp
next
  case (Cons c s)
  then show ?case
    by (cases "split sep s") (fastforce split: if_splits)+
qed

lemma join_Cons: "ws \<noteq> [] \<Longrightarrow> join sep (w # ws) = w @ sep @ join sep ws"
  by (cases ws) auto

lemma join_split: "join [sep] (split sep s) = s"
proof (induction s)
  case Nil
  show ?case by simp
next
  case (Cons c s)
  obtain w ws where s: "split sep s = w # ws"
    by (cases "split sep s") auto
  then show ?case
    using Cons.IH by (cases ws) (auto simp: join_Cons)
qed

lemma split_append_sep: "sep \<notin> set w \<Longrightarrow> split sep (w @ sep # s) = w # split sep s"
  by (induction w) auto

lemma split_no_sep: "sep \<notin> set w \<Longrightarrow> split sep w = [w]"
  by (induction w) auto

lemma split_join:
  assumes "ws \<noteq> []" "\<forall>w \<in> set ws. sep \<notin> set w"
  shows "split sep (join [sep] ws) = ws"
  using assms
proof (induction ws)
  case Nil
  then show ?case by simp
next
  case (Cons w ws)
  then show ?case
    by (cases "ws = []") (auto simp: split_no_sep join_Cons split_append_sep)
qed

text \<open>A string trimmed on one side starts with no space rune and is a suffix of the original.\<close>

lemma trim_left_props:
  "space_len runes (trim_left runes s) = 0 \<or> trim_left runes s = []" "\<exists>p. s = p @ trim_left runes s"
proof (induction runes s rule: trim_left.induct)
  case (1 runes s)
  {
    case 1
    show ?case
      using "1.IH"(1) by (subst (1 2) trim_left.simps) (auto simp: Let_def)
  next
    case 2
    show ?case
    proof (cases "space_len runes s = 0 \<or> s = []")
      case True
      then show ?thesis by (subst trim_left.simps) (auto simp: Let_def)
    next
      case False
      then have eq: "trim_left runes s = trim_left runes (drop (space_len runes s) s)"
        by (subst trim_left.simps) (auto simp: Let_def)
      obtain p where "drop (space_len runes s) s = p @ trim_left runes (drop (space_len runes s) s)"
        using "1.IH"(2) False by auto
      then have "s = take (space_len runes s) s @ p @ trim_left runes s"
        using eq by (metis append_take_drop_id)
      then show ?thesis by (metis append_assoc)
    qed
  }
qed

lemma trim_left_id: "space_len runes s = 0 \<Longrightarrow> trim_left runes s = s"
  by (subst trim_left.simps) simp

lemma space_len_Nil_rune: "\<forall>r \<in> set runes. r \<noteq> [] \<and> (s = [] \<or> hd r \<noteq> hd s) \<Longrightarrow> space_len runes s = 0"
proof -
  assume h: "\<forall>r \<in> set runes. r \<noteq> [] \<and> (s = [] \<or> hd r \<noteq> hd s)"
  have "find (hasPrefix s) runes = None"
    using h by (fastforce simp: find_None_iff hasPrefix_iff hd_append)
  then show ?thesis by (simp add: space_len_def)
qed

end
