(* ===== verification/Tunnel.thy ===== *)
theory Tunnel
  imports Prelude Slots Go_Strings
begin

text \<open>
  Model of src/internal/tunnel/tunnel.go: the mTLS authorizer, the per-node session cap and
  the websocket frame limiter that sits between net/http and the websocket library.

  The frame limiter is a byte automaton (frameLimitConn) driven by chunks of whatever size
  the socket delivers. Integers keep their Go widths: payload is a uint64, max and msg are
  int64 read through \<open>sint\<close>. The remotedialer server behind the handler is third-party code
  and appears only as the constructor \<open>Inner\<close>, which records what it is called with.
\<close>

section \<open>Constants\<close>

definition maxMessageBytes :: int64 where
  "maxMessageBytes = push_bit 10 16"

definition maxSessionsPerNode :: int where
  "maxSessionsPerNode = 2"

section \<open>Authorization by client certificate\<close>

text \<open>The part of an HTTP request the handler reads: req.TLS with its verified peer chain.\<close>

record tunnel_request =
  tls_peers :: "pkix_name list option"

definition authorizeNode :: "tunnel_request \<Rightarrow> string \<times> bool" where
  "authorizeNode req =
     (case tls_peers req of
        None \<Rightarrow> ([], False)
      | Some [] \<Rightarrow> ([], False)
      | Some (subj # _) \<Rightarrow>
          (let (node, isNode) = cutPrefix (CommonName subj) ''system:node:'' in
           if \<not> isNode \<or> node = [] \<or> \<not> List.member (Organization subj) ''system:nodes''
           then ([], False) else (node, True)))"

section \<open>Session slots\<close>

text \<open>h.active; a missing key reads as 0, Go's zero value.\<close>

type_synonym active = "string \<rightharpoonup> int"

text \<open>
  A new handler has no sessions, and gives remotedialer an authorizer that reads back the node
  ServeHTTP put into the request's context.
\<close>

definition newHandler :: active where
  "newHandler = Map.empty"

definition contextNode :: "string option \<Rightarrow> string \<times> bool" where
  "contextNode ctx = (case ctx of Some node \<Rightarrow> (node, True) | None \<Rightarrow> ([], False))"

definition active_count :: "active \<Rightarrow> string \<Rightarrow> int" where
  "active_count a node = (case a node of None \<Rightarrow> 0 | Some n \<Rightarrow> n)"

definition acquire :: "active \<Rightarrow> string \<Rightarrow> bool \<times> active" where
  "acquire a node =
     (if active_count a node \<ge> maxSessionsPerNode then (False, a)
      else (True, a(node \<mapsto> active_count a node + 1)))"

definition release :: "active \<Rightarrow> string \<Rightarrow> active" where
  "release a node =
     (let a' = a(node \<mapsto> active_count a node - 1) in
      if active_count a' node \<le> 0 then a'(node := None) else a')"

text \<open>
  ServeHTTP up to the call of the inner handler. \<open>Inner None\<close> hands the request on with no
  node in its context and the plain writer; \<open>Inner (Some node)\<close> hands it on with the node and
  the limited writer, and \<open>release\<close> runs when that call returns.
\<close>

datatype served = Inner "string option" | TooManyRequests

definition serveStart :: "active \<Rightarrow> tunnel_request \<Rightarrow> served \<times> active" where
  "serveStart a r =
     (let (node, ok) = authorizeNode r in
      if \<not> ok then (Inner None, a)
      else let (got, a') = acquire a node in
           if \<not> got then (TooManyRequests, a') else (Inner (Some node), a'))"

definition serveEnd :: "active \<Rightarrow> served \<Rightarrow> active" where
  "serveEnd a s = (case s of Inner (Some node) \<Rightarrow> release a node | _ \<Rightarrow> a)"

section \<open>The frame limiter\<close>

datatype tunnel_error = errMessageTooLarge | readError string

record frameLimitConn =
  fl_max :: int64
  fl_hdr :: bytes
  fl_payload :: uint64
  fl_msg :: int64
  fl_err :: "tunnel_error option"

text \<open>Index and slice reads only happen once headerLen says the bytes are there.\<close>

definition headerLen :: "bytes \<Rightarrow> nat option" where
  "headerLen h =
     (if length h < 2 then None
      else let l = h ! 1 AND 0x7f;
               n = (if l = 126 then 2 + 2 else if l = 127 then 2 + 8 else 2)
           in Some (if h ! 1 AND 0x80 \<noteq> 0 then n + 4 else n))"

definition be_uint :: "bytes \<Rightarrow> uint64" where
  "be_uint bs = foldl (\<lambda>acc b. acc * 256 + ucast b) 0 bs"

definition payloadLen :: "bytes \<Rightarrow> uint64" where
  "payloadLen h =
     (let l = h ! 1 AND 0x7f in
      if l = 126 then be_uint (take 2 (drop 2 h))
      else if l = 127 then be_uint (take 8 (drop 2 h))
      else ucast l)"

text \<open>What inspect does when a header is complete: account the frame to its message.\<close>

definition account :: "frameLimitConn \<Rightarrow> byte \<Rightarrow> uint64 \<Rightarrow> tunnel_error option \<times> frameLimitConn" where
  "account c opcode len =
     (if opcode \<ge> 8 then (None, c\<lparr>fl_payload := len\<rparr>)
      else if opcode = 0 then
        (if len > fl_max c \<or> sint (fl_msg c + len) > sint (fl_max c) then (Some errMessageTooLarge, c)
         else (None, c\<lparr>fl_msg := fl_msg c + len, fl_payload := len\<rparr>))
      else
        (if len > fl_max c then (Some errMessageTooLarge, c)
         else (None, c\<lparr>fl_msg := len, fl_payload := len\<rparr>)))"

text \<open>One header byte: the body of the loop when no payload is pending.\<close>

definition header_byte :: "frameLimitConn \<Rightarrow> byte \<Rightarrow> tunnel_error option \<times> frameLimitConn" where
  "header_byte c b =
     (let c' = c\<lparr>fl_hdr := fl_hdr c @ [b]\<rparr> in
      case headerLen (fl_hdr c') of
        None \<Rightarrow> (None, c')
      | Some need \<Rightarrow>
          if length (fl_hdr c') < need then (None, c')
          else account (c'\<lparr>fl_hdr := []\<rparr>) (fl_hdr c' ! 0 AND 0x0f) (payloadLen (fl_hdr c')))"

function inspect :: "frameLimitConn \<Rightarrow> bytes \<Rightarrow> tunnel_error option \<times> frameLimitConn" where
  "inspect c [] = (None, c)"
| "inspect c (x # b) =
     (if fl_payload c > 0 then
        (let k = min (unat (fl_payload c)) (length (x # b)) in
         inspect (c\<lparr>fl_payload := fl_payload c - of_nat k\<rparr>) (drop k (x # b)))
      else
        (case header_byte c x of
           (Some e, c') \<Rightarrow> (Some e, c')
         | (None, c') \<Rightarrow> inspect c' b))"
  by pat_completeness auto
termination
  by (relation "measure (\<lambda>(c, b). length b)") (auto simp: word_less_nat_alt)

text \<open>
  frameLimitConn.Read, given what src.Read(p) returned. The boolean says whether the
  connection was closed by this call. A failed limiter never touches the source again.
\<close>

definition readConn :: "frameLimitConn \<Rightarrow> bytes \<times> tunnel_error option
    \<Rightarrow> (bytes \<times> tunnel_error option) \<times> bool \<times> frameLimitConn" where
  "readConn c rd =
     (case fl_err c of
        Some e \<Rightarrow> (([], Some e), False, c)
      | None \<Rightarrow>
          (case inspect c (fst rd) of
             (Some e, c') \<Rightarrow> (([], Some e), True, c'\<lparr>fl_err := Some e\<rparr>)
           | (None, c') \<Rightarrow> (rd, False, c')))"

text \<open>
  limitedWriter.Hijack: the bytes net/http had already buffered are replayed in front of the
  connection's own reads, through a fresh limiter.
\<close>

definition hijack :: "int64 \<Rightarrow> bytes \<Rightarrow> (bytes \<times> tunnel_error option) list
    \<Rightarrow> frameLimitConn \<times> (bytes \<times> tunnel_error option) list" where
  "hijack m pending reads =
     (\<lparr>fl_max = m, fl_hdr = [], fl_payload = 0, fl_msg = 0, fl_err = None\<rparr>,
      (if length pending > 0 then (pending, None) # reads else reads))"

text \<open>A session's reads, in order: what the websocket library sees, and the final limiter.\<close>

fun readAll :: "frameLimitConn \<Rightarrow> (bytes \<times> tunnel_error option) list \<Rightarrow> bytes \<times> frameLimitConn" where
  "readAll c [] = ([], c)"
| "readAll c (rd # rds) =
     (let (res, closed, c') = readConn c rd; (bs, c'') = readAll c' rds
      in (fst res @ bs, c''))"


section \<open>Reference automaton: one byte at a time\<close>

text \<open>
  The loop of \<open>inspect\<close> skips payload in bulk. The reference definition consumes exactly one
  byte per step, so what it computes cannot depend on how the stream is cut into chunks.
\<close>

definition byte_step :: "frameLimitConn \<Rightarrow> byte \<Rightarrow> tunnel_error option \<times> frameLimitConn" where
  "byte_step c b =
     (if fl_payload c > 0 then (None, c\<lparr>fl_payload := fl_payload c - 1\<rparr>) else header_byte c b)"

fun inspect_bytes :: "frameLimitConn \<Rightarrow> bytes \<Rightarrow> tunnel_error option \<times> frameLimitConn" where
  "inspect_bytes c [] = (None, c)"
| "inspect_bytes c (b # bs) =
     (case byte_step c b of
        (Some e, c') \<Rightarrow> (Some e, c')
      | (None, c') \<Rightarrow> inspect_bytes c' bs)"

lemma inspect_bytes_append:
  "inspect_bytes c (xs @ ys) =
     (case inspect_bytes c xs of
        (Some e, c') \<Rightarrow> (Some e, c')
      | (None, c') \<Rightarrow> inspect_bytes c' ys)"
  by (induction c xs rule: inspect_bytes.induct) (auto split: prod.splits option.splits)

lemma inspect_bytes_skip:
  assumes "n \<le> unat (fl_payload c)" and "n \<le> length bs"
  shows "inspect_bytes c bs = inspect_bytes (c\<lparr>fl_payload := fl_payload c - of_nat n\<rparr>) (drop n bs)"
  using assms
proof (induction n arbitrary: c bs)
  case 0
  then show ?case by simp
next
  case (Suc n)
  then obtain b bs' where bs: "bs = b # bs'" by (cases bs) auto
  let ?c = "c\<lparr>fl_payload := fl_payload c - 1\<rparr>"
  have pos: "fl_payload c > 0"
    using Suc.prems(1) by (simp add: word_less_nat_alt)
  have "unat (fl_payload ?c) = unat (fl_payload c) - 1"
    using Suc.prems(1) unat_minus_of_nat [of 1 "fl_payload c"] by simp
  then have "inspect_bytes ?c bs' =
      inspect_bytes (?c\<lparr>fl_payload := fl_payload ?c - of_nat n\<rparr>) (drop n bs')"
    using Suc.prems bs by (intro Suc.IH) auto
  then show ?case
    using pos by (simp add: bs byte_step_def diff_diff_eq)
qed

lemma inspect_eq_inspect_bytes: "inspect c b = inspect_bytes c b"
proof (induction c b rule: inspect.induct)
  case (1 c)
  show ?case by simp
next
  case (2 c x b)
  show ?case
  proof (cases "fl_payload c > 0")
    case True
    let ?k = "min (unat (fl_payload c)) (length (x # b))"
    have "inspect c (x # b) =
        inspect_bytes (c\<lparr>fl_payload := fl_payload c - of_nat ?k\<rparr>) (drop ?k (x # b))"
      using True 2(1) by (simp add: Let_def)
    also have "\<dots> = inspect_bytes c (x # b)"
      by (rule inspect_bytes_skip [symmetric]) auto
    finally show ?thesis .
  next
    case False
    then show ?thesis
      using 2(2) by (auto simp: byte_step_def split: prod.splits option.splits)
  qed
qed

declare inspect.simps [simp del]

section \<open>Limiter invariant\<close>

text \<open>
  The limit is a non-negative int64, the message count stays within it (so the int64 sum in
  \<open>account\<close> never overflows), and a partial header is shorter than what it announces.
\<close>

definition limiter_inv :: "frameLimitConn \<Rightarrow> bool" where
  "limiter_inv c \<longleftrightarrow>
     unat (fl_max c) < 2 ^ 62 \<and> fl_msg c \<le> fl_max c \<and>
     (case headerLen (fl_hdr c) of None \<Rightarrow> length (fl_hdr c) < 2 | Some n \<Rightarrow> length (fl_hdr c) < n) \<and>
     (fl_payload c > 0 \<longrightarrow> fl_hdr c = [])"

lemma sint_small:
  assumes "unat (w :: 64 word) < 2 ^ 63"
  shows "sint w = int (unat w)"
proof -
  have "int (unat w) < int (2 ^ 63)"
    using assms by (simp only: of_nat_less_iff)
  moreover have "- (2 ^ 63) \<le> uint w"
    by (rule order_trans [OF _ unsigned_greater_eq]) simp
  ultimately show ?thesis
    by (simp add: sint_uint signed_take_bit_int_eq_self_iff)
qed

lemma unat_sum_small:
  assumes "unat (a :: 64 word) < 2 ^ 62" "unat b < 2 ^ 62"
  shows "unat (a + b) = unat a + unat b"
  using assms by (simp add: unat_word_ariths)

text \<open>Under the invariant the int64 comparison is the comparison of the natural numbers.\<close>

lemma account_nat:
  assumes "unat (fl_max c) < 2 ^ 62" and "fl_msg c \<le> fl_max c"
  shows "account c opcode len =
     (if opcode \<ge> 8 then (None, c\<lparr>fl_payload := len\<rparr>)
      else if opcode = 0 then
        (if unat (fl_msg c) + unat len > unat (fl_max c) then (Some errMessageTooLarge, c)
         else (None, c\<lparr>fl_msg := fl_msg c + len, fl_payload := len\<rparr>))
      else
        (if unat len > unat (fl_max c) then (Some errMessageTooLarge, c)
         else (None, c\<lparr>fl_msg := len, fl_payload := len\<rparr>)))"
proof (cases "len > fl_max c")
  case True
  then show ?thesis
    by (auto simp: account_def word_less_nat_alt)
next
  case False
  then have len: "unat len < 2 ^ 62" and msg: "unat (fl_msg c) < 2 ^ 62"
    using assms by (auto simp: word_less_nat_alt word_le_nat_alt)
  have sum: "unat (fl_msg c + len) = unat (fl_msg c) + unat len"
    using msg len by (rule unat_sum_small)
  have "sint (fl_msg c + len) = int (unat (fl_msg c) + unat len)"
    using msg len sum by (subst sint_small) auto
  moreover have "sint (fl_max c) = int (unat (fl_max c))"
    using assms(1) by (intro sint_small) auto
  ultimately have "sint (fl_msg c + len) > sint (fl_max c) \<longleftrightarrow>
      unat (fl_msg c) + unat len > unat (fl_max c)"
    by (simp only: of_nat_less_iff)
  then show ?thesis
    using False by (auto simp: account_def word_less_nat_alt)
qed


lemma headerLen_Nil [simp]: "headerLen [] = None"
  by (simp add: headerLen_def)

lemma headerLen_None_iff: "headerLen h = None \<longleftrightarrow> length h < 2"
  by (simp add: headerLen_def Let_def)

lemma headerLen_append: "2 \<le> length h \<Longrightarrow> headerLen (h @ q) = headerLen h"
  by (simp add: headerLen_def nth_append)

lemma headerLen_bounds: "headerLen h = Some n \<Longrightarrow> 2 \<le> n \<and> n \<le> 14"
  by (auto simp: headerLen_def Let_def split: if_splits)

lemma account_inv:
  assumes "unat (fl_max c) < 2 ^ 62" "fl_msg c \<le> fl_max c" "fl_hdr c = []"
    and "account c opcode len = (e, c')"
  shows "limiter_inv c' \<or> (e \<noteq> None \<and> c' = c)"
proof -
  have sum: "fl_msg c + len \<le> fl_max c" if "unat (fl_msg c) + unat len \<le> unat (fl_max c)"
    using that assms(1) by (auto simp: word_le_nat_alt unat_sum_small)
  show ?thesis
    using assms sum
    by (auto simp: account_nat limiter_inv_def word_le_nat_alt split: if_splits)
qed

lemma header_byte_inv:
  assumes "limiter_inv c" "fl_payload c = 0" "header_byte c b = (e, c')"
  shows "limiter_inv c'"
proof -
  let ?d = "c\<lparr>fl_hdr := fl_hdr c @ [b]\<rparr>"
  show ?thesis
  proof (cases "\<exists>need. headerLen (fl_hdr ?d) = Some need \<and> need \<le> length (fl_hdr ?d)")
    case True
    then have acc: "account (?d\<lparr>fl_hdr := []\<rparr>) (fl_hdr ?d ! 0 AND 0x0f) (payloadLen (fl_hdr ?d)) = (e, c')"
      using assms(3) by (auto simp: header_byte_def Let_def)
    have "limiter_inv (?d\<lparr>fl_hdr := []\<rparr>)"
      using assms(1,2) by (simp add: limiter_inv_def)
    then show ?thesis
      using account_inv [OF _ _ _ acc] by (auto simp: limiter_inv_def)
  next
    case False
    then have "c' = ?d"
      using assms(3) by (auto simp: header_byte_def Let_def split: option.splits if_splits)
    then show ?thesis
      using assms False
      by (auto simp: limiter_inv_def headerLen_None_iff not_le simp del: One_nat_def split: option.splits)
  qed
qed

lemma byte_step_inv:
  assumes "limiter_inv c" "byte_step c b = (e, c')"
  shows "limiter_inv c'"
proof (cases "fl_payload c > 0")
  case True
  then show ?thesis
    using assms by (auto simp: byte_step_def limiter_inv_def)
next
  case False
  then show ?thesis
    using assms header_byte_inv by (auto simp: byte_step_def word_gt_0)
qed

lemma inspect_bytes_inv:
  "limiter_inv c \<Longrightarrow> inspect_bytes c bs = (e, c') \<Longrightarrow> limiter_inv c'"
  by (induction c bs rule: inspect_bytes.induct)
    (auto split: prod.splits option.splits intro: byte_step_inv)

lemma byte_step_max: "byte_step c b = (e, c') \<Longrightarrow> fl_max c' = fl_max c \<and> fl_err c' = fl_err c"
  by (auto simp: byte_step_def header_byte_def account_def Let_def split: if_splits option.splits)

lemma inspect_bytes_max: "inspect_bytes c bs = (e, c') \<Longrightarrow> fl_max c' = fl_max c \<and> fl_err c' = fl_err c"
  by (induction c bs rule: inspect_bytes.induct)
    (auto split: prod.splits option.splits dest: byte_step_max)


section \<open>Frames\<close>

text \<open>
  The specification side: RFC 6455 frames with their wire encoding (any of the three length
  forms, as a peer may send them), and the sizes a data message reaches while its fragments
  arrive. A control frame belongs to no message; a non-continuation frame starts one.
\<close>

datatype len_form = Len7 | Len16 | Len64

record frame =
  f_first :: byte
  f_form :: len_form
  f_mask :: "bytes option"
  f_payload :: bytes

fun be_bytes :: "nat \<Rightarrow> nat \<Rightarrow> bytes" where
  "be_bytes 0 x = []"
| "be_bytes (Suc n) x = be_bytes n (x div 256) @ [of_nat (x mod 256)]"

definition frame_header :: "frame \<Rightarrow> bytes" where
  "frame_header f =
     (let n = length (f_payload f);
          m = (case f_mask f of None \<Rightarrow> 0 | Some _ \<Rightarrow> 0x80);
          key = (case f_mask f of None \<Rightarrow> [] | Some k \<Rightarrow> k)
      in case f_form f of
           Len7 \<Rightarrow> [f_first f, m OR of_nat n] @ key
         | Len16 \<Rightarrow> [f_first f, m OR 126] @ be_bytes 2 n @ key
         | Len64 \<Rightarrow> [f_first f, m OR 127] @ be_bytes 8 n @ key)"

definition encode_frame :: "frame \<Rightarrow> bytes" where
  "encode_frame f = frame_header f @ f_payload f"

definition wf_frame :: "frame \<Rightarrow> bool" where
  "wf_frame f \<longleftrightarrow>
     (case f_mask f of None \<Rightarrow> True | Some k \<Rightarrow> length k = 4) \<and>
     length (f_payload f) < (case f_form f of Len7 \<Rightarrow> 126 | Len16 \<Rightarrow> 2 ^ 16 | Len64 \<Rightarrow> 2 ^ 64)"

definition opcode :: "frame \<Rightarrow> byte" where
  "opcode f = f_first f AND 0x0f"

fun message_sizes :: "nat \<Rightarrow> frame list \<Rightarrow> nat list" where
  "message_sizes m [] = []"
| "message_sizes m (f # fs) =
     (if opcode f \<ge> 8 then message_sizes m fs
      else let m' = (if opcode f = 0 then m else 0) + length (f_payload f)
           in m' # message_sizes m' fs)"

lemma length_be_bytes [simp]: "length (be_bytes n x) = n"
  by (induction n arbitrary: x) auto

lemma be_uint_snoc: "be_uint (bs @ [b]) = be_uint bs * 256 + ucast b"
  by (simp add: be_uint_def)

lemma be_uint_be_bytes: "x < 256 ^ n \<Longrightarrow> be_uint (be_bytes n x) = of_nat x"
proof (induction n arbitrary: x)
  case 0
  then show ?case by (simp add: be_uint_def)
next
  case (Suc n)
  have "be_uint (be_bytes (Suc n) x) = of_nat (x div 256) * 256 + ucast (of_nat (x mod 256) :: byte)"
    using Suc by (simp add: be_uint_snoc less_mult_imp_div_less mult.commute)
  also have "ucast (of_nat (x mod 256) :: byte) = (of_nat (x mod 256) :: uint64)"
    by (simp add: unsigned_of_nat take_bit_nat_eq_self)
  also have "of_nat (x div 256) * 256 + of_nat (x mod 256) = (of_nat (x div 256 * 256 + x mod 256) :: uint64)"
    by (simp only: of_nat_add of_nat_mult of_nat_numeral)
  finally show ?case by (simp only: div_mult_mod_eq)
qed

lemma len7_bits:
  assumes "n < (128 :: nat)"
  shows "(of_nat n :: byte) AND 0x7f = of_nat n" "(of_nat n :: byte) AND 0x80 = 0"
    "(0x80 OR of_nat n :: byte) AND 0x7f = of_nat n" "(0x80 OR of_nat n :: byte) AND 0x80 = 0x80"
proof -
  have *: "(of_nat n :: byte) = take_bit 7 (of_nat n)"
    using assms by (simp add: take_bit_of_nat take_bit_nat_eq_self)
  have m7f: "(0x7f :: byte) = mask 7"
    by (simp add: mask_eq_exp_minus_1)
  show 1: "(of_nat n :: byte) AND 0x7f = of_nat n"
    using * by (simp only: m7f take_bit_eq_mask)
  have "(of_nat n :: byte) AND 0x80 = (of_nat n AND 0x7f) AND 0x80"
    by (simp only: 1)
  also have "\<dots> = of_nat n AND (0x7f AND 0x80)"
    by (simp only: and.assoc)
  finally show 2: "(of_nat n :: byte) AND 0x80 = 0"
    by simp
  show "(0x80 OR of_nat n :: byte) AND 0x7f = of_nat n"
    using 1 by (simp add: bit.conj_disj_distrib2)
  show "(0x80 OR of_nat n :: byte) AND 0x80 = 0x80"
    using 2 by (simp add: bit.conj_disj_distrib2)
qed


lemma frame_header_facts:
  assumes "wf_frame f"
  shows "headerLen (frame_header f) = Some (length (frame_header f))"
    and "payloadLen (frame_header f) = of_nat (length (f_payload f))"
    and "frame_header f ! 0 AND 0x0f = opcode f"
    and "2 \<le> length (frame_header f)"
proof -
  let ?n = "length (f_payload f)"
  have eq126: "(of_nat ?n :: byte) \<noteq> 126 \<and> (of_nat ?n :: byte) \<noteq> 127 \<and>
      unat (of_nat ?n :: byte) = ?n" if "?n < 126"
    using that by (auto simp: unat_of_nat word_unat_eq_iff)
  have uc: "ucast (of_nat ?n :: byte) = (of_nat ?n :: uint64)" if "?n < 126"
    using that by (simp add: unsigned_of_nat take_bit_nat_eq_self)
  have b2: "be_uint (be_bytes 2 ?n) = of_nat ?n" if "?n < 2 ^ 16"
    using that by (intro be_uint_be_bytes) simp
  have b8: "be_uint (be_bytes 8 ?n) = of_nat ?n" if "?n < 2 ^ 64"
    using that by (intro be_uint_be_bytes) simp
  note bits = len7_bits [of ?n] len7_bits [of 126, simplified] len7_bits [of 127, simplified]
  show "headerLen (frame_header f) = Some (length (frame_header f))"
    using assms bits eq126
    by (auto simp: wf_frame_def frame_header_def headerLen_def Let_def split: option.splits len_form.splits)
  show "payloadLen (frame_header f) = of_nat ?n"
    using assms bits eq126 uc b2 b8
    by (auto simp: wf_frame_def frame_header_def payloadLen_def Let_def split: option.splits len_form.splits)
  show "frame_header f ! 0 AND 0x0f = opcode f" "2 \<le> length (frame_header f)"
    by (auto simp: frame_header_def opcode_def Let_def split: option.splits len_form.splits)
qed

text \<open>Feeding the bytes of a header one by one ends in \<open>account\<close> on the whole header.\<close>

lemma feed_header:
  assumes "headerLen (p @ q) = Some (length (p @ q))" "q \<noteq> []"
    and "fl_payload c = 0" "fl_hdr c = p"
  shows "inspect_bytes c q =
     account (c\<lparr>fl_hdr := []\<rparr>) ((p @ q) ! 0 AND 0x0f) (payloadLen (p @ q))"
  using assms
proof (induction q arbitrary: p c)
  case Nil
  then show ?case by simp
next
  case (Cons b q)
  let ?d = "c\<lparr>fl_hdr := p @ [b]\<rparr>"
  show ?case
  proof (cases "q = []")
    case True
    then have "inspect_bytes c (b # q) = (case header_byte c b of
        (Some e, c') \<Rightarrow> (Some e, c') | (None, c') \<Rightarrow> (None, c'))"
      using Cons.prems by (simp add: byte_step_def cong: option.case_cong prod.case_cong)
    also have "\<dots> = header_byte c b"
      by (simp split: prod.splits option.splits)
    finally show ?thesis
      using Cons.prems True by (simp add: header_byte_def Let_def)
  next
    case False
    have "headerLen (p @ [b]) = None \<or> headerLen (p @ [b]) = Some (length (p @ b # q))"
      using Cons.prems(1) headerLen_append [of "p @ [b]" q] by (cases p) (auto simp: headerLen_None_iff)
    then have "header_byte c b = (None, ?d)"
      using Cons.prems False by (auto simp: header_byte_def Let_def)
    then have "inspect_bytes c (b # q) = inspect_bytes ?d q"
      using Cons.prems by (simp add: byte_step_def)
    also have "\<dots> = account (?d\<lparr>fl_hdr := []\<rparr>) (((p @ [b]) @ q) ! 0 AND 0x0f) (payloadLen ((p @ [b]) @ q))"
      using Cons.prems False by (intro Cons.IH) auto
    finally show ?thesis
      using Cons.prems by simp
  qed
qed

definition clean :: "frameLimitConn \<Rightarrow> bool" where
  "clean c \<longleftrightarrow> fl_hdr c = [] \<and> fl_payload c = 0 \<and> unat (fl_max c) < 2 ^ 62 \<and> fl_msg c \<le> fl_max c"

lemma inspect_bytes_frame:
  assumes "wf_frame f" "clean c"
  shows "inspect_bytes c (encode_frame f) =
     (case account c (opcode f) (of_nat (length (f_payload f))) of
        (Some e, c') \<Rightarrow> (Some e, c')
      | (None, c') \<Rightarrow> (None, c'\<lparr>fl_payload := 0\<rparr>))"
proof -
  let ?len = "of_nat (length (f_payload f)) :: uint64"
  note hd = frame_header_facts [OF assms(1)]
  have header: "inspect_bytes c (frame_header f) = account c (opcode f) ?len"
  proof -
    have "frame_header f \<noteq> []"
      using hd(4) by auto
    moreover have "c\<lparr>fl_hdr := []\<rparr> = c"
      using assms(2) by (cases c) (simp add: clean_def)
    ultimately show ?thesis
      using feed_header [of "[]" "frame_header f" c] hd assms(2) by (simp add: clean_def)
  qed
  have len: "unat ?len = length (f_payload f)"
  proof -
    have "length (f_payload f) < 2 ^ 64"
      using assms(1) by (auto simp: wf_frame_def split: len_form.splits)
    then show ?thesis by (simp add: unat_of_nat)
  qed
  have pay: "inspect_bytes c' (f_payload f) = (None, c'\<lparr>fl_payload := 0\<rparr>)"
    if "account c (opcode f) ?len = (None, c')" for c'
  proof -
    have "fl_payload c' = ?len"
      using that by (auto simp: account_def split: if_splits)
    then show ?thesis
      using inspect_bytes_skip [of "length (f_payload f)" c' "f_payload f"] len by simp
  qed
  show ?thesis
    using header pay
    by (auto simp: encode_frame_def inspect_bytes_append split: prod.splits option.splits)
qed


lemma account_clean:
  assumes "clean c" "account c opc len = (None, c')"
  shows "clean (c'\<lparr>fl_payload := 0\<rparr>) \<and> fl_max c' = fl_max c"
proof -
  have "limiter_inv c'"
    using assms account_inv [of c opc len None c'] by (auto simp: clean_def)
  then show ?thesis
    using assms by (auto simp: limiter_inv_def clean_def account_def split: if_splits)
qed

lemma inspect_bytes_frames:
  assumes "\<forall>f \<in> set fs. wf_frame f" and "clean c"
  shows "fst (inspect_bytes c (concat (map encode_frame fs))) = None \<longleftrightarrow>
     (\<forall>s \<in> set (message_sizes (unat (fl_msg c)) fs). s \<le> unat (fl_max c))"
  using assms
proof (induction fs arbitrary: c)
  case Nil
  then show ?case by simp
next
  case (Cons f fs)
  let ?n = "length (f_payload f)"
  let ?m = "(if opcode f = 0 then unat (fl_msg c) else 0) + ?n"
  have lim: "unat (fl_max c) < 2 ^ 62" "fl_msg c \<le> fl_max c"
    using Cons.prems(2) by (auto simp: clean_def)
  have n: "unat (of_nat ?n :: uint64) = ?n"
    using Cons.prems(1) by (auto simp: wf_frame_def unat_of_nat split: len_form.splits)
  obtain e c' where acc: "account c (opcode f) (of_nat ?n) = (e, c')"
    by (cases "account c (opcode f) (of_nat ?n)") auto
  have step: "inspect_bytes c (encode_frame f) =
      (case e of None \<Rightarrow> (None, c'\<lparr>fl_payload := 0\<rparr>) | Some x \<Rightarrow> (Some x, c'))"
    using inspect_bytes_frame [of f c] Cons.prems acc by (auto split: option.splits)
  show ?case
  proof (cases e)
    case (Some x)
    then have "opcode f < 8" "unat (fl_max c) < ?m"
      using acc n by (auto simp: account_nat [OF lim] split: if_splits)
    then show ?thesis
      using step Some by (auto simp: inspect_bytes_append Let_def)
  next
    case None
    let ?c = "c'\<lparr>fl_payload := 0\<rparr>"
    have clean: "clean ?c" "fl_max ?c = fl_max c"
      using account_clean [of c "opcode f" "of_nat ?n" c'] acc None Cons.prems(2) by auto
    have "fst (inspect_bytes c (concat (map encode_frame (f # fs)))) = None \<longleftrightarrow>
        (\<forall>s \<in> set (message_sizes (unat (fl_msg ?c)) fs). s \<le> unat (fl_max ?c))"
      using step None Cons.IH [of ?c] Cons.prems(1) clean(1) by (simp add: inspect_bytes_append)
    moreover have "opcode f \<ge> 8 \<and> fl_msg c' = fl_msg c \<or>
        opcode f < 8 \<and> ?m \<le> unat (fl_max c) \<and> unat (fl_msg c') = ?m"
    proof -
      have "unat (fl_msg c + of_nat ?n) = unat (fl_msg c) + ?n"
        if "unat (fl_msg c) + ?n \<le> unat (fl_max c)"
        using that lim(1) n by (subst unat_sum_small) auto
      then show ?thesis
        using acc None n by (auto simp: account_nat [OF lim] split: if_splits)
    qed
    ultimately show ?thesis
      using clean(2) by (auto simp: Let_def not_le [symmetric])
  qed
qed

text \<open>The verdict on a frame is given when its header is complete.\<close>

lemma header_decides:
  assumes "\<forall>f \<in> set fs. wf_frame f" "wf_frame f" "clean c"
  shows "fst (inspect_bytes c (concat (map encode_frame fs) @ frame_header f)) =
    fst (inspect_bytes c (concat (map encode_frame (fs @ [f]))))"
  using assms
proof (induction fs arbitrary: c)
  case Nil
  have "frame_header f \<noteq> []" "c\<lparr>fl_hdr := []\<rparr> = c"
    using frame_header_facts(4) [OF Nil.prems(2)] Nil.prems(3) by (cases c, auto simp: clean_def)
  then have "inspect_bytes c (frame_header f) = account c (opcode f) (of_nat (length (f_payload f)))"
    using feed_header [of "[]" "frame_header f" c] frame_header_facts [OF Nil.prems(2)] Nil.prems(3) by (simp add: clean_def)
  then show ?case
    using inspect_bytes_frame [OF Nil.prems(2,3)] by (simp split: prod.splits option.splits)
next
  case (Cons g fs)
  obtain e c' where a: "account c (opcode g) (of_nat (length (f_payload g))) = (e, c')"
    by (cases "account c (opcode g) (of_nat (length (f_payload g)))") auto
  show ?case
    using Cons.IH [of "c'\<lparr>fl_payload := 0\<rparr>"] Cons.prems a account_clean [OF Cons.prems(3), of "opcode g"]
      inspect_bytes_frame [of g c]
    by (cases e) (auto simp: inspect_bytes_append)
qed

text \<open>Every stream is complete frames and a part of one.\<close>

lemma frames_exist:
  "\<exists>fs part. out = concat (map encode_frame fs) @ part \<and> (\<forall>f \<in> set fs. wf_frame f) \<and>
     (\<forall>f rest. wf_frame f \<longrightarrow> part \<noteq> encode_frame f @ rest)"
proof (induction out rule: length_induct)
  case (1 out)
  show ?case
  proof (cases "\<exists>f rest. wf_frame f \<and> out = encode_frame f @ rest")
    case True
    then obtain f rest where f: "wf_frame f" "out = encode_frame f @ rest" by blast
    then have "length rest < length out" using frame_header_facts(4) [OF f(1)] by (auto simp: encode_frame_def)
    then obtain fs part where "rest = concat (map encode_frame fs) @ part" "\<forall>f \<in> set fs. wf_frame f"
      "\<forall>f rest. wf_frame f \<longrightarrow> part \<noteq> encode_frame f @ rest" using 1 by blast
    then show ?thesis using f by (intro exI [of _ "f # fs"] exI [of _ part]) simp
  next
    case False
    then show ?thesis by (intro exI [of _ "[]"] exI [of _ out]) auto
  qed
qed

section \<open>Reads of a session\<close>

text \<open>
  However the stream is cut into reads, what reaches the websocket library is a prefix of it
  that the byte automaton accepts, and the whole of it unless the limiter failed.
\<close>

lemma readAll_failed: "fl_err c = Some e \<Longrightarrow> readAll c rds = ([], c)"
  by (induction rds) (auto simp: readConn_def)

lemma readAll_prefix:
  assumes "fl_err c = None" "readAll c rds = (out, c')"
  shows "\<exists>rest d. concat (map fst rds) = out @ rest \<and> inspect_bytes c out = (None, d) \<and>
     (fl_err c' = None \<longrightarrow> rest = [] \<and> c' = d) \<and>
     (fl_err c' \<noteq> None \<longrightarrow> fst (inspect_bytes c (concat (map fst rds))) = fl_err c')"
  using assms
proof (induction rds arbitrary: c out)
  case Nil
  then show ?case by auto
next
  case (Cons rd rds)
  obtain e c1 where ins: "inspect_bytes c (fst rd) = (e, c1)"
    by (cases "inspect_bytes c (fst rd)") auto
  show ?case
  proof (cases e)
    case (Some x)
    then have "readConn c rd = (([], Some x), True, c1\<lparr>fl_err := Some x\<rparr>)"
      using ins Cons.prems(1) by (simp add: readConn_def inspect_eq_inspect_bytes)
    then have "out = []" "c' = c1\<lparr>fl_err := Some x\<rparr>"
      using Cons.prems(2) readAll_failed [of "c1\<lparr>fl_err := Some x\<rparr>" x rds] by (auto simp: Let_def)
    then show ?thesis
      using ins Some by (auto simp: inspect_bytes_append)
  next
    case None
    then have "readConn c rd = (rd, False, c1)"
      using ins Cons.prems(1) by (simp add: readConn_def inspect_eq_inspect_bytes)
    then obtain out' where out: "out = fst rd @ out'" and rest: "readAll c1 rds = (out', c')"
      using Cons.prems(2) by (auto simp: Let_def split: prod.splits)
    have "fl_err c1 = None"
      using inspect_bytes_max [OF ins] Cons.prems(1) by simp
    from Cons.IH [OF this rest] obtain r d where
      "concat (map fst rds) = out' @ r" "inspect_bytes c1 out' = (None, d)"
      "fl_err c' = None \<longrightarrow> r = [] \<and> c' = d"
      "fl_err c' \<noteq> None \<longrightarrow> fst (inspect_bytes c1 (concat (map fst rds))) = fl_err c'"
      by (elim exE conjE)
    then show ?thesis
      using ins None out by (auto simp: inspect_bytes_append)
  qed
qed


lemma inspect_bytes_error: "inspect_bytes c bs = (Some e, c') \<Longrightarrow> e = errMessageTooLarge"
  by (induction c bs rule: inspect_bytes.induct)
    (auto simp: byte_step_def header_byte_def account_def Let_def split: if_splits option.splits prod.splits)

lemma unat_maxMessageBytes: "unat maxMessageBytes = 16384"
  by (simp add: maxMessageBytes_def)

lemma hijack_start:
  assumes "hijack maxMessageBytes pending reads = (c, rds)"
  shows "clean c" "limiter_inv c" "fl_err c = None" "fl_msg c = 0" "unat (fl_max c) = 16384"
    "concat (map fst rds) = pending @ concat (map fst reads)"
  using assms by (auto simp: hijack_def clean_def limiter_inv_def unat_maxMessageBytes)

lemma readAll_inv:
  assumes "limiter_inv c" "readAll c rds = (out, c')"
  shows "limiter_inv c' \<and> fl_max c' = fl_max c"
  using assms
proof (induction rds arbitrary: c out)
  case Nil
  then show ?case by simp
next
  case (Cons rd rds)
  obtain res closed c1 where rc: "readConn c rd = (res, closed, c1)"
    by (cases "readConn c rd") auto
  have "limiter_inv c1 \<and> fl_max c1 = fl_max c"
  proof (cases "fl_err c")
    case (Some e)
    then show ?thesis using rc Cons.prems(1) by (auto simp: readConn_def)
  next
    case None
    obtain e d where ins: "inspect_bytes c (fst rd) = (e, d)"
      by (cases "inspect_bytes c (fst rd)") auto
    have "limiter_inv d" "fl_max d = fl_max c"
      using inspect_bytes_inv [OF Cons.prems(1) ins] inspect_bytes_max [OF ins] by auto
    then show ?thesis
      using rc ins None
      by (auto simp: readConn_def inspect_eq_inspect_bytes limiter_inv_def split: option.splits)
  qed
  then show ?case
    using Cons.IH [of c1] Cons.prems(2) rc by (auto simp: Let_def split: prod.splits)
qed

section \<open>Sessions\<close>

interpretation sessions: slot_pool acquire release active_count maxSessionsPerNode newHandler
  by unfold_locales
    (auto simp: newHandler_def active_count_def acquire_def release_def maxSessionsPerNode_def Let_def split: option.splits)

text \<open>
  The handler with any number of requests in flight: a request that was handed on with a node
  holds that node's slot until the inner handler returns.
\<close>

inductive tunnel_reach :: "active \<Rightarrow> string multiset \<Rightarrow> bool" where
  tunnel_start: "tunnel_reach newHandler {#}"
| tunnel_open: "tunnel_reach a L \<Longrightarrow> serveStart a r = (Inner (Some n), a') \<Longrightarrow>
    tunnel_reach a' (add_mset n L)"
| tunnel_anonymous: "tunnel_reach a L \<Longrightarrow> serveStart a r = (Inner None, a') \<Longrightarrow> tunnel_reach a' L"
| tunnel_refused: "tunnel_reach a L \<Longrightarrow> serveStart a r = (TooManyRequests, a') \<Longrightarrow> tunnel_reach a' L"
| tunnel_closed: "tunnel_reach a L \<Longrightarrow> n \<in># L \<Longrightarrow>
    tunnel_reach (serveEnd a (Inner (Some n))) (L - {#n#})"

lemma serveStart_cases:
  assumes "serveStart a r = (res, a')"
  shows "(res = Inner None \<and> a' = a \<and> \<not> snd (authorizeNode r)) \<or>
    (\<exists>n. authorizeNode r = (n, True) \<and> res = TooManyRequests \<and> acquire a n = (False, a')) \<or>
    (\<exists>n. authorizeNode r = (n, True) \<and> res = Inner (Some n) \<and> acquire a n = (True, a'))"
  using assms
  by (cases "authorizeNode r"; cases "acquire a (fst (authorizeNode r))")
    (auto simp: serveStart_def Let_def split: if_splits)

text \<open>remotedialer sees exactly the identity of the client certificate.\<close>

lemma inner_identity: "serveStart a r = (Inner ctx, a') \<Longrightarrow> contextNode ctx = authorizeNode r"
proof -
  have "authorizeNode r = ([], False)" if "\<not> snd (authorizeNode r)"
    using that by (auto simp: authorizeNode_def Let_def split: option.splits list.splits prod.splits if_splits)
  moreover assume "serveStart a r = (Inner ctx, a')"
  ultimately show ?thesis using serveStart_cases [of a r "Inner ctx" a'] by (auto simp: contextNode_def)
qed

lemma tunnel_reach_slots: "tunnel_reach a L \<Longrightarrow> slots_reach acquire release newHandler a L"
proof (induction rule: tunnel_reach.induct)
  case (tunnel_open a L r n a')
  then show ?case
    using serveStart_cases [OF tunnel_open.hyps(2)] by (auto intro: slots_reach.slots_granted)
next
  case (tunnel_anonymous a L r a')
  then show ?case
    using serveStart_cases [OF tunnel_anonymous.hyps(2)] by auto
next
  case (tunnel_refused a L r a')
  then show ?case
    using serveStart_cases [OF tunnel_refused.hyps(2)] by (auto intro: slots_reach.slots_refused)
qed (auto simp: serveEnd_def intro: slots_reach.intros)

text \<open>The map keeps no entry for a node without sessions, so it cannot grow without bound.\<close>

lemma slots_positive:
  "slots_reach acquire release newHandler a L \<Longrightarrow> a n = Some v \<Longrightarrow> 0 < v"
proof (induction arbitrary: n v rule: slots_reach.induct)
  case (slots_granted s L k s')
  have "0 \<le> active_count s k"
    using slots_granted.IH [of k] by (force simp: active_count_def split: option.splits)
  then show ?case
    using slots_granted by (auto simp: acquire_def split: if_splits)
next
  case (slots_refused s L k s')
  then show ?case by (auto simp: acquire_def split: if_splits)
next
  case (slots_released s L k)
  then show ?case
    by (auto simp: release_def active_count_def Let_def split: if_splits option.splits)
qed (simp add: newHandler_def)


section \<open>Properties\<close>

text \<open>
  (C9) The message cap, end to end. Take any sequence of well-formed frames, split its wire
  encoding into buffered bytes and reads in any way, and run the session's reads through the
  limiter. The limiter stays up exactly when every data message stays within 16 KiB at every
  fragment; then the websocket library receives the stream unchanged. Otherwise it receives
  a prefix only, and the limiter has failed with errMessageTooLarge.
\<close>

theorem tunnel_message_cap:
  assumes "hijack maxMessageBytes pending reads = (c, rds)"
    and "pending @ concat (map fst reads) = concat (map encode_frame fs)"
    and "\<forall>f \<in> set fs. wf_frame f"
    and "readAll c rds = (out, c')"
  shows "(fl_err c' = None \<longleftrightarrow> (\<forall>s \<in> set (message_sizes 0 fs). s \<le> 16384)) \<and>
    (fl_err c' = None \<longrightarrow> out = concat (map encode_frame fs)) \<and>
    (fl_err c' \<noteq> None \<longrightarrow> fl_err c' = Some errMessageTooLarge) \<and>
    (\<exists>rest. concat (map encode_frame fs) = out @ rest)"
proof -
  let ?stream = "concat (map encode_frame fs)"
  note start = hijack_start [OF assms(1)]
  have stream: "concat (map fst rds) = ?stream"
    using start(6) assms(2) by simp
  obtain rest d where pre: "?stream = out @ rest" "inspect_bytes c out = (None, d)"
    "fl_err c' = None \<longrightarrow> rest = []" "fl_err c' \<noteq> None \<longrightarrow> fst (inspect_bytes c ?stream) = fl_err c'"
    using readAll_prefix [OF start(3) assms(4)] stream by auto
  have ok: "fst (inspect_bytes c ?stream) = None \<longleftrightarrow> (\<forall>s \<in> set (message_sizes 0 fs). s \<le> 16384)"
    using inspect_bytes_frames [OF assms(3) start(1)] start(4,5) by simp
  have "fl_err c' = None \<longleftrightarrow> fst (inspect_bytes c ?stream) = None"
    using pre by (cases "fl_err c'") auto
  then show ?thesis
    using ok pre inspect_bytes_error [of c ?stream]
    by (cases "inspect_bytes c ?stream"; cases "fl_err c'") auto
qed

theorem tunnel_message_cap_witness:
  "\<exists>c rds out c'.
     hijack maxMessageBytes [0x81] [([0x82, 1], None), ([2, 3, 4, 7, 9], None)] = (c, rds) \<and>
     readAll c rds = (out, c') \<and> fl_err c' = None \<and> out = [0x81, 0x82, 1, 2, 3, 4, 7, 9]"
proof -
  let ?f = "\<lparr>f_first = 0x81, f_form = Len7, f_mask = Some [1, 2, 3, 4], f_payload = [7, 9]\<rparr>"
  let ?reads = "[([0x82, 1], None), ([2, 3, 4, 7, 9], None)] :: (bytes \<times> tunnel_error option) list"
  obtain c rds where h: "hijack maxMessageBytes [0x81] ?reads = (c, rds)"
    by (cases "hijack maxMessageBytes [0x81] ?reads") auto
  obtain out c' where r: "readAll c rds = (out, c')"
    by (cases "readAll c rds") auto
  have enc: "concat (map encode_frame [?f]) = [0x81, 0x82, 1, 2, 3, 4, 7, 9]"
    by (simp add: encode_frame_def frame_header_def)
  then have "[0x81] @ concat (map fst ?reads) = concat (map encode_frame [?f])"
    by simp
  moreover have "\<forall>f \<in> set [?f]. wf_frame f"
    by (simp add: wf_frame_def)
  moreover have "\<forall>s \<in> set (message_sizes 0 [?f]). s \<le> 16384"
    by (simp add: opcode_def)
  ultimately have "fl_err c' = None \<and> out = concat (map encode_frame [?f])"
    using tunnel_message_cap [OF h _ _ r, of "[?f]"] by simp
  then show ?thesis
    using h r enc by auto
qed

text \<open>
  (C23) What the websocket library can be made to buffer. Whatever bytes the peer sends and however
  they are read, what reaches the library before or without a failure is a sequence of complete
  frames followed by a part of a frame. The data messages of the complete frames have at most
  16 KiB each, and when the part contains a complete header, the message that header announces has
  at most 16 KiB too, before any of its payload has arrived: the library never sees the header of
  an oversized message.
\<close>

theorem tunnel_delivered_within_cap:
  assumes "hijack maxMessageBytes pending reads = (c, rds)" and "readAll c rds = (out, c')"
  shows "(\<exists>fs part. out = concat (map encode_frame fs) @ part \<and> (\<forall>f \<in> set fs. wf_frame f) \<and>
      (\<forall>f rest. wf_frame f \<longrightarrow> part \<noteq> encode_frame f @ rest)) \<and>
    (\<forall>fs part. out = concat (map encode_frame fs) @ part \<and> (\<forall>f \<in> set fs. wf_frame f) \<longrightarrow>
      (\<forall>s \<in> set (message_sizes 0 fs). s \<le> 16384) \<and>
      (\<forall>f rest. wf_frame f \<and> part = frame_header f @ rest \<longrightarrow> (\<forall>s \<in> set (message_sizes 0 (fs @ [f])). s \<le> 16384)))"
proof -
  note start = hijack_start [OF assms(1)]
  obtain d where d: "inspect_bytes c out = (None, d)"
    using readAll_prefix [OF start(3) assms(2)] by auto
  have ok: "fst (inspect_bytes c p) = None" if "out = p @ q" for p q
    using d that by (auto simp: inspect_bytes_append split: prod.splits option.splits)
  have frames: "\<forall>s \<in> set (message_sizes 0 fs). s \<le> 16384"
    if "fst (inspect_bytes c (concat (map encode_frame fs))) = None" "\<forall>f \<in> set fs. wf_frame f" for fs
    using inspect_bytes_frames [OF that(2) start(1)] that(1) start(4,5) by simp
  have header: "\<forall>s \<in> set (message_sizes 0 (fs @ [f])). s \<le> 16384"
    if "out = concat (map encode_frame fs) @ frame_header f @ rest" "\<forall>f \<in> set fs. wf_frame f" "wf_frame f" for fs f rest
  proof (rule frames)
    show "fst (inspect_bytes c (concat (map encode_frame (fs @ [f])))) = None"
      using ok [of "concat (map encode_frame fs) @ frame_header f" rest] that(1)
        header_decides [OF that(2,3) start(1)] by simp
  qed (use that in auto)
  show ?thesis
  proof (intro conjI allI impI)
    fix fs part assume "out = concat (map encode_frame fs) @ part \<and> (\<forall>f \<in> set fs. wf_frame f)"
    note a = this
    then show "\<forall>s \<in> set (message_sizes 0 fs). s \<le> 16384" using frames ok by blast
    fix f rest assume "wf_frame f \<and> part = frame_header f @ rest"
    then show "\<forall>s \<in> set (message_sizes 0 (fs @ [f])). s \<le> 16384" using a header by blast
  qed (rule frames_exist)
qed

theorem tunnel_delivered_within_cap_witness:
  "\<exists>c rds out c'. hijack maxMessageBytes [0x02, 1] [([5, 0x82, 126, 1, 44, 9], None)] = (c, rds) \<and>
     readAll c rds = (out, c') \<and> out = [0x02, 1, 5, 0x82, 126, 1, 44, 9] \<and>
     list_all (\<lambda>s. s \<le> 16384) (message_sizes 0
       [\<lparr>f_first = 0x02, f_form = Len7, f_mask = None, f_payload = [5]\<rparr>,
        \<lparr>f_first = 0x82, f_form = Len16, f_mask = None, f_payload = replicate 300 0\<rparr>])"
proof -
  let ?f = "\<lparr>f_first = 0x02, f_form = Len7, f_mask = None, f_payload = [5]\<rparr>"
  let ?g = "\<lparr>f_first = 0x82, f_form = Len16, f_mask = None, f_payload = replicate 300 0\<rparr>"
  let ?c = "\<lparr>fl_max = maxMessageBytes, fl_hdr = [], fl_payload = 0, fl_msg = 0, fl_err = None\<rparr>"
  let ?reads = "[([5, 0x82, 126, 1, 44, 9], None)] :: (bytes \<times> tunnel_error option) list"
  have h: "hijack maxMessageBytes [2, 1] ?reads = (?c, ([2, 1], None) # ?reads)"
    by (simp add: hijack_def)
  have "inspect_bytes ?c [2, 1] = (None, ?c\<lparr>fl_payload := 1, fl_msg := 1\<rparr>)"
    "inspect_bytes (?c\<lparr>fl_payload := 1, fl_msg := 1\<rparr>) [5, 0x82, 126, 1, 44, 9] = (None, ?c\<lparr>fl_payload := 299, fl_msg := 300\<rparr>)"
    by (simp_all add: byte_step_def header_byte_def headerLen_def account_def payloadLen_def be_uint_def maxMessageBytes_def)
  then have r: "readAll ?c (([2, 1], None) # ?reads) = ([2, 1, 5, 0x82, 126, 1, 44, 9], ?c\<lparr>fl_payload := 299, fl_msg := 300\<rparr>)"
    by (simp add: readConn_def inspect_eq_inspect_bytes)
  have "[2, 1, 5, 0x82, 126, 1, 44, 9] = concat (map encode_frame [?f]) @ frame_header ?g @ [9]"
    by (simp add: encode_frame_def frame_header_def numeral_2_eq_2)
  moreover have "\<forall>f \<in> set [?f]. wf_frame f" "wf_frame ?g"
    by (simp_all add: wf_frame_def)
  ultimately have "\<forall>s \<in> set (message_sizes 0 ([?f] @ [?g])). s \<le> 16384"
    using tunnel_delivered_within_cap [OF h r] by blast
  then show ?thesis using h r by (auto simp: list_all_iff)
qed

text \<open>
  (C33) The limiter's own state is bounded and its int64 arithmetic never overflows: whatever
  the peer sends, the running message count is at most 16 KiB, at most 13 header bytes are
  held back, and the bulk-skipping loop computes what the byte-at-a-time automaton computes.
\<close>

theorem tunnel_limiter_bounded:
  assumes "hijack maxMessageBytes pending reads = (c, rds)" and "readAll c rds = (out, c')"
  shows "unat (fl_msg c') \<le> 16384 \<and> length (fl_hdr c') \<le> 13 \<and> inspect c' b = inspect_bytes c' b"
proof -
  note start = hijack_start [OF assms(1)]
  have inv: "limiter_inv c'" "fl_max c' = fl_max c"
    using readAll_inv [OF start(2) assms(2)] by auto
  have "length (fl_hdr c') \<le> 13"
    using inv(1) headerLen_bounds [of "fl_hdr c'"]
    by (auto simp: limiter_inv_def split: option.splits)
  then show ?thesis
    using inv start(5) by (simp add: limiter_inv_def word_le_nat_alt inspect_eq_inspect_bytes)
qed

theorem tunnel_limiter_bounded_witness:
  "\<exists>c rds out c'. hijack maxMessageBytes [] [([0x82, 0xff, 1], None)] = (c, rds) \<and>
     readAll c rds = (out, c') \<and> length (fl_hdr c') \<le> 13"
proof -
  let ?rds = "[([0x82, 0xff, 1], None)] :: (bytes \<times> tunnel_error option) list"
  obtain c rds where h: "hijack maxMessageBytes [] ?rds = (c, rds)"
    by (cases "hijack maxMessageBytes [] ?rds") auto
  obtain out c' where r: "readAll c rds = (out, c')"
    by (cases "readAll c rds") auto
  show ?thesis
    using h r tunnel_limiter_bounded [OF h r, of "[]"] by auto
qed

text \<open>
  (C22) The session cap under concurrency. However requests and session ends interleave, the
  counter of a node equals its live sessions, no node has more than two, the map holds
  entries for nodes with live sessions only, and a node with fewer than two is never refused.
\<close>

theorem tunnel_session_cap:
  assumes "tunnel_reach a L"
  shows "active_count a n = int (count L n) \<and> count L n \<le> 2 \<and> dom a = set_mset L \<and>
    (count L n < 2 \<longrightarrow> fst (acquire a n))"
proof -
  note slots = tunnel_reach_slots [OF assms]
  have cnt: "active_count a m = int (count L m) \<and> active_count a m \<le> 2" for m
    using sessions.reach_cnt [OF slots, of m] by (simp add: maxSessionsPerNode_def)
  have "m \<in> dom a \<longleftrightarrow> m \<in> set_mset L" for m
  proof (cases "a m")
    case None
    then have "count L m = 0"
      using cnt [of m] by (simp add: active_count_def)
    then show ?thesis
      using None by (simp add: domIff not_in_iff)
  next
    case (Some v)
    then have "0 < count L m"
      using cnt [of m] slots_positive [OF slots Some] by (simp add: active_count_def)
    then show ?thesis using Some by auto
  qed
  then show ?thesis
    using cnt [of n] sessions.reach_not_refused [OF slots, of n]
    by (auto simp: maxSessionsPerNode_def)
qed

theorem tunnel_session_cap_witness:
  "count {#''w1'', ''w1''#} ''w1'' \<le> 2 \<and>
   fst (serveStart [''w1'' \<mapsto> 2] \<lparr>tls_peers = Some [\<lparr>CommonName = ''system:node:w1'',
     Organization = [''system:nodes'']\<rparr>]\<rparr>) = TooManyRequests"
proof -
  let ?r = "\<lparr>tls_peers = Some [\<lparr>CommonName = ''system:node:w1'', Organization = [''system:nodes'']\<rparr>]\<rparr>"
  have 1: "serveStart newHandler ?r = (Inner (Some ''w1''), [''w1'' \<mapsto> 1])"
    by (simp add: newHandler_def serveStart_def authorizeNode_def cutPrefix_def hasPrefix_def acquire_def active_count_def
        maxSessionsPerNode_def)
  have 2: "serveStart [''w1'' \<mapsto> 1] ?r = (Inner (Some ''w1''), [''w1'' \<mapsto> 2])"
    by (simp add: serveStart_def authorizeNode_def cutPrefix_def hasPrefix_def acquire_def active_count_def
        maxSessionsPerNode_def)
  have "tunnel_reach [''w1'' \<mapsto> 2] {#''w1'', ''w1''#}"
    using tunnel_open [OF tunnel_open [OF tunnel_start 1] 2] .
  from tunnel_session_cap [OF this, of "''w1''"] show ?thesis
    by (simp add: serveStart_def authorizeNode_def cutPrefix_def hasPrefix_def acquire_def active_count_def
        maxSessionsPerNode_def)
qed

text \<open>
  The tunnel accepts exactly the Node authorizer's identity: a verified peer certificate
  whose common name is system:node:NAME with a non-empty name and whose organizations
  include system:nodes. In particular the two cluster-wide identities the shim issues
  (system:kube-proxy, system:rke2-controller) are refused.
\<close>

lemma authorizeNode_exact:
  "authorizeNode r = (n, True) \<longleftrightarrow>
     n \<noteq> [] \<and> (\<exists>subj rest. tls_peers r = Some (subj # rest) \<and>
       CommonName subj = ''system:node:'' @ n \<and> ''system:nodes'' \<in> set (Organization subj))"
proof (cases "\<exists>subj rest. tls_peers r = Some (subj # rest)")
  case True
  then obtain subj rest where peers: "tls_peers r = Some (subj # rest)" by blast
  obtain node isNode where cut: "cutPrefix (CommonName subj) ''system:node:'' = (node, isNode)"
    by (cases "cutPrefix (CommonName subj) ''system:node:''") auto
  then have "isNode \<longleftrightarrow> CommonName subj = ''system:node:'' @ node"
    by (cases isNode) (auto simp: cutPrefix_True cutPrefix_False hasPrefix_iff)
  then show ?thesis
    using peers cut cutPrefix_True [of "CommonName subj" "''system:node:''" n]
    by (auto simp: authorizeNode_def Let_def)
next
  case False
  then show ?thesis
    by (auto simp: authorizeNode_def split: option.splits list.splits)
qed

text \<open>
  (C21) The bulk loop of inspect is equivalent to the automaton that looks at one byte at a time,
  and so inspecting a stream in two reads is inspecting it in one: where the reads are cut has no
  influence on the verdict nor on the state the limiter is left in.
\<close>

theorem inspect_equivalent:
  "inspect c b = inspect_bytes c b \<and>
   inspect c (xs @ ys) = (case inspect c xs of (Some e, c') \<Rightarrow> (Some e, c') | (None, c') \<Rightarrow> inspect c' ys)"
  by (simp add: inspect_eq_inspect_bytes inspect_bytes_append split: prod.splits option.splits)

end
