(* ===== verification/Go_Encoding.thy ===== *)
theory Go_Encoding
  imports Go_Strings
begin

text \<open>
  The textual encodings of Go's standard library that the program uses: decimal (strconv,
  fmt \<open>%d\<close>), lower-case hexadecimal (fmt \<open>%x\<close>, encoding/hex) and base64 in the standard
  alphabet, raw (RawStdEncoding) and padded (StdEncoding), with their round trips.
\<close>

section \<open>Decimal\<close>

definition is_digit :: "char \<Rightarrow> bool" where
  "is_digit c \<longleftrightarrow> 48 \<le> (of_char c :: nat) \<and> (of_char c :: nat) \<le> 57"

definition digit_value :: "char \<Rightarrow> nat" where
  "digit_value c = of_char c - 48"

definition digit_char :: "nat \<Rightarrow> char" where
  "digit_char d = char_of (48 + d)"

fun dec_of_nat :: "nat \<Rightarrow> string" where
  "dec_of_nat n = (if n < 10 then [digit_char n] else dec_of_nat (n div 10) @ [digit_char (n mod 10)])"

declare dec_of_nat.simps [simp del]

definition dec_value :: "string \<Rightarrow> nat" where
  "dec_value s = foldl (\<lambda>acc c. acc * 10 + digit_value c) 0 s"

text \<open>strconv.Itoa\<close>

definition itoa :: "int \<Rightarrow> string" where
  "itoa i = (if i < 0 then CHR ''-'' # dec_of_nat (nat (- i)) else dec_of_nat (nat i))"

lemma of_char_char_of: "n < 256 \<Longrightarrow> (of_char (char_of n) :: nat) = n"
  by simp

lemma digit_char_props: "d < 10 \<Longrightarrow> is_digit (digit_char d) \<and> digit_value (digit_char d) = d"
  by (simp add: is_digit_def digit_value_def digit_char_def)

lemma digit_char_value: "is_digit c \<Longrightarrow> digit_value c < 10 \<and> digit_char (digit_value c) = c"
  by (auto simp: is_digit_def digit_value_def digit_char_def)

lemma dec_of_nat_not_Nil [simp]: "dec_of_nat n \<noteq> []"
  by (subst dec_of_nat.simps) simp

lemma dec_of_nat_digits: "c \<in> set (dec_of_nat n) \<Longrightarrow> is_digit c"
proof (induction n rule: dec_of_nat.induct)
  case (1 n)
  show ?case
  proof (cases "n < 10")
    case True
    then show ?thesis
      using 1(2) by (subst (asm) dec_of_nat.simps) (simp add: digit_char_props)
  next
    case False
    then show ?thesis
      using 1 by (subst (asm) (2) dec_of_nat.simps) (auto simp: digit_char_props)
  qed
qed

lemma dec_value_snoc: "dec_value (s @ [c]) = dec_value s * 10 + digit_value c"
  by (simp add: dec_value_def)

lemma dec_value_dec_of_nat [simp]: "dec_value (dec_of_nat n) = n"
proof (induction n rule: dec_of_nat.induct)
  case (1 n)
  show ?case
  proof (cases "n < 10")
    case True
    then show ?thesis by (subst dec_of_nat.simps) (simp add: dec_value_def digit_char_props)
  next
    case False
    then show ?thesis
      using 1 by (subst dec_of_nat.simps) (simp add: dec_value_snoc digit_char_props)
  qed
qed

lemma hd_dec_of_nat: "10 \<le> n \<Longrightarrow> hd (dec_of_nat n) \<noteq> CHR ''0''"
proof (induction n rule: dec_of_nat.induct)
  case (1 n)
  have "hd (dec_of_nat n) = hd (dec_of_nat (n div 10))"
    using 1(2) by (subst dec_of_nat.simps) simp
  moreover have "hd (dec_of_nat (n div 10)) \<noteq> CHR ''0''"
  proof (cases "n div 10 < 10")
    case True
    have "digit_char (n div 10) \<noteq> CHR ''0''"
    proof
      assume "digit_char (n div 10) = CHR ''0''"
      then have "digit_value (digit_char (n div 10)) = 0"
        by (simp add: digit_value_def)
      then show False
        using True 1(2) digit_char_props [of "n div 10"] by simp
    qed
    then show ?thesis using True by (subst dec_of_nat.simps) simp
  next
    case False
    then show ?thesis using 1 by simp
  qed
  ultimately show ?case by simp
qed

lemma length_dec_of_nat: "n < 10 ^ k \<Longrightarrow> 0 < k \<Longrightarrow> length (dec_of_nat n) \<le> k"
proof (induction k arbitrary: n)
  case 0
  then show ?case by simp
next
  case (Suc k)
  show ?case
  proof (cases "n < 10")
    case True
    then show ?thesis by (subst dec_of_nat.simps) simp
  next
    case False
    then have "0 < k"
      using Suc.prems by (cases k) auto
    moreover have "n div 10 < 10 ^ k"
      using Suc.prems(1) by (simp add: less_mult_imp_div_less mult.commute)
    ultimately show ?thesis
      using Suc.IH [of "n div 10"] False by (subst dec_of_nat.simps) simp
  qed
qed

lemma length_dec_of_nat_small: "n < 10 \<Longrightarrow> length (dec_of_nat n) = 1"
  by (subst dec_of_nat.simps) simp

lemma dec_of_nat_all_digits: "list_all is_digit (dec_of_nat n)"
  using dec_of_nat_digits by (auto simp: list_all_iff)

lemma hd_dec_of_nat_pos:
  assumes "0 < n" shows "hd (dec_of_nat n) \<noteq> CHR ''0''"
proof (cases "10 \<le> n")
  case False
  then have "dec_of_nat n = [digit_char n]" by (subst dec_of_nat.simps) simp
  moreover have "digit_value (digit_char n) = n" using False by (simp add: digit_char_props)
  ultimately show ?thesis using assms by (auto simp: digit_value_def)
qed (rule hd_dec_of_nat)

lemma dec_value_append: "dec_value (a @ b) = dec_value a * 10 ^ length b + dec_value b"
proof (induction b rule: rev_induct)
  case (snoc c b)
  then show ?case using dec_value_snoc [of "a @ b" c] dec_value_snoc [of b c] by (simp add: algebra_simps)
qed (simp add: dec_value_def)

lemma dec_value_zeros_only: "dec_value (replicate k (CHR ''0'')) = 0"
  by (induction k) (simp_all add: dec_value_def digit_value_def)

section \<open>Hexadecimal\<close>

definition hex_char :: "nat \<Rightarrow> char" where
  "hex_char d = char_of ((if d < 10 then 48 else 87) + d)"

text \<open>Value of a hexadecimal digit in either case.\<close>

definition hex_value :: "char \<Rightarrow> nat option" where
  "hex_value c =
     (let n = of_char c in
      if 48 \<le> n \<and> n \<le> 57 then Some (n - 48)
      else if 97 \<le> n \<and> n \<le> 102 then Some (n - 87)
      else if 65 \<le> n \<and> n \<le> 70 then Some (n - 55)
      else None)"

definition hex_of_byte :: "char \<Rightarrow> string" where
  "hex_of_byte c = [hex_char (of_char c div 16), hex_char (of_char c mod 16)]"

definition hex_encode :: "string \<Rightarrow> string" where
  "hex_encode s = concat (map hex_of_byte s)"

lemma hex_value_hex_char [simp]: "d < 16 \<Longrightarrow> hex_value (hex_char d) = Some d"
  by (simp add: hex_value_def hex_char_def Let_def)

lemma hex_value_bound: "hex_value c = Some d \<Longrightarrow> d < 16"
  by (auto simp: hex_value_def Let_def split: if_splits)

lemma of_char_bound: "(of_char c :: nat) < 256"
  by (cases c) (simp add: of_char_def)

lemma of_char_div_16 [simp]: "of_char c div 16 < (16 :: nat)"
  by (rule less_mult_imp_div_less) (simp add: of_char_bound)

section \<open>Base64\<close>

definition b64_char :: "nat \<Rightarrow> char" where
  "b64_char d =
     char_of (if d < 26 then 65 + d else if d < 52 then 71 + d
       else if d < 62 then d - 4 else if d = 62 then 43 else 47)"

definition b64_value :: "char \<Rightarrow> nat option" where
  "b64_value c =
     (let n = of_char c in
      if 65 \<le> n \<and> n \<le> 90 then Some (n - 65)
      else if 97 \<le> n \<and> n \<le> 122 then Some (n - 71)
      else if 48 \<le> n \<and> n \<le> 57 then Some (n + 4)
      else if n = 43 then Some 62 else if n = 47 then Some 63 else None)"

text \<open>Bytes to sextets and back. Trailing bits of a short last group are ignored on decoding.\<close>

fun to_sextets :: "nat list \<Rightarrow> nat list" where
  "to_sextets [] = []"
| "to_sextets [a] = [a div 4, (a mod 4) * 16]"
| "to_sextets [a, b] = [a div 4, (a mod 4) * 16 + b div 16, (b mod 16) * 4]"
| "to_sextets (a # b # c # r) =
     [a div 4, (a mod 4) * 16 + b div 16, (b mod 16) * 4 + c div 64, c mod 64] @ to_sextets r"

fun of_sextets :: "nat list \<Rightarrow> nat list option" where
  "of_sextets [] = Some []"
| "of_sextets [a] = None"
| "of_sextets [a, b] = Some [a * 4 + b div 16]"
| "of_sextets [a, b, c] = Some [a * 4 + b div 16, (b mod 16) * 16 + c div 4]"
| "of_sextets (a # b # c # d # r) =
     map_option ((@) [a * 4 + b div 16, (b mod 16) * 16 + c div 4, (c mod 4) * 64 + d]) (of_sextets r)"

definition b64_raw_encode :: "string \<Rightarrow> string" where
  "b64_raw_encode s = map b64_char (to_sextets (map of_char s))"

text \<open>The decoder skips carriage returns and newlines anywhere.\<close>

definition strip_newlines :: "string \<Rightarrow> string" where
  "strip_newlines s = filter (\<lambda>c. c \<noteq> CHR 0x0A \<and> c \<noteq> CHR 0x0D) s"

definition b64_decode_chars :: "string \<Rightarrow> string option" where
  "b64_decode_chars s =
     (case those (map b64_value s) of
        None \<Rightarrow> None
      | Some ds \<Rightarrow> map_option (map char_of) (of_sextets ds))"

definition b64_raw_decode :: "string \<Rightarrow> string option" where
  "b64_raw_decode s = b64_decode_chars (strip_newlines s)"

definition b64_pad :: "string \<Rightarrow> string" where
  "b64_pad s = (let m = length s mod 3 in if m = 0 then [] else if m = 1 then ''=='' else ''='')"

definition b64_std_encode :: "string \<Rightarrow> string" where
  "b64_std_encode s = b64_raw_encode s @ b64_pad s"

definition b64_std_decode :: "string \<Rightarrow> string option" where
  "b64_std_decode s =
     (let t = strip_newlines s in
      if length t mod 4 \<noteq> 0 then None
      else if hasSuffix t ''=='' then b64_decode_chars (trimSuffix t ''=='')
      else if hasSuffix t ''='' then b64_decode_chars (trimSuffix t ''='')
      else b64_decode_chars t)"

lemma b64_value_b64_char [simp]: "d < 64 \<Longrightarrow> b64_value (b64_char d) = Some d"
  by (auto simp: b64_value_def b64_char_def Let_def)

lemma to_sextets_bound: "\<forall>n \<in> set ns. n < 256 \<Longrightarrow> \<forall>d \<in> set (to_sextets ns). d < 64"
  by (induction ns rule: to_sextets.induct) auto

lemma of_sextets_to_sextets: "\<forall>n \<in> set ns. n < 256 \<Longrightarrow> of_sextets (to_sextets ns) = Some ns"
proof (induction ns rule: to_sextets.induct)
  case (4 a b c r)
  have "a div 4 * 4 + (a mod 4 * 16 + b div 16) div 16 = a"
    "(a mod 4 * 16 + b div 16) mod 16 * 16 + (b mod 16 * 4 + c div 64) div 4 = b"
    "(b mod 16 * 4 + c div 64) mod 4 * 64 + c mod 64 = c"
    using 4(2) by auto
  then show ?case using 4 by simp
qed auto

lemma those_map_Some: "\<forall>x \<in> set xs. f x = Some (g x) \<Longrightarrow> those (map f xs) = Some (map g xs)"
  by (induction xs) auto

lemma b64_decode_chars_encode: "b64_decode_chars (b64_raw_encode s) = Some s"
proof -
  let ?ns = "map of_char s :: nat list"
  have ns: "\<forall>n \<in> set ?ns. n < 256"
    using of_char_bound by auto
  have "those (map b64_value (b64_raw_encode s)) = Some (map id (to_sextets ?ns))"
    unfolding b64_raw_encode_def map_map
    using to_sextets_bound [OF ns] by (intro those_map_Some) auto
  then show ?thesis
    using of_sextets_to_sextets [OF ns] by (simp add: b64_decode_chars_def comp_def)
qed

lemma b64_value_char_facts:
  "b64_value c \<noteq> None \<Longrightarrow> c \<noteq> CHR 0x0A \<and> c \<noteq> CHR 0x0D \<and> c \<noteq> CHR ''=''"
  by (auto simp: b64_value_def)

lemma b64_raw_encode_value: "c \<in> set (b64_raw_encode s) \<Longrightarrow> b64_value c \<noteq> None"
proof -
  have "\<forall>d \<in> set (to_sextets (map of_char s)). d < 64"
    using of_char_bound by (intro to_sextets_bound) auto
  moreover assume "c \<in> set (b64_raw_encode s)"
  ultimately show ?thesis by (auto simp: b64_raw_encode_def)
qed

lemmas b64_raw_encode_chars = b64_raw_encode_value [THEN b64_value_char_facts]

lemma strip_newlines_raw: "strip_newlines (b64_raw_encode s) = b64_raw_encode s"
  using b64_raw_encode_chars [of _ s] by (auto simp: strip_newlines_def filter_id_conv)

lemma b64_raw_roundtrip: "b64_raw_decode (b64_raw_encode s) = Some s"
  by (simp add: b64_raw_decode_def strip_newlines_raw b64_decode_chars_encode)

lemma length_to_sextets: "length (to_sextets ns) = (length ns * 4 + 2) div 3"
  by (induction ns rule: to_sextets.induct) auto

lemma length_b64_raw_encode: "length (b64_raw_encode s) = (length s * 4 + 2) div 3"
  by (simp add: b64_raw_encode_def length_to_sextets)

lemma not_hasSuffix_pad: "p \<noteq> [] \<Longrightarrow> last p = CHR ''='' \<Longrightarrow> \<not> hasSuffix (b64_raw_encode s) p"
  using b64_raw_encode_chars [of "CHR ''=''" s] unfolding hasSuffix_iff
  by (metis UnCI last_in_set set_append)

lemma b64_std_length: "length (b64_std_encode s) mod 4 = 0"
proof -
  define k where "k = length s div 3"
  have s: "length s = 3 * k + length s mod 3"
    by (simp add: k_def)
  consider "length s mod 3 = 0" | "length s mod 3 = 1" | "length s mod 3 = 2"
    by linarith
  then show ?thesis
  proof cases
    case 1
    then have "length (b64_pad s) = 0" "length s = 3 * k"
      using s by (simp_all add: b64_pad_def)
    then show ?thesis
      unfolding b64_std_encode_def length_append length_b64_raw_encode by presburger
  next
    case 2
    then have "length (b64_pad s) = 2" "length s = 3 * k + 1"
      using s by (simp_all add: b64_pad_def)
    then show ?thesis
      unfolding b64_std_encode_def length_append length_b64_raw_encode by presburger
  next
    case 3
    then have "length (b64_pad s) = 1" "length s = 3 * k + 2"
      using s by (simp_all add: b64_pad_def)
    then show ?thesis
      unfolding b64_std_encode_def length_append length_b64_raw_encode by presburger
  qed
qed

lemma b64_std_roundtrip: "b64_std_decode (b64_std_encode s) = Some s"
proof -
  let ?r = "b64_raw_encode s"
  have strip: "strip_newlines (b64_std_encode s) = b64_std_encode s"
    using strip_newlines_raw by (auto simp: strip_newlines_def b64_std_encode_def b64_pad_def Let_def)
  have one: "\<not> hasSuffix (?r @ ''='') ''==''"
    using b64_raw_encode_chars [of "CHR ''=''" s] by (auto simp: hasSuffix_iff dest: sym [of ?r])
  have "b64_std_decode (b64_std_encode s) = b64_decode_chars ?r"
    unfolding b64_std_decode_def strip Let_def
    using b64_std_length [of s] one not_hasSuffix_pad [of "''=''" s] not_hasSuffix_pad [of "''==''" s]
      trimSuffix_append [of ?r]
    by (auto simp: b64_std_encode_def b64_pad_def Let_def hasSuffix_iff)
  then show ?thesis by (simp add: b64_decode_chars_encode)
qed

section \<open>Padded decimals\<close>

text \<open>fmt's \<open>%0<w>d\<close> of a non-negative number.\<close>

definition dec_padded :: "nat \<Rightarrow> nat \<Rightarrow> string" where
  "dec_padded w n = replicate (w - length (dec_of_nat n)) (CHR ''0'') @ dec_of_nat n"

lemma dec_value_zeros: "dec_value (replicate k (CHR ''0'') @ s) = dec_value s"
  by (induction k) (simp_all add: dec_value_def digit_value_def)

lemma dec_padded_value [simp]: "dec_value (dec_padded w n) = n"
  by (simp add: dec_padded_def dec_value_zeros)

lemma dec_padded_inj: "dec_padded w n = dec_padded w m \<longleftrightarrow> n = m"
  using dec_padded_value by metis

end
