(* ===== verification/Scrypt.thy ===== *)
theory Scrypt
  imports Go_Encoding Slots
begin

text \<open>
  Model of src/internal/nodepassword/scrypt.go: the node-password hash. The scrypt function
  itself (golang.org/x/crypto) is a parameter \<open>key\<close> of every definition that calls it; the
  random salt and the outcome of waiting for a slot are arguments; theory Scrypt_Runs follows the
  slots through any number of calls at once. Sscanf and Sprintf are
  modelled on the one format string the code uses.
\<close>

section \<open>Constants and errors\<close>

definition hash_version :: nat where "hash_version = 1"
definition paramN :: nat where "paramN = 15"
definition paramR :: int where "paramR = 8"
definition paramP :: int where "paramP = 1"
definition paramKeyLen :: nat where "paramKeyLen = 64"
definition paramSaltLen :: nat where "paramSaltLen = 8"
definition maxParamN :: nat where "maxParamN = 16"
definition maxParamR :: int where "maxParamR = 16"
definition maxParamP :: int where "maxParamP = 4"
definition minKeyLen :: nat where "minKeyLen = 32"
definition maxKeyLen :: nat where "maxKeyLen = 1024"
definition minPassword :: nat where "minPassword = 8"
definition maxPassword :: nat where "maxPassword = 256"
definition slotsPerProc :: nat where "slotsPerProc = 2"

lemmas scrypt_consts = hash_version_def paramN_def paramR_def paramP_def paramKeyLen_def
  paramSaltLen_def maxParamN_def maxParamR_def maxParamP_def minKeyLen_def maxKeyLen_def
  minPassword_def maxPassword_def slotsPerProc_def

datatype pw_error =
    ErrMismatch
  | ErrMalformedHash
  | UnsupportedVersion nat
  | ErrPasswordLength nat
  | ErrContext string
  | ErrScrypt string
  | ErrRand string

text \<open>scrypt.Key: password, salt, N, r, p, key length; an error or the derived key.\<close>

type_synonym scrypt_fun = "string \<Rightarrow> string \<Rightarrow> nat \<Rightarrow> int \<Rightarrow> int \<Rightarrow> nat \<Rightarrow> (string, string) result"

section \<open>Slots\<close>

text \<open>
  The channel scryptSlots with capacity slotsPerProc * GOMAXPROCS: a send succeeds while the
  buffer has room, a receive frees a place. The select of runScrypt either sends or sees the
  context end; which happened is the argument \<open>slot_wait\<close>.
\<close>

definition slotAcquire :: "nat \<Rightarrow> int \<Rightarrow> unit \<Rightarrow> bool \<times> int" where
  "slotAcquire procs used _ =
     (if used < int (slotsPerProc * procs) then (True, used + 1) else (False, used))"

definition slotRelease :: "int \<Rightarrow> unit \<Rightarrow> int" where
  "slotRelease used _ = used - 1"

datatype slot_wait = SlotFree | CtxDone string

definition runScrypt :: "scrypt_fun \<Rightarrow> slot_wait \<Rightarrow> string \<Rightarrow> string \<Rightarrow> nat \<Rightarrow> int \<Rightarrow> int \<Rightarrow> nat
    \<Rightarrow> (pw_error, string) result" where
  "runScrypt key w password salt n r p keyLen =
     (case w of
        CtxDone e \<Rightarrow> Inl (ErrContext e)
      | SlotFree \<Rightarrow>
          (case key password salt n r p keyLen of
             Inl e \<Rightarrow> Inl (ErrScrypt e)
           | Inr dk \<Rightarrow> Inr dk))"

section \<open>Password bounds\<close>

definition ValidatePassword :: "string \<Rightarrow> pw_error option" where
  "ValidatePassword password =
     (if length password < minPassword \<or> length password > maxPassword
      then Some (ErrPasswordLength (length password)) else None)"

section \<open>The hash format\<close>

record hash_fields =
  hf_ver :: nat
  hf_salt :: string
  hf_n :: nat
  hf_r :: int
  hf_p :: int
  hf_enc :: string

text \<open>Sprintf(hashFormat, ver, salt, n, r, p, enc).\<close>

definition formatHash :: "hash_fields \<Rightarrow> string" where
  "formatHash h =
     ''$'' @ dec_of_nat (hf_ver h) @ '':'' @ hex_encode (hf_salt h) @ '':'' @ dec_of_nat (hf_n h) @
     '':'' @ itoa (hf_r h) @ '':'' @ itoa (hf_p h) @ '':'' @ hf_enc h"

text \<open>
  Sscanf(hash, hashFormat, ...). Each scanner takes the rest of the input and returns its
  value with what is left, or \<open>None\<close> where Sscanf reports an error. Before every verb the
  scanner skips spaces, but a newline is an error.
\<close>

type_synonym 'a scanner = "string \<Rightarrow> ('a \<times> string) option"

definition scan_lit :: "char \<Rightarrow> unit scanner" where
  "scan_lit c s = (case s of [] \<Rightarrow> None | x # r \<Rightarrow> if x = c then Some ((), r) else None)"

function skip_space :: "string \<Rightarrow> string option" where
  "skip_space s =
     (if s = [] then Some []
      else if hd s = CHR 0x0A then None
      else let n = space_len space_runes s in if n = 0 then Some s else skip_space (drop n s))"
  by pat_completeness auto
termination
  by (relation "measure length") auto

declare skip_space.simps [simp del]

definition scan_uint :: "nat scanner" where
  "scan_uint s =
     (case skip_space s of
        None \<Rightarrow> None
      | Some t \<Rightarrow>
          (let ds = takeWhile is_digit t in
           if ds = [] \<or> dec_value ds \<ge> 2 ^ 64 then None
           else Some (dec_value ds, dropWhile is_digit t)))"

definition scan_int :: "int scanner" where
  "scan_int s =
     (case skip_space s of
        None \<Rightarrow> None
      | Some t \<Rightarrow>
          (let neg = hasPrefix t ''-'';
               u = (if neg \<or> hasPrefix t ''+'' then drop 1 t else t);
               ds = takeWhile is_digit u;
               v = (if neg then - int (dec_value ds) else int (dec_value ds)) in
           if ds = [] \<or> v < - (2 ^ 63) \<or> v \<ge> 2 ^ 63 then None
           else Some (v, dropWhile is_digit u)))"

fun hex_bytes :: "string scanner" where
  "hex_bytes [] = Some ([], [])"
| "hex_bytes [c] = (case hex_value c of None \<Rightarrow> Some ([], [c]) | Some _ \<Rightarrow> None)"
| "hex_bytes (c # d # r) =
     (case hex_value c of
        None \<Rightarrow> Some ([], c # d # r)
      | Some a \<Rightarrow>
          (case hex_value d of
             None \<Rightarrow> None
           | Some b \<Rightarrow> map_option (\<lambda>(x, y). (char_of (a * 16 + b) # x, y)) (hex_bytes r)))"

definition scan_hex :: "string scanner" where
  "scan_hex s =
     (case skip_space s of
        None \<Rightarrow> None
      | Some t \<Rightarrow>
          (case hex_bytes t of
             None \<Rightarrow> None
           | Some (b, r) \<Rightarrow> if b = [] then None else Some (b, r)))"

text \<open>A %s operand: everything up to the next space rune.\<close>

fun take_word :: "string \<Rightarrow> string" where
  "take_word [] = []"
| "take_word (c # s) = (if space_len space_runes (c # s) > 0 then [] else c # take_word s)"

definition scan_word :: "string scanner" where
  "scan_word s =
     (case skip_space s of
        None \<Rightarrow> None
      | Some t \<Rightarrow> if t = [] then None else Some (take_word t, drop (length (take_word t)) t))"

definition scanHash :: "string \<Rightarrow> hash_fields option" where
  "scanHash s0 =
     Option.bind (scan_lit (CHR ''$'') s0) (\<lambda>(_, s).
     Option.bind (scan_uint s) (\<lambda>(ver, s).
     Option.bind (scan_lit (CHR '':'') s) (\<lambda>(_, s).
     Option.bind (scan_hex s) (\<lambda>(salt, s).
     Option.bind (scan_lit (CHR '':'') s) (\<lambda>(_, s).
     Option.bind (scan_uint s) (\<lambda>(n, s).
     Option.bind (scan_lit (CHR '':'') s) (\<lambda>(_, s).
     Option.bind (scan_int s) (\<lambda>(r, s).
     Option.bind (scan_lit (CHR '':'') s) (\<lambda>(_, s).
     Option.bind (scan_int s) (\<lambda>(p, s).
     Option.bind (scan_lit (CHR '':'') s) (\<lambda>(_, s).
     Option.bind (scan_word s) (\<lambda>(enc, s).
       Some \<lparr>hf_ver = ver, hf_salt = salt, hf_n = n, hf_r = r, hf_p = p, hf_enc = enc\<rparr>))))))))))))"

section \<open>createHash and verifyHash\<close>

definition createHash :: "scrypt_fun \<Rightarrow> slot_wait \<Rightarrow> (string, string) result \<Rightarrow> string
    \<Rightarrow> (pw_error, string) result" where
  "createHash key w salt secret =
     (case salt of
        Inl e \<Rightarrow> Inl (ErrRand e)
      | Inr sa \<Rightarrow>
          (case runScrypt key w secret sa (2 ^ paramN) paramR paramP paramKeyLen of
             Inl e \<Rightarrow> Inl e
           | Inr dk \<Rightarrow> Inr (formatHash \<lparr>hf_ver = hash_version, hf_salt = sa, hf_n = paramN,
               hf_r = paramR, hf_p = paramP, hf_enc = b64_raw_encode dk\<rparr>)))"

text \<open>The checks of verifyHash before it runs scrypt: the fields and the stored key, or an error.\<close>

definition checkHash :: "string \<Rightarrow> (pw_error, hash_fields \<times> string) result" where
  "checkHash hash =
     (case scanHash hash of
        None \<Rightarrow> Inl ErrMalformedHash
      | Some h \<Rightarrow>
          if hf_ver h \<noteq> hash_version then Inl (UnsupportedVersion (hf_ver h))
          else if formatHash h \<noteq> hash then Inl ErrMalformedHash
          else (case b64_raw_decode (hf_enc h) of
                  None \<Rightarrow> Inl ErrMalformedHash
                | Some dk \<Rightarrow>
                    if hf_n h < 1 \<or> hf_n h > maxParamN then Inl ErrMalformedHash
                    else if hf_r h < 1 \<or> hf_r h > maxParamR then Inl ErrMalformedHash
                    else if hf_p h < 1 \<or> hf_p h > maxParamP then Inl ErrMalformedHash
                    else if length dk < minKeyLen \<or> length dk > maxKeyLen then Inl ErrMalformedHash
                    else Inr (h, dk)))"

definition verifyHash :: "scrypt_fun \<Rightarrow> slot_wait \<Rightarrow> string \<Rightarrow> string \<Rightarrow> pw_error option" where
  "verifyHash key w hash secret =
     (case checkHash hash of
        Inl e \<Rightarrow> Some e
      | Inr (h, dk) \<Rightarrow>
          (case runScrypt key w secret (hf_salt h) (2 ^ hf_n h) (hf_r h) (hf_p h) (length dk) of
             Inl e \<Rightarrow> Some e
           | Inr want \<Rightarrow> if dk \<noteq> want then Some ErrMismatch else None))"

text \<open>The exported variants run with a context that never ends.\<close>

definition CreateHash :: "scrypt_fun \<Rightarrow> (string, string) result \<Rightarrow> string \<Rightarrow> (pw_error, string) result" where
  "CreateHash key salt secret = createHash key SlotFree salt secret"

definition VerifyHash :: "scrypt_fun \<Rightarrow> string \<Rightarrow> string \<Rightarrow> pw_error option" where
  "VerifyHash key hash secret = verifyHash key SlotFree hash secret"

section \<open>Scanning what was printed\<close>

definition plain :: "char \<Rightarrow> bool" where
  "plain c \<longleftrightarrow> \<not> List.member (map hd space_runes) c"

lemma plain_space_len: "s = [] \<or> plain (hd s) \<Longrightarrow> space_len space_runes s = 0"
  by (rule space_len_Nil_rune) (auto simp: plain_def space_runes_def)

lemma skip_space_plain: "s = [] \<or> plain (hd s) \<Longrightarrow> skip_space s = Some s"
  using plain_space_len [of s] by (subst skip_space.simps) (auto simp: plain_def space_runes_def)

lemma take_word_plain: "\<forall>c \<in> set s. plain c \<Longrightarrow> take_word s = s"
  by (induction s) (auto simp: plain_space_len)

lemma plain_codeI:
  "(of_char c :: nat) \<notin> {0x09, 0x0A, 0x0B, 0x0C, 0x0D, 0x20, 0xC2, 0xE1, 0xE2, 0xE3} \<Longrightarrow> plain c"
  by (auto simp: plain_def space_runes_def)

lemma digit_plain: "is_digit c \<Longrightarrow> plain c"
  by (rule plain_codeI) (auto simp: is_digit_def)

lemma hex_plain: "hex_value c \<noteq> None \<Longrightarrow> plain c"
  by (rule plain_codeI) (auto simp: hex_value_def)

lemma b64_plain: "b64_value c \<noteq> None \<Longrightarrow> plain c"
  by (rule plain_codeI) (auto simp: b64_value_def)

lemma digits_append:
  assumes "rest = [] \<or> \<not> is_digit (hd rest)"
  shows "takeWhile is_digit (dec_of_nat n @ rest) = dec_of_nat n"
    and "dropWhile is_digit (dec_of_nat n @ rest) = rest"
  using assms dec_of_nat_digits [of _ n]
  by (auto simp: takeWhile_append2 dropWhile_append2 takeWhile_eq_Nil_iff dropWhile_eq_self_iff)

lemma hd_dec_digit: "is_digit (hd (dec_of_nat n @ rest))"
  using dec_of_nat_digits [of "hd (dec_of_nat n)" n] by simp

lemma scan_uint_dec:
  assumes "n < 2 ^ 64" "rest = [] \<or> \<not> is_digit (hd rest)"
  shows "scan_uint (dec_of_nat n @ rest) = Some (n, rest)"
  using assms(1) digits_append [OF assms(2), of n] hd_dec_digit [of n rest]
  by (simp add: scan_uint_def skip_space_plain digit_plain)

lemma scan_int_itoa:
  assumes "- (2 ^ 63) \<le> i" "i < 2 ^ 63" "rest = [] \<or> \<not> is_digit (hd rest)"
  shows "scan_int (itoa i @ rest) = Some (i, rest)"
proof (cases "i < 0")
  case True
  have "plain (CHR ''-'')" by (simp add: plain_def space_runes_def)
  then show ?thesis
    using True assms(1) digits_append [OF assms(3), of "nat (- i)"]
    by (simp add: scan_int_def itoa_def skip_space_plain hasPrefix_def Let_def)
next
  case False
  let ?t = "dec_of_nat (nat i) @ rest"
  have hd: "is_digit (hd ?t)" by (rule hd_dec_digit)
  then have "\<not> hasPrefix ?t ''-''" "\<not> hasPrefix ?t ''+''"
    by (cases ?t; auto simp: hasPrefix_def is_digit_def)+
  then show ?thesis
    using False assms(2) digits_append [OF assms(3), of "nat i"] hd
    by (simp add: scan_int_def itoa_def skip_space_plain digit_plain Let_def)
qed

lemma hex_bytes_stop: "rest = [] \<or> hex_value (hd rest) = None \<Longrightarrow> hex_bytes rest = Some ([], rest)"
  by (cases rest rule: hex_bytes.cases) auto

lemma hex_bytes_encode:
  assumes "rest = [] \<or> hex_value (hd rest) = None"
  shows "hex_bytes (hex_encode s @ rest) = Some (s, rest)"
proof (induction s)
  case Nil
  then show ?case using hex_bytes_stop [OF assms] by (simp add: hex_encode_def)
next
  case (Cons c s)
  have "of_char c div 16 * 16 + of_char c mod 16 = (of_char c :: nat)"
    by simp
  then show ?case
    using Cons.IH by (simp add: hex_encode_def hex_of_byte_def)
qed

lemma scan_hex_encode:
  assumes "s \<noteq> []" "rest = [] \<or> hex_value (hd rest) = None"
  shows "scan_hex (hex_encode s @ rest) = Some (s, rest)"
proof -
  obtain c s' where "s = c # s'" using assms(1) by (cases s) auto
  then have "hex_value (hd (hex_encode s @ rest)) \<noteq> None"
    by (simp add: hex_encode_def hex_of_byte_def)
  then have "skip_space (hex_encode s @ rest) = Some (hex_encode s @ rest)"
    by (intro skip_space_plain disjI2 hex_plain)
  then show ?thesis
    using hex_bytes_encode [OF assms(2), of s] assms(1) by (simp add: scan_hex_def)
qed

lemma scan_word_plain: "s \<noteq> [] \<Longrightarrow> \<forall>c \<in> set s. plain c \<Longrightarrow> scan_word s = Some (s, [])"
  by (simp add: scan_word_def skip_space_plain take_word_plain)

lemma scan_lit_match [simp]: "scan_lit c (c # s) = Some ((), s)"
  by (simp add: scan_lit_def)

definition wf_fields :: "hash_fields \<Rightarrow> bool" where
  "wf_fields h \<longleftrightarrow> hf_ver h < 2 ^ 64 \<and> hf_n h < 2 ^ 64 \<and> hf_salt h \<noteq> [] \<and>
     - (2 ^ 63) \<le> hf_r h \<and> hf_r h < 2 ^ 63 \<and> - (2 ^ 63) \<le> hf_p h \<and> hf_p h < 2 ^ 63 \<and>
     hf_enc h \<noteq> [] \<and> list_all plain (hf_enc h)"

lemma scanHash_formatHash:
  assumes "wf_fields h"
  shows "scanHash (formatHash h) = Some h"
proof -
  have colon: "\<not> is_digit (CHR '':'')" "hex_value (CHR '':'') = None"
    by (simp_all add: is_digit_def hex_value_def)
  have "scan_uint (dec_of_nat (hf_ver h) @ CHR '':'' # x) = Some (hf_ver h, CHR '':'' # x)"
    "scan_uint (dec_of_nat (hf_n h) @ CHR '':'' # x) = Some (hf_n h, CHR '':'' # x)"
    "scan_int (itoa (hf_r h) @ CHR '':'' # x) = Some (hf_r h, CHR '':'' # x)"
    "scan_int (itoa (hf_p h) @ CHR '':'' # x) = Some (hf_p h, CHR '':'' # x)"
    "scan_hex (hex_encode (hf_salt h) @ CHR '':'' # x) = Some (hf_salt h, CHR '':'' # x)"
    "scan_word (hf_enc h) = Some (hf_enc h, [])" for x
    using assms colon
    by (auto simp: wf_fields_def list_all_iff
        intro!: scan_uint_dec scan_int_itoa scan_hex_encode scan_word_plain)
  then show ?thesis
    by (simp add: scanHash_def formatHash_def)
qed

section \<open>What verification accepts\<close>

lemma checkHash_Inr:
  assumes "checkHash hash = Inr (h, dk)"
  shows "scanHash hash = Some h" "hf_ver h = 1" "formatHash h = hash" "b64_raw_decode (hf_enc h) = Some dk"
    "1 \<le> hf_n h" "hf_n h \<le> 16" "1 \<le> hf_r h" "hf_r h \<le> 16" "1 \<le> hf_p h" "hf_p h \<le> 4"
    "32 \<le> length dk" "length dk \<le> 1024"
  using assms
  by (auto simp: checkHash_def scrypt_consts not_less split: option.splits if_splits)

lemma verifyHash_None_iff:
  "verifyHash key w hash secret = None \<longleftrightarrow>
     (\<exists>h dk. checkHash hash = Inr (h, dk) \<and> w = SlotFree \<and>
        key secret (hf_salt h) (2 ^ hf_n h) (hf_r h) (hf_p h) (length dk) = Inr dk)"
  by (auto simp: verifyHash_def runScrypt_def split: sum.splits slot_wait.splits if_splits)

lemma b64_raw_encode_Nil: "b64_raw_encode s = [] \<longleftrightarrow> s = []"
proof
  assume "b64_raw_encode s = []"
  then have "(length s * 4 + 2) div 3 = 0"
    using length_b64_raw_encode [of s] by simp
  then show "s = []" by (cases s) auto
qed (simp add: b64_raw_encode_def)

lemma checkHash_formatHash:
  assumes "salt \<noteq> []" "32 \<le> length dk" "length dk \<le> 1024" "1 \<le> n" "n \<le> 16" "1 \<le> r" "r \<le> 16" "1 \<le> p" "p \<le> 4"
  shows "checkHash (formatHash \<lparr>hf_ver = 1, hf_salt = salt, hf_n = n, hf_r = r, hf_p = p,
      hf_enc = b64_raw_encode dk\<rparr>) =
    Inr (\<lparr>hf_ver = 1, hf_salt = salt, hf_n = n, hf_r = r, hf_p = p, hf_enc = b64_raw_encode dk\<rparr>, dk)"
proof -
  let ?h = "\<lparr>hf_ver = 1, hf_salt = salt, hf_n = n, hf_r = r, hf_p = p, hf_enc = b64_raw_encode dk\<rparr>"
  have "list_all plain (b64_raw_encode dk)"
    by (auto simp: list_all_iff intro: b64_plain dest: b64_raw_encode_value)
  moreover have "b64_raw_encode dk \<noteq> []"
    using assms(2) by (auto simp: b64_raw_encode_Nil)
  ultimately have "scanHash (formatHash ?h) = Some ?h"
    using assms by (intro scanHash_formatHash) (simp add: wf_fields_def)
  then show ?thesis
    using assms by (simp add: checkHash_def b64_raw_roundtrip scrypt_consts)
qed

text \<open>The derived key a stored hash was made from decides verification.\<close>

lemma createHash_Inr:
  assumes "createHash key w (Inr salt) secret = Inr hash" "length salt = 8"
    and "\<And>pw dk. key pw salt (2 ^ paramN) paramR paramP paramKeyLen = Inr dk \<Longrightarrow> length dk = paramKeyLen"
  obtains h dk where "checkHash hash = Inr (h, dk)" "hf_salt h = salt" "hf_n h = paramN" "hf_r h = paramR"
    "hf_p h = paramP" "length dk = paramKeyLen"
    "key secret salt (2 ^ paramN) paramR paramP paramKeyLen = Inr dk"
proof -
  obtain dk where dk: "key secret salt (2 ^ paramN) paramR paramP paramKeyLen = Inr dk"
    and hash: "hash = formatHash \<lparr>hf_ver = hash_version, hf_salt = salt, hf_n = paramN, hf_r = paramR,
      hf_p = paramP, hf_enc = b64_raw_encode dk\<rparr>"
    using assms(1) by (auto simp: createHash_def runScrypt_def split: slot_wait.splits sum.splits)
  have len: "length dk = paramKeyLen" using assms(3) [OF dk] .
  have "checkHash hash = Inr (\<lparr>hf_ver = 1, hf_salt = salt, hf_n = paramN, hf_r = paramR,
      hf_p = paramP, hf_enc = b64_raw_encode dk\<rparr>, dk)"
    unfolding hash hash_version_def
    using assms(2) len by (intro checkHash_formatHash) (auto simp: scrypt_consts)
  then show thesis
    using dk len by (intro that) auto
qed

interpretation scrypt_slots: slot_pool "slotAcquire procs" slotRelease "\<lambda>s _. s"
  "int (slotsPerProc * procs)" 0 for procs :: nat
  by unfold_locales (auto simp: slotAcquire_def slotRelease_def)

section \<open>Properties\<close>

text \<open>
  (C15) Round trip of the node-password hash. A hash that createHash returns verifies with the
  password it was made from, and with another password exactly when scrypt derives the same
  key from both. The hypothesis on scrypt is its documented output length.
\<close>

theorem createHash_verifyHash:
  assumes "createHash key w (Inr salt) secret = Inr hash" and "length salt = paramSaltLen"
    and "\<And>pw dk. key pw salt (2 ^ paramN) paramR paramP paramKeyLen = Inr dk \<Longrightarrow> length dk = paramKeyLen"
  shows "verifyHash key SlotFree hash secret = None \<and>
    (verifyHash key SlotFree hash other = None \<longleftrightarrow>
       key other salt (2 ^ paramN) paramR paramP paramKeyLen =
       key secret salt (2 ^ paramN) paramR paramP paramKeyLen)"
proof -
  obtain h dk where "checkHash hash = Inr (h, dk)" "hf_salt h = salt" "hf_n h = paramN" "hf_r h = paramR"
    "hf_p h = paramP" "length dk = paramKeyLen"
    "key secret salt (2 ^ paramN) paramR paramP paramKeyLen = Inr dk"
    using assms by (elim createHash_Inr) (auto simp: paramSaltLen_def)
  then show ?thesis by (auto simp: verifyHash_None_iff)
qed

theorem createHash_verifyHash_witness:
  "let key = (\<lambda>pw salt n r p len. Inr (take len (pw @ replicate len (CHR 0x00)))) :: scrypt_fun;
       salt = ''12345678''
   in \<exists>hash. createHash key SlotFree (Inr salt) ''node-secret'' = Inr hash \<and>
        verifyHash key SlotFree hash ''node-secret'' = None \<and>
        verifyHash key SlotFree hash ''another-one'' \<noteq> None"
proof -
  let ?key = "(\<lambda>pw salt n r p len. Inr (take len (pw @ replicate len (CHR 0x00)))) :: scrypt_fun"
  let ?salt = "''12345678''"
  obtain hash where h: "createHash ?key SlotFree (Inr ?salt) ''node-secret'' = Inr hash"
    by (simp add: createHash_def runScrypt_def)
  have ne: "?key ''another-one'' ?salt (2 ^ paramN) paramR paramP paramKeyLen \<noteq>
      ?key ''node-secret'' ?salt (2 ^ paramN) paramR paramP paramKeyLen"
    by (simp add: paramKeyLen_def)
  have "verifyHash ?key SlotFree hash ''node-secret'' = None \<and>
    verifyHash ?key SlotFree hash ''another-one'' \<noteq> None"
    using createHash_verifyHash [OF h, of "''another-one''"] ne by (simp add: paramSaltLen_def)
  then show ?thesis using h by (auto simp: Let_def)
qed

text \<open>
  (C17) The stored hash cannot dictate the cost of a request. verifyHash reads scrypt only at
  parameters within its bounds: two scrypt functions that agree for N = 2^n with n in 1..16,
  r in 1..16, p in 1..4 and a key of 32..1024 bytes give the same answer on every stored
  string. There 128 * N * r, the memory of one run, is at most 128 MiB.
\<close>

theorem verifyHash_cost_bounded:
  assumes "\<And>pw salt n r p len. 1 \<le> n \<Longrightarrow> n \<le> 16 \<Longrightarrow> 1 \<le> r \<Longrightarrow> r \<le> 16 \<Longrightarrow> 1 \<le> p \<Longrightarrow> p \<le> 4 \<Longrightarrow>
      32 \<le> len \<Longrightarrow> len \<le> 1024 \<Longrightarrow> 128 * 2 ^ n * r \<le> 128 * 1024 * 1024 \<Longrightarrow>
      key pw salt (2 ^ n) r p len = key' pw salt (2 ^ n) r p len"
  shows "verifyHash key w hash secret = verifyHash key' w hash secret"
proof (cases "checkHash hash")
  case (Inl e)
  then show ?thesis by (simp add: verifyHash_def)
next
  case (Inr x)
  then obtain h dk where c: "checkHash hash = Inr (h, dk)" by (cases x) auto
  have "(2::int) ^ hf_n h \<le> 2 ^ 16"
    using checkHash_Inr(6) [OF c] by (intro power_increasing) auto
  then have "128 * 2 ^ hf_n h * hf_r h \<le> 128 * 2 ^ 16 * 16"
    using checkHash_Inr(7,8) [OF c] by (intro mult_mono) auto
  then have "key secret (hf_salt h) (2 ^ hf_n h) (hf_r h) (hf_p h) (length dk) =
      key' secret (hf_salt h) (2 ^ hf_n h) (hf_r h) (hf_p h) (length dk)"
    using checkHash_Inr [OF c] by (intro assms) auto
  then show ?thesis by (cases w) (simp_all add: verifyHash_def c runScrypt_def)
qed

theorem verifyHash_cost_bounded_witness:
  "let key = (\<lambda>pw salt n r p len. Inr pw) :: scrypt_fun;
       key' = (\<lambda>pw salt n r p len. if n > 2 ^ 16 then Inl ''exhausted'' else Inr pw) :: scrypt_fun
   in verifyHash key SlotFree ''$1:00:40:8:1:AAAA'' ''pw'' = verifyHash key' SlotFree ''$1:00:40:8:1:AAAA'' ''pw''"
proof -
  let ?key = "(\<lambda>pw salt n r p len. Inr pw) :: scrypt_fun"
  let ?key' = "(\<lambda>pw salt n r p len. if n > 2 ^ 16 then Inl ''exhausted'' else Inr pw) :: scrypt_fun"
  have "?key pw salt (2 ^ n) r p len = ?key' pw salt (2 ^ n) r p len" if "n \<le> 16" for pw salt n r p len
    using power_increasing [OF that, of "2 :: nat"] by simp
  then show ?thesis
    unfolding Let_def by (intro verifyHash_cost_bounded) blast
qed

text \<open>
  (C16) Only canonical hashes verify. If verification succeeds, the stored string is exactly
  the printed form of its fields, its version is 1 and its salt and key are the ones scrypt
  was run on; trailing junk, padding, leading zeros or signs cannot survive.
\<close>

theorem verifyHash_canonical:
  assumes "verifyHash key w hash secret = None"
  shows "\<exists>h dk. hash = formatHash h \<and> hf_ver h = 1 \<and> b64_raw_decode (hf_enc h) = Some dk \<and>
    key secret (hf_salt h) (2 ^ hf_n h) (hf_r h) (hf_p h) (length dk) = Inr dk \<and>
    32 \<le> length dk \<and> length dk \<le> 1024"
proof -
  obtain h dk where c: "checkHash hash = Inr (h, dk)"
    and k: "key secret (hf_salt h) (2 ^ hf_n h) (hf_r h) (hf_p h) (length dk) = Inr dk"
    using assms by (auto simp: verifyHash_None_iff)
  then show ?thesis using checkHash_Inr [OF c] by (intro exI [of _ h] exI [of _ dk]) simp
qed

theorem verifyHash_canonical_witness:
  "let key = (\<lambda>pw salt n r p len. Inr (replicate len (CHR 0x00))) :: scrypt_fun;
       hash = formatHash \<lparr>hf_ver = 1, hf_salt = ''s'', hf_n = 1, hf_r = 1, hf_p = 1,
         hf_enc = b64_raw_encode (replicate 32 (CHR 0x00))\<rparr>
   in \<exists>h dk. hash = formatHash h \<and> hf_ver h = 1 \<and> b64_raw_decode (hf_enc h) = Some dk \<and>
      key ''pw'' (hf_salt h) (2 ^ hf_n h) (hf_r h) (hf_p h) (length dk) = Inr dk \<and>
      32 \<le> length dk \<and> length dk \<le> 1024"
proof -
  let ?key = "(\<lambda>pw salt n r p len. Inr (replicate len (CHR 0x00))) :: scrypt_fun"
  let ?hash = "formatHash \<lparr>hf_ver = 1, hf_salt = ''s'', hf_n = 1, hf_r = 1, hf_p = 1,
      hf_enc = b64_raw_encode (replicate 32 (CHR 0x00))\<rparr>"
  have "verifyHash ?key SlotFree ?hash ''pw'' = None"
    using checkHash_formatHash [of "''s''" "replicate 32 (CHR 0x00)" 1 1 1]
    by (auto simp: verifyHash_None_iff)
  from verifyHash_canonical [OF this] show ?thesis
    unfolding Let_def .
qed

text \<open>
  The bounds on stored parameters admit a 128 MiB run: a hash with N = 2^16 and r = 16
  passes every check, and one scrypt run on it needs 128 * N * r = 128 MiB. The comment on
  the bounds in the source promises less than about 64 MiB.
\<close>

lemma checkHash_largest_cost:
  "\<exists>hash h dk. checkHash hash = Inr (h, dk) \<and> 128 * 2 ^ hf_n h * hf_r h = 128 * 1024 * 1024"
proof -
  let ?h = "\<lparr>hf_ver = 1, hf_salt = ''s'', hf_n = 16, hf_r = 16, hf_p = 1,
      hf_enc = b64_raw_encode (replicate 32 (CHR 0x00))\<rparr>"
  have "checkHash (formatHash ?h) = Inr (?h, replicate 32 (CHR 0x00))"
    by (rule checkHash_formatHash) auto
  then show ?thesis
    by (intro exI [of _ "formatHash ?h"] exI [of _ ?h] exI [of _ "replicate 32 (CHR 0x00)"]) simp
qed

end
