(* ===== verification/Scrypt_Runs.thy ===== *)
theory Scrypt_Runs
  imports Scrypt
begin

text \<open>
  Hash calls side by side, after src/internal/nodepassword/scrypt.go: any number of createHash and
  verifyHash calls, each in a goroutine of its own, share the channel scryptSlots. runScrypt is
  cut at its statements: the select that sends into the channel or sees the context end, the run
  of scrypt, and the deferred receive. \<open>scryptStep\<close> is one of them, on the fill of the channel;
  what a whole call returns is what the sequential definitions of theory Scrypt compute.
\<close>

section \<open>One call of runScrypt, statement by statement\<close>

record scrypt_args =
  sa_password :: string
  sa_salt :: string
  sa_n :: nat
  sa_r :: int
  sa_p :: int
  sa_keyLen :: nat

datatype scrypt_pc =
    Selecting
  | Deriving
  | Releasing "(pw_error, string) result"
  | Returned "(pw_error, string) result"

text \<open>
  The next statement, with the fill of the channel. \<open>sw\<close> says which case of the select is taken;
  a send into a full channel does not go on.
\<close>

definition scryptStep :: "scrypt_fun \<Rightarrow> nat \<Rightarrow> slot_wait \<Rightarrow> scrypt_args \<Rightarrow> int \<times> scrypt_pc \<Rightarrow> (int \<times> scrypt_pc) option" where
  "scryptStep key procs sw a st =
     (case st of (used, pc) \<Rightarrow>
     (case pc of
        Selecting \<Rightarrow>
          (case sw of
             SlotFree \<Rightarrow> (case slotAcquire procs used () of
                (True, used') \<Rightarrow> Some (used', Deriving)
              | (False, _) \<Rightarrow> None)
           | CtxDone e \<Rightarrow> Some (used, Returned (Inl (ErrContext e))))
      | Deriving \<Rightarrow>
          Some (used, Releasing
            (case key (sa_password a) (sa_salt a) (sa_n a) (sa_r a) (sa_p a) (sa_keyLen a) of
               Inl e \<Rightarrow> Inl (ErrScrypt e)
             | Inr dk \<Rightarrow> Inr dk))
      | Releasing r \<Rightarrow> Some (slotRelease used (), Returned r)
      | Returned r \<Rightarrow> None))"

abbreviation runArgs :: "scrypt_fun \<Rightarrow> slot_wait \<Rightarrow> scrypt_args \<Rightarrow> (pw_error, string) result" where
  "runArgs key sw a \<equiv> runScrypt key sw (sa_password a) (sa_salt a) (sa_n a) (sa_r a) (sa_p a) (sa_keyLen a)"

section \<open>Calls of createHash and verifyHash\<close>

datatype hash_op =
    Creating "(string, string) result" string
  | Verifying string string

datatype hash_answer = Created "(pw_error, string) result" | Verified "pw_error option"

text \<open>The whole call, as theory Scrypt has it.\<close>

fun hashCall :: "scrypt_fun \<Rightarrow> slot_wait \<Rightarrow> hash_op \<Rightarrow> hash_answer" where
  "hashCall key sw (Creating salt secret) = Created (createHash key sw salt secret)"
| "hashCall key sw (Verifying hash secret) = Verified (verifyHash key sw hash secret)"

text \<open>Up to the call of runScrypt: an answer without one, or its arguments.\<close>

fun hashArgs :: "hash_op \<Rightarrow> (hash_answer, scrypt_args) result" where
  "hashArgs (Creating salt secret) =
     (case salt of
        Inl e \<Rightarrow> Inl (Created (Inl (ErrRand e)))
      | Inr sa \<Rightarrow> Inr \<lparr>sa_password = secret, sa_salt = sa, sa_n = 2 ^ paramN, sa_r = paramR, sa_p = paramP,
          sa_keyLen = paramKeyLen\<rparr>)"
| "hashArgs (Verifying hash secret) =
     (case checkHash hash of
        Inl e \<Rightarrow> Inl (Verified (Some e))
      | Inr (h, dk) \<Rightarrow> Inr \<lparr>sa_password = secret, sa_salt = hf_salt h, sa_n = 2 ^ hf_n h, sa_r = hf_r h, sa_p = hf_p h,
          sa_keyLen = length dk\<rparr>)"

text \<open>From the return of runScrypt on.\<close>

fun hashFinish :: "hash_op \<Rightarrow> scrypt_args \<Rightarrow> (pw_error, string) result \<Rightarrow> hash_answer" where
  "hashFinish (Creating _ _) a res =
     Created (case res of
        Inl e \<Rightarrow> Inl e
      | Inr dk \<Rightarrow> Inr (formatHash \<lparr>hf_ver = hash_version, hf_salt = sa_salt a, hf_n = paramN,
          hf_r = paramR, hf_p = paramP, hf_enc = b64_raw_encode dk\<rparr>))"
| "hashFinish (Verifying hash _) a res =
     Verified (case res of
        Inl e \<Rightarrow> Some e
      | Inr want \<Rightarrow> (case checkHash hash of
            Inl e \<Rightarrow> Some e
          | Inr (h, dk) \<Rightarrow> if dk \<noteq> want then Some ErrMismatch else None))"

lemma hashCall_split:
  "hashCall key sw op = (case hashArgs op of Inl a \<Rightarrow> a | Inr a \<Rightarrow> hashFinish op a (runArgs key sw a))"
  by (cases op) (auto simp: createHash_def verifyHash_def split: sum.splits)

text \<open>A call in its goroutine: its context has ended once \<open>hc_ctx\<close> holds the context's error.\<close>

datatype call_pc = Entered | InScrypt scrypt_args scrypt_pc | HashDone hash_answer

record hash_call =
  hc_op :: hash_op
  hc_ctx :: "string option"
  hc_pc :: call_pc

definition may_select :: "hash_call \<Rightarrow> slot_wait \<Rightarrow> bool" where
  "may_select g sw \<longleftrightarrow> (case sw of SlotFree \<Rightarrow> True | CtxDone e \<Rightarrow> hc_ctx g = Some e)"

inductive call_step :: "scrypt_fun \<Rightarrow> nat \<Rightarrow> int \<times> hash_call \<Rightarrow> int \<times> hash_call \<Rightarrow> bool" for key procs where
  enter_refused: "hc_pc g = Entered \<Longrightarrow> hashArgs (hc_op g) = Inl ans \<Longrightarrow>
    call_step key procs (used, g) (used, g\<lparr>hc_pc := HashDone ans\<rparr>)"
| enter: "hc_pc g = Entered \<Longrightarrow> hashArgs (hc_op g) = Inr a \<Longrightarrow>
    call_step key procs (used, g) (used, g\<lparr>hc_pc := InScrypt a Selecting\<rparr>)"
| in_scrypt: "hc_pc g = InScrypt a pc \<Longrightarrow> may_select g sw \<Longrightarrow> scryptStep key procs sw a (used, pc) = Some (used', pc') \<Longrightarrow>
    call_step key procs (used, g) (used', g\<lparr>hc_pc := InScrypt a pc'\<rparr>)"
| finish: "hc_pc g = InScrypt a (Returned r) \<Longrightarrow>
    call_step key procs (used, g) (used, g\<lparr>hc_pc := HashDone (hashFinish (hc_op g) a r)\<rparr>)"

text \<open>All calls of a process: they start at any time, their contexts end at any time, and they interleave.\<close>

inductive hash_calls :: "scrypt_fun \<Rightarrow> nat \<Rightarrow> int \<Rightarrow> hash_call multiset \<Rightarrow> bool" for key procs where
  calls_none: "hash_calls key procs 0 {#}"
| calls_new: "hash_calls key procs used G \<Longrightarrow>
    hash_calls key procs used (add_mset \<lparr>hc_op = op, hc_ctx = None, hc_pc = Entered\<rparr> G)"
| calls_ctx: "hash_calls key procs used (add_mset g G) \<Longrightarrow> hc_ctx g = None \<Longrightarrow>
    hash_calls key procs used (add_mset (g\<lparr>hc_ctx := Some e\<rparr>) G)"
| calls_step: "hash_calls key procs used (add_mset g G) \<Longrightarrow> call_step key procs (used, g) (used', g') \<Longrightarrow>
    hash_calls key procs used' (add_mset g' G)"

definition deriving :: "hash_call \<Rightarrow> bool" where
  "deriving g \<longleftrightarrow> (case hc_pc g of InScrypt _ Deriving \<Rightarrow> True | _ \<Rightarrow> False)"

definition holding :: "hash_call \<Rightarrow> bool" where
  "holding g \<longleftrightarrow> (case hc_pc g of InScrypt _ Deriving \<Rightarrow> True | InScrypt _ (Releasing _) \<Rightarrow> True | _ \<Rightarrow> False)"

definition answered :: "hash_call \<Rightarrow> bool" where
  "answered g \<longleftrightarrow> (case hc_pc g of HashDone _ \<Rightarrow> True | _ \<Rightarrow> False)"

text \<open>The memory of the scrypt run a call is in: 128 * N * r bytes.\<close>

definition scryptMemory :: "hash_call \<Rightarrow> int" where
  "scryptMemory g = (case hc_pc g of InScrypt a Deriving \<Rightarrow> 128 * int (sa_n a) * sa_r a | _ \<Rightarrow> 0)"

lemmas call_defs = deriving_def holding_def answered_def scryptMemory_def

section \<open>Invariants\<close>

definition call_ok :: "scrypt_fun \<Rightarrow> hash_call \<Rightarrow> bool" where
  "call_ok key g \<longleftrightarrow>
     (case hc_pc g of
        Entered \<Rightarrow> True
      | InScrypt a pc \<Rightarrow> hashArgs (hc_op g) = Inr a \<and>
          (case pc of
             Releasing r \<Rightarrow> r = runArgs key SlotFree a
           | Returned r \<Rightarrow> \<exists>sw. may_select g sw \<and> r = runArgs key sw a
           | _ \<Rightarrow> True)
      | HashDone ans \<Rightarrow> \<exists>sw. may_select g sw \<and> ans = hashCall key sw (hc_op g))"

lemma may_select_pc [simp]: "may_select (g\<lparr>hc_pc := pc\<rparr>) sw = may_select g sw"
  by (simp add: may_select_def split: slot_wait.splits)

lemma may_select_free [simp]: "may_select g SlotFree"
  by (simp add: may_select_def)

lemma may_select_ctx: "hc_ctx g = None \<Longrightarrow> may_select g sw \<Longrightarrow> may_select (g\<lparr>hc_ctx := Some e\<rparr>) sw"
  by (auto simp: may_select_def split: slot_wait.splits)

lemma scryptStep_Some:
  "scryptStep key procs sw a (used, pc) = Some (used', pc') \<longleftrightarrow>
     (pc = Selecting \<and> sw = SlotFree \<and> slotAcquire procs used () = (True, used') \<and> pc' = Deriving) \<or>
     (\<exists>e. pc = Selecting \<and> sw = CtxDone e \<and> used' = used \<and> pc' = Returned (runArgs key sw a)) \<or>
     (pc = Deriving \<and> used' = used \<and> pc' = Releasing (runArgs key SlotFree a)) \<or>
     (\<exists>r. pc = Releasing r \<and> used' = slotRelease used () \<and> pc' = Returned r)"
  by (auto simp: scryptStep_def runScrypt_def split: scrypt_pc.splits slot_wait.splits prod.splits bool.splits)

lemma call_step_ok: "call_step key procs (used, g) (used', g') \<Longrightarrow> call_ok key g \<Longrightarrow> call_ok key g'"
proof (induction "(used, g)" "(used', g')" rule: call_step.induct)
  case (enter_refused ans)
  then show ?case by (auto simp: call_ok_def hashCall_split intro!: exI [of _ SlotFree])
next
  case (in_scrypt a pc sw pc')
  then show ?case by (auto simp: call_ok_def scryptStep_Some) (metis may_select_free)
next
  case (finish a r)
  then show ?case by (auto simp: call_ok_def hashCall_split)
qed (auto simp: call_ok_def)

lemma calls_ok: "hash_calls key procs used G \<Longrightarrow> g \<in># G \<Longrightarrow> call_ok key g"
proof (induction arbitrary: g rule: hash_calls.induct)
  case (calls_ctx used g0 G e)
  have "call_ok key (g0\<lparr>hc_ctx := Some e\<rparr>)"
    using calls_ctx.IH [of g0] calls_ctx.hyps(2) may_select_ctx [of g0]
    by (auto simp: call_ok_def split: call_pc.splits scrypt_pc.splits)
  then show ?case using calls_ctx by auto
next
  case (calls_step used g0 G used' g')
  then show ?case using call_step_ok [OF calls_step.hyps(2)] by auto
qed (auto simp: call_ok_def)

text \<open>The slots held, as the slot pool sees them.\<close>

definition held :: "hash_call multiset \<Rightarrow> unit multiset" where
  "held G = image_mset (\<lambda>_. ()) (filter_mset holding G)"

lemma held_add: "held (add_mset g G) = (if holding g then add_mset () (held G) else held G)"
  by (simp add: held_def)

lemma call_step_slots:
  assumes "call_step key procs (used, g) (used', g')" "slots_reach (slotAcquire procs) slotRelease 0 used (held (add_mset g G))"
  shows "slots_reach (slotAcquire procs) slotRelease 0 used' (held (add_mset g' G))"
  using assms
proof (induction "(used, g)" "(used', g')" rule: call_step.induct)
  case (in_scrypt a pc sw pc')
  from in_scrypt(3) consider "pc = Selecting" "slotAcquire procs used () = (True, used')" "pc' = Deriving"
    | r where "pc = Selecting" "used' = used" "pc' = Returned r"
    | r where "pc = Deriving" "used' = used" "pc' = Releasing r"
    | r where "pc = Releasing r" "used' = slotRelease used ()" "pc' = Returned r"
    unfolding scryptStep_Some by blast
  then show ?case
  proof cases
    case 1
    then show ?thesis
      using in_scrypt slots_granted [of _ _ _ used "held G" "()" used'] by (auto simp: held_add holding_def)
  next
    case (4 r)
    then show ?thesis
      using in_scrypt slots_released [of _ _ _ used "add_mset () (held G)" "()"] by (auto simp: held_add holding_def)
  qed (use in_scrypt in \<open>auto simp: held_add holding_def\<close>)
qed (auto simp: held_add holding_def)

lemma calls_slots: "hash_calls key procs used G \<Longrightarrow> slots_reach (slotAcquire procs) slotRelease 0 used (held G)"
proof (induction rule: hash_calls.induct)
  case calls_none
  show ?case by (simp add: held_def slots_start)
next
  case (calls_step used g G used' g')
  show ?case using calls_step.hyps(2) calls_step.IH by (rule call_step_slots)
qed (simp_all add: held_add holding_def)

lemma calls_used:
  assumes "hash_calls key procs used G"
  shows "used = int (size (filter_mset holding G)) \<and> size (filter_mset holding G) \<le> 2 * procs"
proof -
  have "count M () = size M" for M :: "unit multiset" by (induction M) auto
  then have "count (held G) () = size (filter_mset holding G)" by (simp add: held_def)
  then show ?thesis
    using scrypt_slots.reach_cnt [OF calls_slots [OF assms], of "()"] by (auto simp: slotsPerProc_def)
qed

lemma deriving_holding: "deriving g \<Longrightarrow> holding g"
  by (auto simp: call_defs split: call_pc.splits scrypt_pc.splits)

lemma deriving_size: "size (filter_mset deriving G) \<le> size (filter_mset holding G)"
  by (induction G) (auto dest: deriving_holding)

text \<open>What one run needs, whoever asked for it.\<close>

lemma hashArgs_memory: "hashArgs op = Inr a \<Longrightarrow> 0 \<le> 128 * int (sa_n a) * sa_r a \<and> 128 * int (sa_n a) * sa_r a \<le> 128 * 1024 * 1024"
proof (induction op rule: hashArgs.induct)
  case (1 salt secret)
  then show ?case by (auto simp: scrypt_consts split: sum.splits)
next
  case (2 hash secret)
  then obtain h dk where c: "checkHash hash = Inr (h, dk)" and a: "sa_n a = 2 ^ hf_n h" "sa_r a = hf_r h"
    by (auto split: sum.splits)
  have "(2::int) ^ hf_n h \<le> 2 ^ 16" using checkHash_Inr(6) [OF c] by (intro power_increasing) auto
  then have "128 * 2 ^ hf_n h * hf_r h \<le> 128 * 2 ^ 16 * 16" using checkHash_Inr(7,8) [OF c] by (intro mult_mono) auto
  then show ?case using a checkHash_Inr(7) [OF c] by simp
qed

lemma sum_mset_le: "(\<And>x. x \<in># M \<Longrightarrow> f x \<le> c) \<Longrightarrow> (\<Sum>x\<in>#M. f x) \<le> int (size M) * (c :: int)"
  by (induction M) (auto simp: algebra_simps intro: add_mono)

lemma calls_memory:
  assumes "hash_calls key procs used G"
  shows "(\<Sum>g\<in>#filter_mset deriving G. scryptMemory g) \<le> int (size (filter_mset deriving G)) * (128 * 1024 * 1024)"
proof (rule sum_mset_le)
  fix g assume "g \<in># filter_mset deriving G"
  then have "call_ok key g" "deriving g" using calls_ok [OF assms] by auto
  then show "scryptMemory g \<le> 128 * 1024 * 1024"
    by (auto simp: call_ok_def call_defs split: call_pc.splits scrypt_pc.splits dest: hashArgs_memory)
qed

text \<open>A call that has not answered goes on, unless it waits for a slot and all are taken.\<close>

lemma call_goes_on:
  assumes "\<not> answered g" "\<not> (\<exists>a. hc_pc g = InScrypt a Selecting) \<or> used < int (slotsPerProc * procs)"
  shows "\<exists>st. call_step key procs (used, g) st"
proof (cases "hc_pc g")
  case Entered
  then show ?thesis using enter_refused [of g] enter [of g] by (cases "hashArgs (hc_op g)") blast+
next
  case (InScrypt a pc)
  show ?thesis
  proof (cases pc)
    case Selecting
    then have "scryptStep key procs SlotFree a (used, pc) = Some (used + 1, Deriving)"
      using assms(2) InScrypt by (simp add: scryptStep_def slotAcquire_def)
    then show ?thesis using in_scrypt [OF InScrypt may_select_free] by blast
  next
    case (Returned r)
    then show ?thesis using finish [of g a r] InScrypt by blast
  qed (use in_scrypt [OF InScrypt may_select_free [of g], of key procs used] in \<open>force simp: scryptStep_def\<close>)+
qed (use assms(1) in \<open>simp add: answered_def\<close>)

lemma calls_go_on:
  assumes "hash_calls key procs used G" "0 < procs" "g \<in># G" "\<not> answered g"
  shows "\<exists>g' \<in># G. \<exists>st. call_step key procs (used, g') st"
proof (cases "used < int (slotsPerProc * procs)")
  case True
  then show ?thesis using call_goes_on [OF assms(4)] assms(3) by blast
next
  case False
  then have "0 < size (filter_mset holding G)"
    using calls_used [OF assms(1)] assms(2) by (auto simp: slotsPerProc_def)
  then obtain g' where "g' \<in># filter_mset holding G" by (metis multiset_nonemptyE nonempty_has_size)
  then have "g' \<in># G" "holding g'" by auto
  moreover from this have "\<not> answered g'" "\<not> (\<exists>a. hc_pc g' = InScrypt a Selecting)"
    by (auto simp: call_defs split: call_pc.splits)
  ultimately show ?thesis using call_goes_on by blast
qed

section \<open>Properties\<close>

text \<open>
  (C34) Concurrent scrypt runs are bounded. However createHash and verifyHash calls interleave,
  the channel holds one entry for each call between its select and its deferred receive, so at
  most two calls per processor are inside scrypt, and together they need at most 128 MiB each. A
  call that answers has the answer of the sequential createHash or verifyHash, for the case its
  select took; when the last call has answered the channel is empty; and as long as a call has
  not answered some call can go on.
\<close>

theorem scrypt_runs_bounded:
  assumes "hash_calls key procs used G"
  shows "used = int (size (filter_mset holding G)) \<and> size (filter_mset deriving G) \<le> 2 * procs \<and>
    (\<Sum>g\<in>#filter_mset deriving G. scryptMemory g) \<le> 2 * int procs * (128 * 1024 * 1024) \<and>
    (\<forall>g \<in># G. \<forall>ans. hc_pc g = HashDone ans \<longrightarrow> (\<exists>sw. may_select g sw \<and> ans = hashCall key sw (hc_op g))) \<and>
    ((\<forall>g \<in># G. answered g) \<longrightarrow> used = 0) \<and>
    (0 < procs \<longrightarrow> (\<exists>g \<in># G. \<not> answered g) \<longrightarrow> (\<exists>g \<in># G. \<exists>st. call_step key procs (used, g) st))"
proof -
  note used = calls_used [OF assms]
  have n: "size (filter_mset deriving G) \<le> 2 * procs" using used deriving_size [of G] by linarith
  have "int (size (filter_mset deriving G)) * (128 * 1024 * 1024) \<le> 2 * int procs * (128 * 1024 * 1024)"
    using n by (intro mult_right_mono) auto
  with calls_memory [OF assms] have mem: "(\<Sum>g\<in>#filter_mset deriving G. scryptMemory g) \<le> 2 * int procs * (128 * 1024 * 1024)"
    by (rule order_trans)
  have ans: "\<exists>sw. may_select g sw \<and> ans = hashCall key sw (hc_op g)" if "g \<in># G" "hc_pc g = HashDone ans" for g ans
    using calls_ok [OF assms that(1)] that(2) by (simp add: call_ok_def)
  have "filter_mset holding G = {#}" if "\<forall>g \<in># G. answered g"
    using that by (auto simp: filter_mset_eq_conv call_defs split: call_pc.splits)
  then have "(\<forall>g \<in># G. answered g) \<longrightarrow> used = 0" using used by auto
  then show ?thesis using used n mem ans calls_go_on [OF assms] by blast
qed

theorem scrypt_runs_bounded_witness:
  "let key = (\<lambda>pw salt n r p len. Inr pw) :: scrypt_fun;
       waits = (\<lambda>g. case hc_pc g of InScrypt _ Selecting \<Rightarrow> True | _ \<Rightarrow> False)
   in \<exists>G. hash_calls key 1 2 G \<and> size (filter_mset waits G) = 1 \<and> size (filter_mset deriving G) = 2 \<and>
     (\<Sum>g\<in>#filter_mset deriving G. scryptMemory g) \<le> 2 * (128 * 1024 * 1024) \<and> (\<exists>g \<in># G. \<exists>st. call_step key 1 (2, g) st)"
proof -
  let ?key = "(\<lambda>pw salt n r p len. Inr pw) :: scrypt_fun"
  let ?a = "\<lparr>sa_password = ''secret-1'', sa_salt = ''01234567'', sa_n = 2 ^ paramN, sa_r = paramR, sa_p = paramP, sa_keyLen = paramKeyLen\<rparr>"
  define c where "c pc = \<lparr>hc_op = Creating (Inr ''01234567'') ''secret-1'', hc_ctx = None, hc_pc = pc\<rparr>" for pc
  let ?w = "c (InScrypt ?a Selecting)" and ?d = "c (InScrypt ?a Deriving)"
  have e: "call_step ?key 1 (used, c Entered) (used, ?w)" for used
    using enter [of "c Entered" ?a ?key 1 used] by (simp add: c_def)
  have s: "call_step ?key 1 (used, ?w) (used + 1, ?d)" if "used < 2" for used
    using in_scrypt [of ?w ?a Selecting SlotFree ?key 1 used "used + 1" Deriving] that
    by (simp add: c_def scryptStep_Some slotAcquire_def slotsPerProc_def)
  have n: "hash_calls ?key 1 used G \<Longrightarrow> hash_calls ?key 1 used (add_mset ?w G)" for used G
    using calls_step [OF calls_new [of ?key 1 used G "Creating (Inr ''01234567'') ''secret-1''"] e [unfolded c_def]]
    by (simp add: c_def)
  have "hash_calls ?key 1 1 {#?d#}" using calls_step [OF n [OF calls_none] s] by simp
  from calls_step [OF n [OF this] s] have "hash_calls ?key 1 2 {#?d, ?d#}" by simp
  then have G: "hash_calls ?key 1 2 {#?w, ?d, ?d#}" by (rule n)
  note b = scrypt_runs_bounded [OF G]
  have d: "\<not> answered ?d" "deriving ?d" "\<not> deriving ?w" by (simp_all add: c_def deriving_def answered_def)
  have "?d \<in># {#?w, ?d, ?d#}" by simp
  then have "\<exists>g \<in># {#?w, ?d, ?d#}. \<exists>st. call_step ?key 1 (2, g) st" using b d(1) zero_less_one by blast
  then show ?thesis
    unfolding Let_def by (intro exI [of _ "{#?w, ?d, ?d#}"] conjI) (use G b d in \<open>simp_all add: c_def\<close>)
qed

end
