(* ===== verification/Kube.thy ===== *)
theory Kube
  imports Scrypt
begin

text \<open>
  What the program uses of the world outside its sources: the Kubernetes API through client-go,
  the clock, the random source and the wait for a scrypt slot. All of it is a parameter, a
  record \<open>platform\<close> of operations on a world state that other writers may change between calls.

  The locale \<open>kube_api\<close> states the documented behaviour the properties rely on: reads report
  the stored object or its absence, a create never overwrites, an operation that fails for
  another reason says nothing about the object (a create that timed out may have taken
  effect). \<open>mem_platform\<close> is a concrete in-memory API that satisfies it.
\<close>

type_synonym time = int
type_synonym duration = int

text \<open>
  Times are nanoseconds since 1 January of year 1 UTC, so Go's zero time is 0; durations are
  int64 nanoseconds and Sub saturates at their range.
\<close>

definition maxDuration :: duration where "maxDuration = 2 ^ 63 - 1"
definition minDuration :: duration where "minDuration = - (2 ^ 63)"

definition time_Sub :: "time \<Rightarrow> time \<Rightarrow> duration" where
  "time_Sub t u = max minDuration (min maxDuration (t - u))"

definition second :: duration where "second = 1000000000"
definition minute :: duration where "minute = 60 * second"
definition hour :: duration where "hour = 60 * minute"
definition day :: duration where "day = 24 * hour"

declare second_def [time_simps] minute_def [time_simps] hour_def [time_simps] day_def [time_simps]

section \<open>Objects\<close>

type_synonym strmap = "(string \<times> string) list"

record secret =
  sec_name :: string
  sec_labels :: strmap
  sec_annotations :: strmap
  sec_data :: strmap

record node =
  node_name :: string
  node_labels :: strmap
  node_addresses :: strmap
  node_conditions :: strmap

record event =
  ev_name :: string
  ev_reason :: string
  ev_message :: string
  ev_type :: string
  ev_node :: string
  ev_first :: time
  ev_last :: time
  ev_count :: nat

datatype api_error = NotFound | AlreadyExists | ApiFailure string

record 'w platform =
  getSecret :: "string \<Rightarrow> string \<Rightarrow> 'w \<Rightarrow> (api_error, secret) result \<times> 'w"
  createSecret :: "string \<Rightarrow> secret \<Rightarrow> 'w \<Rightarrow> (api_error, unit) result \<times> 'w"
  patchSecret :: "string \<Rightarrow> string \<Rightarrow> strmap \<Rightarrow> 'w \<Rightarrow> (api_error, unit) result \<times> 'w"
  listSecrets :: "string \<Rightarrow> string \<times> string \<Rightarrow> 'w \<Rightarrow> (api_error, secret list) result \<times> 'w"
  getNode :: "string \<Rightarrow> 'w \<Rightarrow> (api_error, node) result \<times> 'w"
  listNodes :: "string \<Rightarrow> 'w \<Rightarrow> (api_error, node list) result \<times> 'w"
  createEvent :: "string \<Rightarrow> event \<Rightarrow> 'w \<Rightarrow> (api_error, unit) result \<times> 'w"
  patchEvent :: "string \<Rightarrow> string \<Rightarrow> string \<times> time \<times> string \<Rightarrow> 'w \<Rightarrow> (api_error, unit) result \<times> 'w"
  randSalt :: "'w \<Rightarrow> (string, string) result \<times> 'w"
  slotWait :: "'w \<Rightarrow> slot_wait \<times> 'w"
  timeNow :: "'w \<Rightarrow> time \<times> 'w"

section \<open>The contract of the Kubernetes API\<close>

text \<open>
  \<open>sv\<close> and \<open>nv\<close> read the stored Secrets and Nodes off the world. The laws describe a client
  with no concurrent writer; interleaved writers are the subject of the step relation in
  theory Store.
\<close>

locale kube_api =
  fixes pf :: "'w platform"
    and sv :: "'w \<Rightarrow> string \<Rightarrow> string \<Rightarrow> secret option"
    and nv :: "'w \<Rightarrow> string \<Rightarrow> node option"
  assumes get_secret: "getSecret pf ns name w = (res, w') \<Longrightarrow> sv w' = sv w \<and> nv w' = nv w \<and>
      (case res of
         Inr s \<Rightarrow> sv w ns name = Some s
       | Inl NotFound \<Rightarrow> sv w ns name = None
       | Inl AlreadyExists \<Rightarrow> False
       | Inl (ApiFailure _) \<Rightarrow> True)"
    and get_node: "getNode pf name w = (nres, w') \<Longrightarrow> sv w' = sv w \<and> nv w' = nv w \<and>
      (case nres of
         Inr n \<Rightarrow> nv w name = Some n
       | Inl NotFound \<Rightarrow> nv w name = None
       | Inl AlreadyExists \<Rightarrow> False
       | Inl (ApiFailure _) \<Rightarrow> True)"
    and create_secret: "createSecret pf ns s w = (cres, w') \<Longrightarrow> nv w' = nv w \<and>
      (case cres of
         Inr _ \<Rightarrow> sv w ns (sec_name s) = None \<and> sv w' = (sv w)(ns := (sv w ns)(sec_name s \<mapsto> s))
       | Inl AlreadyExists \<Rightarrow> sv w ns (sec_name s) \<noteq> None \<and> sv w' = sv w
       | Inl NotFound \<Rightarrow> sv w' = sv w
       | Inl (ApiFailure _) \<Rightarrow> sv w' = sv w \<or>
           sv w ns (sec_name s) = None \<and> sv w' = (sv w)(ns := (sv w ns)(sec_name s \<mapsto> s)))"
    and rand_salt: "randSalt pf w = (sres, w') \<Longrightarrow> sv w' = sv w \<and> nv w' = nv w \<and>
      (case sres of Inr salt \<Rightarrow> length salt = paramSaltLen | Inl _ \<Rightarrow> True)"
    and slot_wait: "slotWait pf w = (wt, w') \<Longrightarrow> sv w' = sv w \<and> nv w' = nv w"
    and time_now: "timeNow pf w = (t, w') \<Longrightarrow> sv w' = sv w \<and> nv w' = nv w"

section \<open>An in-memory API\<close>

record mem =
  m_secrets :: "((string \<times> string) \<times> secret) list"
  m_nodes :: "(string \<times> node) list"
  m_events :: "((string \<times> string) \<times> event) list"
  m_clock :: time

definition mem_empty :: mem where
  "mem_empty = \<lparr>m_secrets = [], m_nodes = [], m_events = [], m_clock = 0\<rparr>"

definition mem_secrets :: "mem \<Rightarrow> string \<Rightarrow> string \<Rightarrow> secret option" where
  "mem_secrets w ns name = map_of (m_secrets w) (ns, name)"

definition mem_nodes :: "mem \<Rightarrow> string \<Rightarrow> node option" where
  "mem_nodes w name = map_of (m_nodes w) name"

definition annotate :: "strmap \<Rightarrow> secret \<Rightarrow> secret" where
  "annotate as s = s\<lparr>sec_annotations := as @ filter (\<lambda>(k, _). \<not> List.member (map fst as) k) (sec_annotations s)\<rparr>"

definition mem_platform :: "mem platform" where
  "mem_platform =
     \<lparr>getSecret = (\<lambda>ns name w. case mem_secrets w ns name of None \<Rightarrow> (Inl NotFound, w) | Some s \<Rightarrow> (Inr s, w)),
      createSecret = (\<lambda>ns s w. case mem_secrets w ns (sec_name s) of
         Some _ \<Rightarrow> (Inl AlreadyExists, w)
       | None \<Rightarrow> (Inr (), w\<lparr>m_secrets := ((ns, sec_name s), s) # m_secrets w\<rparr>)),
      patchSecret = (\<lambda>ns name as w. case mem_secrets w ns name of
         None \<Rightarrow> (Inl NotFound, w)
       | Some s \<Rightarrow> (Inr (), w\<lparr>m_secrets :=
           map (\<lambda>(k, x). if k = (ns, name) then (k, annotate as x) else (k, x)) (m_secrets w)\<rparr>)),
      listSecrets = (\<lambda>ns (k, v) w. (Inr (map snd (filter (\<lambda>((n, _), s). n = ns \<and> map_of (sec_labels s) k = Some v)
         (m_secrets w))), w)),
      getNode = (\<lambda>name w. case mem_nodes w name of None \<Rightarrow> (Inl NotFound, w) | Some n \<Rightarrow> (Inr n, w)),
      listNodes = (\<lambda>l w. (Inr (map snd (filter (\<lambda>(_, n). map_of (node_labels n) l \<noteq> None) (m_nodes w))), w)),
      createEvent = (\<lambda>ns e w. case map_of (m_events w) (ns, ev_name e) of
         Some _ \<Rightarrow> (Inl AlreadyExists, w)
       | None \<Rightarrow> (Inr (), w\<lparr>m_events := ((ns, ev_name e), e) # m_events w\<rparr>)),
      patchEvent = (\<lambda>ns name (m, t, ty) w. case map_of (m_events w) (ns, name) of
         None \<Rightarrow> (Inl NotFound, w)
       | Some _ \<Rightarrow> (Inr (), w\<lparr>m_events := map (\<lambda>(k, e). if k = (ns, name)
           then (k, e\<lparr>ev_message := m, ev_last := t, ev_type := ty\<rparr>) else (k, e)) (m_events w)\<rparr>)),
      randSalt = (\<lambda>w. (Inr ''01234567'', w)),
      slotWait = (\<lambda>w. (SlotFree, w)),
      timeNow = (\<lambda>w. (m_clock w, w\<lparr>m_clock := m_clock w + 1\<rparr>))\<rparr>"

lemma mem_ops [simp]:
  "getSecret mem_platform ns name w =
     (case mem_secrets w ns name of None \<Rightarrow> (Inl NotFound, w) | Some s \<Rightarrow> (Inr s, w))"
  "createSecret mem_platform ns s w =
     (case mem_secrets w ns (sec_name s) of
        Some _ \<Rightarrow> (Inl AlreadyExists, w)
      | None \<Rightarrow> (Inr (), w\<lparr>m_secrets := ((ns, sec_name s), s) # m_secrets w\<rparr>))"
  "getNode mem_platform name w =
     (case mem_nodes w name of None \<Rightarrow> (Inl NotFound, w) | Some n \<Rightarrow> (Inr n, w))"
  "randSalt mem_platform w = (Inr ''01234567'', w)"
  "slotWait mem_platform w = (SlotFree, w)"
  "timeNow mem_platform w = (m_clock w, w\<lparr>m_clock := m_clock w + 1\<rparr>)"
  by (simp_all add: mem_platform_def)

lemma mem_secrets_insert:
  "mem_secrets (w\<lparr>m_secrets := ((ns, name), s) # m_secrets w\<rparr>) =
     (mem_secrets w)(ns := (mem_secrets w ns)(name \<mapsto> s))"
  by (auto simp: mem_secrets_def fun_eq_iff)

lemma mem_nodes_frame: "mem_nodes (w\<lparr>m_secrets := x\<rparr>) = mem_nodes w"
  by (simp add: mem_nodes_def fun_eq_iff)

interpretation mem: kube_api mem_platform mem_secrets mem_nodes
proof (unfold_locales, goal_cases)
  case (1 ns name w res w')
  then show ?case by (cases "mem_secrets w ns name") auto
next
  case (2 name w nres w')
  then show ?case by (cases "mem_nodes w name") auto
next
  case (3 ns s w cres w')
  show ?case
  proof (cases "mem_secrets w ns (sec_name s)")
    case None
    then have "cres = Inr ()" "w' = w\<lparr>m_secrets := ((ns, sec_name s), s) # m_secrets w\<rparr>"
      using 3 by auto
    then show ?thesis
      using None by (simp add: mem_secrets_insert mem_nodes_frame)
  next
    case (Some x)
    then show ?thesis using 3 by auto
  qed
next
  case (4 w sres w')
  then show ?case by (auto simp: paramSaltLen_def)
next
  case (5 w wt w')
  then show ?case by auto
next
  case (6 w t w')
  then show ?case by (auto simp: mem_secrets_def mem_nodes_def fun_eq_iff)
qed

end
