(* ===== verification/Store.thy ===== *)
theory Store
  imports Kube Go_Strings
begin

text \<open>
  Model of src/internal/nodepassword/store.go: node passwords as Secrets, trust on first use.
  CheckAndSet calls itself when another replica wins the race to create the Secret; the model
  bounds the number of rounds by fuel and shows that two rounds are enough against an API with
  no other writer. The last part splits CheckAndSet into its API calls and lets any number of
  shim replicas interleave.
\<close>

section \<open>The store\<close>

definition Namespace :: string where "Namespace = ''kube-system''"
definition nameSuffix :: string where "nameSuffix = ''.node-password.rke2''"
definition dataKey :: string where "dataKey = ''hash''"

definition SecretName :: "string \<Rightarrow> string" where
  "SecretName node = node @ nameSuffix"

datatype store_error =
    ErrNodeExistsWithoutPassword
  | ErrNoHashKey
  | ErrHash pw_error
  | ErrNodeLookup api_error
  | ErrApi api_error

text \<open>The label every Secret created here carries.\<close>

definition managedByLabel :: "string \<times> string" where
  "managedByLabel = (''app.kubernetes.io/managed-by'', ''rke2-supervisor-shim'')"

definition newSecret :: "string \<Rightarrow> string \<Rightarrow> secret" where
  "newSecret name hash =
     \<lparr>sec_name = name, sec_labels = [managedByLabel], sec_annotations = [], sec_data = [(dataKey, hash)]\<rparr>"

text \<open>The recorded hash, the empty string when the key is missing, as Go reads a nil map entry.\<close>

definition secretHash :: "secret \<Rightarrow> string" where
  "secretHash sec = (case map_of (sec_data sec) dataKey of None \<Rightarrow> [] | Some h \<Rightarrow> h)"

text \<open>
  verifyHash and createHash with the effects they have on the world: the scrypt slot is waited
  for only once the stored string passed its checks, the salt is drawn before the slot.
\<close>

definition verifyHashIO :: "'w platform \<Rightarrow> scrypt_fun \<Rightarrow> string \<Rightarrow> string \<Rightarrow> 'w \<Rightarrow> pw_error option \<times> 'w" where
  "verifyHashIO pf key hash password w =
     (case checkHash hash of
        Inl e \<Rightarrow> (Some e, w)
      | Inr _ \<Rightarrow> (case slotWait pf w of (sw, w') \<Rightarrow> (verifyHash key sw hash password, w')))"

definition createHashIO :: "'w platform \<Rightarrow> scrypt_fun \<Rightarrow> string \<Rightarrow> 'w \<Rightarrow> (pw_error, string) result \<times> 'w" where
  "createHashIO pf key password w =
     (case randSalt pf w of
        (Inl e, w') \<Rightarrow> (Inl (ErrRand e), w')
      | (Inr salt, w') \<Rightarrow>
          (case slotWait pf w' of (sw, w'') \<Rightarrow> (createHash key sw (Inr salt) password, w'')))"

fun CheckAndSet :: "nat \<Rightarrow> 'w platform \<Rightarrow> scrypt_fun \<Rightarrow> string \<Rightarrow> string \<Rightarrow> 'w
    \<Rightarrow> ((store_error, bool) result \<times> 'w) option" where
  "CheckAndSet 0 pf key node password w = None"
| "CheckAndSet (Suc fuel) pf key node password w =
     (let name = SecretName node in
      case getSecret pf Namespace name w of
        (Inr sec, w1) \<Rightarrow>
          (if secretHash sec = [] then Some (Inl ErrNoHashKey, w1)
           else case verifyHashIO pf key (secretHash sec) password w1 of
                  (None, w2) \<Rightarrow> Some (Inr True, w2)
                | (Some ErrMismatch, w2) \<Rightarrow> Some (Inr False, w2)
                | (Some e, w2) \<Rightarrow> Some (Inl (ErrHash e), w2))
      | (Inl NotFound, w1) \<Rightarrow>
          (case getNode pf node w1 of
             (Inr _, w2) \<Rightarrow> Some (Inl ErrNodeExistsWithoutPassword, w2)
           | (Inl NotFound, w2) \<Rightarrow>
               (case createHashIO pf key password w2 of
                  (Inl e, w3) \<Rightarrow> Some (Inl (ErrHash e), w3)
                | (Inr hash, w3) \<Rightarrow>
                    (case createSecret pf Namespace (newSecret name hash) w3 of
                       (Inr _, w4) \<Rightarrow> Some (Inr True, w4)
                     | (Inl AlreadyExists, w4) \<Rightarrow> CheckAndSet fuel pf key node password w4
                     | (Inl e, w4) \<Rightarrow> Some (Inl (ErrApi e), w4)))
           | (Inl e, w2) \<Rightarrow> Some (Inl (ErrNodeLookup e), w2))
      | (Inl e, w1) \<Rightarrow> Some (Inl (ErrApi e), w1))"

declare CheckAndSet.simps [simp del]

section \<open>Lemmas under the API contract\<close>

text \<open>A password is on record for a node when the stored hash verifies with it.\<close>

definition on_record :: "('w \<Rightarrow> string \<Rightarrow> string \<Rightarrow> secret option) \<Rightarrow> scrypt_fun \<Rightarrow> 'w \<Rightarrow> string \<Rightarrow> string \<Rightarrow> bool" where
  "on_record sv key w node password \<longleftrightarrow>
     (\<exists>sec. sv w Namespace (SecretName node) = Some sec \<and> verifyHash key SlotFree (secretHash sec) password = None)"

text \<open>The documented output length of scrypt.Key.\<close>

definition scrypt_len :: "scrypt_fun \<Rightarrow> bool" where
  "scrypt_len key \<longleftrightarrow> (\<forall>pw salt n r p len dk. key pw salt n r p len = Inr dk \<longrightarrow> length dk = len)"

lemma secretHash_new [simp]: "secretHash (newSecret name hash) = hash"
  by (simp add: secretHash_def newSecret_def)

lemma sec_name_new [simp]: "sec_name (newSecret name hash) = name"
  by (simp add: newSecret_def)

lemma verifyHash_SlotFree: "verifyHash key sw hash pw = None \<Longrightarrow> verifyHash key SlotFree hash pw = None"
  by (auto simp: verifyHash_None_iff)

lemma createHash_verifies:
  assumes "createHash key sw (Inr salt) pw = Inr hash" "length salt = paramSaltLen" "scrypt_len key"
  shows "verifyHash key SlotFree hash pw = None"
proof -
  obtain h dk where "checkHash hash = Inr (h, dk)" "hf_salt h = salt" "hf_n h = paramN" "hf_r h = paramR"
    "hf_p h = paramP" "length dk = paramKeyLen" "key pw salt (2 ^ paramN) paramR paramP paramKeyLen = Inr dk"
    using assms by (elim createHash_Inr) (auto simp: scrypt_len_def paramSaltLen_def)
  then show ?thesis by (auto simp: verifyHash_None_iff)
qed

lemma createHash_not_Nil: "createHash key sw salt pw = Inr hash \<Longrightarrow> hash \<noteq> []"
  by (auto simp: createHash_def formatHash_def split: sum.splits)

context kube_api
begin

lemma verifyHashIO_props:
  assumes "verifyHashIO pf key hash pw w = (r, w')"
  shows "sv w' = sv w \<and> nv w' = nv w \<and> (r = None \<longrightarrow> verifyHash key SlotFree hash pw = None) \<and>
    (r = Some ErrMismatch \<longrightarrow> verifyHash key SlotFree hash pw = Some ErrMismatch)"
proof (cases "checkHash hash")
  case (Inl e)
  then show ?thesis
    using assms by (auto simp: verifyHashIO_def verifyHash_def)
next
  case (Inr x)
  obtain sw where sw: "slotWait pf w = (sw, w')" and r: "r = verifyHash key sw hash pw"
    using assms Inr by (auto simp: verifyHashIO_def split: prod.splits)
  have "verifyHash key sw hash pw = Some ErrMismatch \<Longrightarrow> sw = SlotFree"
    using Inr by (cases sw) (auto simp: verifyHash_def runScrypt_def split: sum.splits prod.splits)
  then show ?thesis
    using slot_wait [OF sw] r verifyHash_SlotFree by auto
qed

lemma createHashIO_props:
  assumes "createHashIO pf key pw w = (r, w')"
  shows "sv w' = sv w \<and> nv w' = nv w \<and>
    (\<forall>hash. r = Inr hash \<longrightarrow> hash \<noteq> [] \<and> (scrypt_len key \<longrightarrow> verifyHash key SlotFree hash pw = None))"
proof -
  obtain s w1 where s: "randSalt pf w = (s, w1)" by (cases "randSalt pf w") auto
  show ?thesis
  proof (cases s)
    case (Inl e)
    then show ?thesis using assms s rand_salt [OF s] by (auto simp: createHashIO_def)
  next
    case (Inr salt)
    obtain sw w2 where sw: "slotWait pf w1 = (sw, w2)" by (cases "slotWait pf w1") auto
    have "r = createHash key sw (Inr salt) pw" "w' = w2"
      using assms s sw Inr by (auto simp: createHashIO_def)
    then show ?thesis
      using rand_salt [OF s] slot_wait [OF sw] Inr createHash_verifies createHash_not_Nil by fastforce
  qed
qed

text \<open>
  One call of CheckAndSet, all outcomes at once: where a Secret exists nothing is written and
  the answer is the verification's; where none exists, only a name that is no Node enrols.
\<close>

lemma CheckAndSet_known:
  assumes "CheckAndSet fuel pf key node pw w = Some (res, w')"
    and "sv w Namespace (SecretName node) = Some sec"
  shows "sv w' = sv w \<and> (res = Inr True \<longrightarrow> verifyHash key SlotFree (secretHash sec) pw = None) \<and>
    (res = Inr False \<longrightarrow> verifyHash key SlotFree (secretHash sec) pw = Some ErrMismatch)"
proof -
  obtain n where fuel: "fuel = Suc n"
    using assms(1) by (cases fuel) (auto simp: CheckAndSet.simps)
  obtain g w1 where g: "getSecret pf Namespace (SecretName node) w = (g, w1)"
    by (cases "getSecret pf Namespace (SecretName node) w") auto
  note law = get_secret [OF g]
  show ?thesis
  proof (cases g)
    case (Inl e)
    then show ?thesis
      using assms g law fuel by (cases e) (auto simp: CheckAndSet.simps)
  next
    case (Inr s)
    obtain v w2 where v: "verifyHashIO pf key (secretHash s) pw w1 = (v, w2)"
      by (cases "verifyHashIO pf key (secretHash s) pw w1") auto
    show ?thesis
      using assms g law fuel Inr v verifyHashIO_props [OF v]
      by (auto simp: CheckAndSet.simps Let_def split: if_splits option.splits pw_error.splits)
  qed
qed

text \<open>No Secret is on record: the cases of the first round.\<close>

lemma CheckAndSet_unknown:
  assumes "CheckAndSet fuel pf key node pw w = Some (res, w')"
    and "sv w Namespace (SecretName node) = None"
  shows "(\<exists>e. res = Inl e \<and> sv w' = sv w) \<or>
    (nv w node = None \<and> (\<exists>hash. hash \<noteq> [] \<and>
       (scrypt_len key \<longrightarrow> verifyHash key SlotFree hash pw = None) \<and>
       sv w' = (sv w)(Namespace := (sv w Namespace)(SecretName node \<mapsto> newSecret (SecretName node) hash)) \<and>
       (res = Inr True \<or> (\<exists>e. res = Inl (ErrApi e)))))"
proof -
  obtain n where fuel: "fuel = Suc n"
    using assms(1) by (cases fuel) (auto simp: CheckAndSet.simps)
  obtain g w1 where g: "getSecret pf Namespace (SecretName node) w = (g, w1)"
    by (cases "getSecret pf Namespace (SecretName node) w") auto
  obtain nr w2 where nr: "getNode pf node w1 = (nr, w2)" by (cases "getNode pf node w1") auto
  obtain h w3 where h: "createHashIO pf key pw w2 = (h, w3)"
    by (cases "createHashIO pf key pw w2") auto
  note laws = get_secret [OF g] get_node [OF nr] createHashIO_props [OF h]
  show ?thesis
  proof (cases "g = Inl NotFound \<and> nr = Inl NotFound")
    case False
    then show ?thesis
      using assms g nr laws fuel
      by (auto simp: CheckAndSet.simps Let_def split: sum.splits api_error.splits)
  next
    case True
    show ?thesis
    proof (cases h)
      case (Inl e)
      then show ?thesis
        using assms g nr h laws fuel True by (auto simp: CheckAndSet.simps Let_def)
    next
      case (Inr hash)
      obtain c w4 where c: "createSecret pf Namespace (newSecret (SecretName node) hash) w3 = (c, w4)"
        by (cases "createSecret pf Namespace (newSecret (SecretName node) hash) w3") auto
      have "c \<noteq> Inl AlreadyExists"
        using create_secret [OF c] laws assms(2) True by auto
      then have "w' = w4 \<and> (c = Inr () \<and> res = Inr True \<or> (\<exists>e. c = Inl e \<and> res = Inl (ErrApi e)))"
        using assms(1) g nr h c fuel True Inr
        by (auto simp: CheckAndSet.simps Let_def split: sum.splits api_error.splits)
      then have "w' = w4 \<and> ((\<exists>e. res = Inl e \<and> sv w4 = sv w) \<or>
          sv w4 = (sv w)(Namespace := (sv w Namespace)(SecretName node \<mapsto> newSecret (SecretName node) hash)) \<and>
          (res = Inr True \<or> (\<exists>e. res = Inl (ErrApi e))))"
        using create_secret [OF c] laws by (cases c) (auto split: api_error.splits)
      moreover have "nv w node = None" "hash \<noteq> [] \<and> (scrypt_len key \<longrightarrow> verifyHash key SlotFree hash pw = None)"
        using laws True Inr by auto
      ultimately show ?thesis by blast
    qed
  qed
qed

text \<open>Two rounds always suffice: after AlreadyExists the Secret is there and the next read finds it.\<close>

lemma CheckAndSet_known_returns:
  assumes "sv w Namespace (SecretName node) = Some sec"
  shows "\<exists>res w'. CheckAndSet (Suc n) pf key node pw w = Some (res, w')"
proof -
  obtain g w1 where g: "getSecret pf Namespace (SecretName node) w = (g, w1)"
    by (cases "getSecret pf Namespace (SecretName node) w") auto
  show ?thesis
    using get_secret [OF g] assms g
    by (auto simp: CheckAndSet.simps Let_def split: sum.splits api_error.splits prod.splits option.splits pw_error.splits)
qed

lemma CheckAndSet_returns: "\<exists>res w'. CheckAndSet (Suc (Suc n)) pf key node pw w = Some (res, w')"
proof -
  obtain g w1 where g: "getSecret pf Namespace (SecretName node) w = (g, w1)"
    by (cases "getSecret pf Namespace (SecretName node) w") auto
  obtain nr w2 where nr: "getNode pf node w1 = (nr, w2)" by (cases "getNode pf node w1") auto
  obtain h w3 where h: "createHashIO pf key pw w2 = (h, w3)"
    by (cases "createHashIO pf key pw w2") auto
  show ?thesis
  proof (cases "\<exists>hash w4. g = Inl NotFound \<and> nr = Inl NotFound \<and> h = Inr hash \<and>
      createSecret pf Namespace (newSecret (SecretName node) hash) w3 = (Inl AlreadyExists, w4)")
    case True
    then obtain hash w4 where r: "g = Inl NotFound" "nr = Inl NotFound" "h = Inr hash"
      and c: "createSecret pf Namespace (newSecret (SecretName node) hash) w3 = (Inl AlreadyExists, w4)"
      by blast
    obtain sec where "sv w4 Namespace (SecretName node) = Some sec"
      using create_secret [OF c] by auto
    then obtain res w' where "CheckAndSet (Suc n) pf key node pw w4 = Some (res, w')"
      using CheckAndSet_known_returns by blast
    then show ?thesis
      using g nr h r c by (auto simp: CheckAndSet.simps(2) [where fuel = "Suc n"] Let_def)
  next
    case False
    then show ?thesis
      using g nr h
      by (auto simp: CheckAndSet.simps(2) [where fuel = "Suc n"] Let_def
          split: sum.splits api_error.splits prod.splits option.splits pw_error.splits)
  qed
qed

end

section \<open>The interface the supervisor uses\<close>

text \<open>
  NodePasswordStore of src/internal/supervisor/supervisor.go as a contract: \<open>accepts\<close> is the
  password record a state holds. A call answers true only for a recorded password, answers false
  only for a node known with a different one, and never changes what a known node's record
  accepts nor another node's record.
\<close>

text \<open>Any sequence of requests, in order.\<close>

fun requests :: "(string \<Rightarrow> string \<Rightarrow> 'w \<Rightarrow> 'r \<times> 'w) \<Rightarrow> (string \<times> string) list \<Rightarrow> 'w \<Rightarrow> 'w" where
  "requests cas [] w = w"
| "requests cas ((node, pw) # rs) w = requests cas rs (snd (cas node pw w))"

locale node_password_store =
  fixes cas :: "string \<Rightarrow> string \<Rightarrow> 'w \<Rightarrow> (store_error, bool) result \<times> 'w"
    and accepts :: "'w \<Rightarrow> string \<Rightarrow> string \<Rightarrow> bool"
    and known :: "'w \<Rightarrow> string \<Rightarrow> bool"
  assumes cas_true: "cas node pw w = (Inr True, w') \<Longrightarrow> accepts w' node pw"
    and cas_false: "cas node pw w = (Inr False, w') \<Longrightarrow> known w node \<and> \<not> accepts w node pw"
    and cas_known: "cas node pw w = (res, w') \<Longrightarrow> known w n \<Longrightarrow> known w' n \<and> accepts w' n = accepts w n"
    and accepts_known: "accepts w node pw \<Longrightarrow> known w node"
begin

lemma requests_known: "known w n \<Longrightarrow> known (requests cas rs w) n \<and> accepts (requests cas rs w) n = accepts w n"
proof (induction rs arbitrary: w)
  case Nil
  then show ?case by simp
next
  case (Cons a rs)
  obtain node pw where a: "a = (node, pw)" by (cases a)
  have "known (snd (cas node pw w)) n \<and> accepts (snd (cas node pw w)) n = accepts w n"
    using cas_known [of node pw w "fst (cas node pw w)"] Cons.prems by simp
  then show ?case using Cons.IH a by simp
qed

text \<open>Once a password was accepted for a node, later requests see the same record.\<close>

lemma accepted_is_final:
  assumes "cas node pw w = (Inr True, w1)" and "cas node pw' (requests cas rs w1) = (Inr True, w2)"
  shows "accepts w1 node pw' \<and> accepts w2 node pw"
proof -
  let ?r = "requests cas rs w1"
  have k: "known w1 node" using cas_true [OF assms(1)] accepts_known by blast
  have r: "known ?r node \<and> accepts ?r node = accepts w1 node" by (rule requests_known [OF k])
  then have "accepts w2 node = accepts ?r node"
    using cas_known [OF assms(2), of node] by blast
  then show ?thesis
    using cas_true [OF assms(1)] cas_true [OF assms(2)] r by simp
qed

end

text \<open>
  SecretStore.CheckAndSet as the supervisor calls it: two rounds suffice without racing
  writers; a call that keeps losing the race ends with the deadline of its context.
\<close>

definition storeCheckAndSet :: "'w platform \<Rightarrow> scrypt_fun \<Rightarrow> string \<Rightarrow> string \<Rightarrow> 'w
    \<Rightarrow> (store_error, bool) result \<times> 'w" where
  "storeCheckAndSet pf key node pw w =
     (case CheckAndSet 2 pf key node pw w of
        Some r \<Rightarrow> r
      | None \<Rightarrow> (Inl (ErrApi (ApiFailure ''context deadline exceeded'')), w))"

lemma SecretName_inj: "SecretName a = SecretName b \<longleftrightarrow> a = b"
  by (simp add: SecretName_def)

definition has_secret :: "('w \<Rightarrow> string \<Rightarrow> string \<Rightarrow> secret option) \<Rightarrow> 'w \<Rightarrow> string \<Rightarrow> bool" where
  "has_secret sv w node \<longleftrightarrow> sv w Namespace (SecretName node) \<noteq> None"

locale secret_store = kube_api +
  fixes key :: scrypt_fun
  assumes key_len: "scrypt_len key"
begin

lemma store_CheckAndSet: "\<exists>res w'. storeCheckAndSet pf key node pw w = (res, w') \<and>
    CheckAndSet 2 pf key node pw w = Some (res, w')"
  using CheckAndSet_returns [of 0 key node pw w]
  by (auto simp: storeCheckAndSet_def numeral_2_eq_2)

lemma store_frame:
  assumes "storeCheckAndSet pf key node pw w = (res, w')"
  shows "sv w' = sv w \<or> (sv w Namespace (SecretName node) = None \<and>
    (\<exists>s. sv w' = (sv w)(Namespace := (sv w Namespace)(SecretName node \<mapsto> s))))"
proof -
  have c: "CheckAndSet 2 pf key node pw w = Some (res, w')"
    using store_CheckAndSet [of node pw w] assms by auto
  show ?thesis
    using CheckAndSet_known [OF c] CheckAndSet_unknown [OF c]
    by (cases "sv w Namespace (SecretName node)") auto
qed

end

sublocale secret_store \<subseteq> sto: node_password_store "storeCheckAndSet pf key" "on_record sv key" "has_secret sv"
proof (unfold_locales, goal_cases)
  case (1 node pw w w')
  have c: "CheckAndSet 2 pf key node pw w = Some (Inr True, w')"
    using store_CheckAndSet [of node pw w] 1 by auto
  show ?case
    using CheckAndSet_known [OF c] CheckAndSet_unknown [OF c] key_len
    by (cases "sv w Namespace (SecretName node)") (auto simp: on_record_def)
next
  case (2 node pw w w')
  have c: "CheckAndSet 2 pf key node pw w = Some (Inr False, w')"
    using store_CheckAndSet [of node pw w] 2 by auto
  show ?case
    using CheckAndSet_known [OF c] CheckAndSet_unknown [OF c]
    by (cases "sv w Namespace (SecretName node)") (auto simp: on_record_def has_secret_def)
next
  case (3 node pw w res w' n)
  then show ?case
    using store_frame [OF 3(1)]
    by (auto simp: has_secret_def on_record_def SecretName_inj fun_eq_iff split: if_splits)
next
  case (4 w node pw)
  then show ?case by (auto simp: on_record_def has_secret_def)
qed

context secret_store
begin

lemmas axioms_store = sto.node_password_store_axioms

end

text \<open>A stand-in for scrypt with its documented output length: it pads or cuts salt and password.\<close>

definition pad_key :: scrypt_fun where
  "pad_key pw salt n r p len = Inr (take len (pw @ salt @ replicate len (CHR 0x00)))"

interpretation mem_store: secret_store mem_platform mem_secrets mem_nodes pad_key
  by unfold_locales (auto simp: scrypt_len_def pad_key_def)

section \<open>Racing replicas\<close>

text \<open>
  Every control plane runs a shim, and they share the Secrets. \<open>cas_step\<close> is CheckAndSet cut
  at its API calls: the program counter says which call comes next. Each call may fail; a
  create that fails may still have been stored. \<open>shims_step\<close> interleaves any number of
  requests with other writers: Nodes come and go, and another supervisor may create a
  password Secret. Deleting or replacing a Secret is the operator's act that starts a new
  life of the name and is not a step.
\<close>

datatype cas_pc =
    PcStart
  | PcNodeCheck
  | PcHash
  | PcCreate string
  | PcDone "(store_error, bool) result"

record cluster =
  cl_secrets :: "string \<rightharpoonup> secret"
  cl_nodes :: "string \<Rightarrow> bool"

record request =
  rq_node :: string
  rq_pw :: string
  rq_pc :: cas_pc

fun verdict :: "pw_error option \<Rightarrow> (store_error, bool) result" where
  "verdict None = Inr True"
| "verdict (Some ErrMismatch) = Inr False"
| "verdict (Some e) = Inl (ErrHash e)"

inductive cas_step :: "scrypt_fun \<Rightarrow> cluster \<times> request \<Rightarrow> cluster \<times> request \<Rightarrow> bool" for key where
  get_no_hash: "rq_pc r = PcStart \<Longrightarrow> cl_secrets c (SecretName (rq_node r)) = Some sec \<Longrightarrow> secretHash sec = [] \<Longrightarrow>
    cas_step key (c, r) (c, r\<lparr>rq_pc := PcDone (Inl ErrNoHashKey)\<rparr>)"
| get_found: "rq_pc r = PcStart \<Longrightarrow> cl_secrets c (SecretName (rq_node r)) = Some sec \<Longrightarrow> secretHash sec \<noteq> [] \<Longrightarrow>
    cas_step key (c, r) (c, r\<lparr>rq_pc := PcDone (verdict (verifyHash key sw (secretHash sec) (rq_pw r)))\<rparr>)"
| get_not_found: "rq_pc r = PcStart \<Longrightarrow> cl_secrets c (SecretName (rq_node r)) = None \<Longrightarrow>
    cas_step key (c, r) (c, r\<lparr>rq_pc := PcNodeCheck\<rparr>)"
| get_failed: "rq_pc r = PcStart \<Longrightarrow> cas_step key (c, r) (c, r\<lparr>rq_pc := PcDone (Inl (ErrApi e))\<rparr>)"
| node_exists: "rq_pc r = PcNodeCheck \<Longrightarrow> cl_nodes c (rq_node r) \<Longrightarrow>
    cas_step key (c, r) (c, r\<lparr>rq_pc := PcDone (Inl ErrNodeExistsWithoutPassword)\<rparr>)"
| node_absent: "rq_pc r = PcNodeCheck \<Longrightarrow> \<not> cl_nodes c (rq_node r) \<Longrightarrow>
    cas_step key (c, r) (c, r\<lparr>rq_pc := PcHash\<rparr>)"
| node_failed: "rq_pc r = PcNodeCheck \<Longrightarrow> cas_step key (c, r) (c, r\<lparr>rq_pc := PcDone (Inl (ErrNodeLookup e))\<rparr>)"
| hash_made: "rq_pc r = PcHash \<Longrightarrow> length salt = paramSaltLen \<Longrightarrow>
    createHash key sw (Inr salt) (rq_pw r) = Inr hash \<Longrightarrow> cas_step key (c, r) (c, r\<lparr>rq_pc := PcCreate hash\<rparr>)"
| hash_failed: "rq_pc r = PcHash \<Longrightarrow> cas_step key (c, r) (c, r\<lparr>rq_pc := PcDone (Inl (ErrHash he))\<rparr>)"
| create_done: "rq_pc r = PcCreate hash \<Longrightarrow> cl_secrets c (SecretName (rq_node r)) = None \<Longrightarrow>
    cas_step key (c, r) (c\<lparr>cl_secrets := (cl_secrets c)(SecretName (rq_node r) \<mapsto> newSecret (SecretName (rq_node r)) hash)\<rparr>,
      r\<lparr>rq_pc := PcDone (Inr True)\<rparr>)"
| create_exists: "rq_pc r = PcCreate hash \<Longrightarrow> cl_secrets c (SecretName (rq_node r)) \<noteq> None \<Longrightarrow>
    cas_step key (c, r) (c, r\<lparr>rq_pc := PcStart\<rparr>)"
| create_failed: "rq_pc r = PcCreate hash \<Longrightarrow> cas_step key (c, r) (c, r\<lparr>rq_pc := PcDone (Inl (ErrApi e))\<rparr>)"
| create_lost: "rq_pc r = PcCreate hash \<Longrightarrow> cl_secrets c (SecretName (rq_node r)) = None \<Longrightarrow>
    cas_step key (c, r) (c\<lparr>cl_secrets := (cl_secrets c)(SecretName (rq_node r) \<mapsto> newSecret (SecretName (rq_node r)) hash)\<rparr>,
      r\<lparr>rq_pc := PcDone (Inl (ErrApi e))\<rparr>)"

inductive_cases cas_stepE: "cas_step key (c, r) (c', r')"

record shims =
  sh_cluster :: cluster
  sh_requests :: "request list"

inductive shims_step :: "scrypt_fun \<Rightarrow> shims \<Rightarrow> shims \<Rightarrow> bool" for key where
  shim_moves: "i < length (sh_requests s) \<Longrightarrow> cas_step key (sh_cluster s, sh_requests s ! i) (c', r') \<Longrightarrow>
    shims_step key s \<lparr>sh_cluster = c', sh_requests = (sh_requests s)[i := r']\<rparr>"
| request_arrives: "shims_step key s
    (s\<lparr>sh_requests := sh_requests s @ [\<lparr>rq_node = n, rq_pw = p, rq_pc = PcStart\<rparr>]\<rparr>)"
| nodes_change: "shims_step key s (s\<lparr>sh_cluster := (sh_cluster s)\<lparr>cl_nodes := ns\<rparr>\<rparr>)"
| other_enrols: "cl_secrets (sh_cluster s) name = None \<Longrightarrow>
    shims_step key s (s\<lparr>sh_cluster := (sh_cluster s)\<lparr>cl_secrets := (cl_secrets (sh_cluster s))(name \<mapsto> sec)\<rparr>\<rparr>)"

inductive shims_reach :: "scrypt_fun \<Rightarrow> shims \<Rightarrow> bool" for key where
  shims_start: "shims_reach key \<lparr>sh_cluster = c, sh_requests = []\<rparr>"
| shims_more: "shims_reach key s \<Longrightarrow> shims_step key s t \<Longrightarrow> shims_reach key t"

text \<open>
  The invariant: a request that was answered true has its password on record, and a hash about
  to be stored verifies with the password of its request.
\<close>

definition recorded :: "scrypt_fun \<Rightarrow> cluster \<Rightarrow> string \<Rightarrow> string \<Rightarrow> bool" where
  "recorded key c node pw \<longleftrightarrow>
     (\<exists>sec. cl_secrets c (SecretName node) = Some sec \<and> verifyHash key SlotFree (secretHash sec) pw = None)"

definition request_inv :: "scrypt_fun \<Rightarrow> cluster \<Rightarrow> request \<Rightarrow> bool" where
  "request_inv key c r \<longleftrightarrow>
     (rq_pc r = PcDone (Inr True) \<longrightarrow> recorded key c (rq_node r) (rq_pw r)) \<and>
     (\<forall>hash. rq_pc r = PcCreate hash \<longrightarrow> verifyHash key SlotFree hash (rq_pw r) = None)"

lemma verdict_True: "verdict v = Inr True \<longleftrightarrow> v = None"
  by (cases v rule: verdict.cases) auto

lemma cas_step_own:
  assumes "cas_step key (c, r) (c', r')" "request_inv key c r" "scrypt_len key"
  shows "request_inv key c' r'"
  using assms(1)
proof (cases rule: cas_step.cases)
  case (get_found sec sw)
  then show ?thesis
    by (auto simp: request_inv_def recorded_def verdict_True dest: verifyHash_SlotFree)
next
  case (hash_made salt sw hash)
  then show ?thesis
    using createHash_verifies [of key sw salt "rq_pw r" hash] assms(3) by (simp add: request_inv_def)
next
  case (create_done hash)
  then show ?thesis using assms(2) by (auto simp: request_inv_def recorded_def)
qed (auto simp: request_inv_def)

text \<open>No step replaces a stored Secret.\<close>

lemma cas_step_keeps:
  "cas_step key (c, r) (c', r') \<Longrightarrow> cl_secrets c name = Some sec \<Longrightarrow> cl_secrets c' name = Some sec"
  by (erule cas_stepE) auto

lemma request_inv_mono:
  "request_inv key c r \<Longrightarrow> (\<And>name sec. cl_secrets c name = Some sec \<Longrightarrow> cl_secrets c' name = Some sec) \<Longrightarrow>
     request_inv key c' r"
  by (auto simp: request_inv_def recorded_def)

lemma shims_step_keeps:
  "shims_step key s t \<Longrightarrow> cl_secrets (sh_cluster s) name = Some sec \<Longrightarrow> cl_secrets (sh_cluster t) name = Some sec"
  by (induction rule: shims_step.induct) (auto dest: cas_step_keeps)

lemma shims_step_inv:
  assumes "shims_step key s t" "scrypt_len key"
    and "\<forall>r \<in> set (sh_requests s). request_inv key (sh_cluster s) r"
  shows "\<forall>r \<in> set (sh_requests t). request_inv key (sh_cluster t) r"
proof -
  have mono: "request_inv key (sh_cluster t) r" if "r \<in> set (sh_requests s)" for r
    using assms(3) that shims_step_keeps [OF assms(1)] by (blast intro: request_inv_mono)
  show ?thesis
    using assms(1)
  proof (cases rule: shims_step.cases)
    case (shim_moves i c' r')
    then have "request_inv key c' r'"
      using cas_step_own assms(2,3) nth_mem by blast
    then show ?thesis
      using shim_moves mono set_update_subset_insert [of "sh_requests s" i r'] by auto
  next
    case (request_arrives n p)
    then show ?thesis using mono by (auto simp: request_inv_def)
  qed (use mono in auto)
qed

lemma shims_reach_inv:
  "shims_reach key s \<Longrightarrow> scrypt_len key \<Longrightarrow> \<forall>r \<in> set (sh_requests s). request_inv key (sh_cluster s) r"
  by (induction rule: shims_reach.induct) (auto dest: shims_step_inv)

text \<open>CheckAndSet, run alone against an API that keeps its contract, is a run of these steps.\<close>

definition cluster_of :: "('w \<Rightarrow> string \<Rightarrow> string \<Rightarrow> secret option) \<Rightarrow> ('w \<Rightarrow> string \<Rightarrow> node option) \<Rightarrow> 'w \<Rightarrow> cluster" where
  "cluster_of sv nv w = \<lparr>cl_secrets = sv w Namespace, cl_nodes = (\<lambda>n. nv w n \<noteq> None)\<rparr>"

lemma cluster_of_sel [simp]:
  "cl_secrets (cluster_of sv nv w) = sv w Namespace"
  "cl_nodes (cluster_of sv nv w) n \<longleftrightarrow> nv w n \<noteq> None"
  by (simp_all add: cluster_of_def)

lemma cluster_of_cong: "sv w' = sv w \<Longrightarrow> nv w' = nv w \<Longrightarrow> cluster_of sv nv w' = cluster_of sv nv w"
  by (simp add: cluster_of_def)

lemma cluster_of_create:
  "sv w' = (sv w)(Namespace := (sv w Namespace)(name \<mapsto> s)) \<Longrightarrow> nv w' = nv w \<Longrightarrow>
     cluster_of sv nv w' = (cluster_of sv nv w)\<lparr>cl_secrets := (sv w Namespace)(name \<mapsto> s)\<rparr>"
  by (simp add: cluster_of_def)

abbreviation cas_run :: "scrypt_fun \<Rightarrow> cluster \<times> request \<Rightarrow> cluster \<times> request \<Rightarrow> bool" where
  "cas_run key \<equiv> (cas_step key)\<^sup>*\<^sup>*"

abbreviation asking :: "string \<Rightarrow> string \<Rightarrow> cas_pc \<Rightarrow> request" where
  "asking node pw pc \<equiv> \<lparr>rq_node = node, rq_pw = pw, rq_pc = pc\<rparr>"

context kube_api
begin

lemma verify_run:
  assumes "verifyHashIO pf key (secretHash sec) pw w = (v, w')"
    and "sv w Namespace (SecretName node) = Some sec" "secretHash sec \<noteq> []"
  shows "cas_run key (cluster_of sv nv w, asking node pw PcStart)
    (cluster_of sv nv w', asking node pw (PcDone (verdict v)))"
proof -
  obtain sw where v: "v = verifyHash key sw (secretHash sec) pw"
    using assms(1)
    by (cases "checkHash (secretHash sec)")
      (auto simp: verifyHashIO_def verifyHash_def [of _ _ "secretHash sec"] split: prod.splits)
  have "cluster_of sv nv w' = cluster_of sv nv w"
    using verifyHashIO_props [OF assms(1)] by (intro cluster_of_cong) auto
  then show ?thesis
    using get_found [of "asking node pw PcStart" "cluster_of sv nv w" sec key sw] assms(2,3) v by simp
qed

lemma create_run:
  assumes c: "createSecret pf Namespace (newSecret (SecretName node) hash) w = (c, w')"
  shows "case c of
      Inr _ \<Rightarrow> cas_step key (cluster_of sv nv w, asking node pw (PcCreate hash))
        (cluster_of sv nv w', asking node pw (PcDone (Inr True)))
    | Inl AlreadyExists \<Rightarrow> cas_step key (cluster_of sv nv w, asking node pw (PcCreate hash))
        (cluster_of sv nv w', asking node pw PcStart)
    | Inl e \<Rightarrow> cas_step key (cluster_of sv nv w, asking node pw (PcCreate hash))
        (cluster_of sv nv w', asking node pw (PcDone (Inl (ErrApi e))))"
proof -
  let ?r = "asking node pw (PcCreate hash)" and ?c = "cluster_of sv nv w"
  note law = create_secret [OF c]
  show ?thesis
  proof (cases c)
    case (Inr u)
    then show ?thesis
      using law create_done [of ?r hash ?c key]
        cluster_of_create [of sv w' w "SecretName node" "newSecret (SecretName node) hash" nv] by simp
  next
    case (Inl e)
    show ?thesis
    proof (cases e)
      case (ApiFailure m)
      then show ?thesis
        using law Inl create_failed [of ?r hash key ?c e] create_lost [of ?r hash ?c key e]
          cluster_of_cong [of sv w' w nv]
          cluster_of_create [of sv w' w "SecretName node" "newSecret (SecretName node) hash" nv] by auto
    qed (use law Inl create_failed [of ?r hash key ?c e] create_exists [of ?r hash ?c key]
          cluster_of_cong [of sv w' w nv] in auto)
  qed
qed

lemma hash_step:
  assumes "createHashIO pf key pw w = (Inr hash, w')"
  shows "cas_step key (c, asking node pw PcHash) (c, asking node pw (PcCreate hash))"
proof -
  obtain salt w1 sw where s: "randSalt pf w = (Inr salt, w1)" "createHash key sw (Inr salt) pw = Inr hash"
    using assms by (auto simp: createHashIO_def split: prod.splits sum.splits)
  then show ?thesis
    using rand_salt [OF s(1)] hash_made [of "asking node pw PcHash" salt key sw hash c] by simp
qed

lemma enrol_run:
  assumes "(case getNode pf node w of
             (Inr _, w2) \<Rightarrow> Some (Inl ErrNodeExistsWithoutPassword, w2)
           | (Inl NotFound, w2) \<Rightarrow>
               (case createHashIO pf key pw w2 of
                  (Inl e, w3) \<Rightarrow> Some (Inl (ErrHash e), w3)
                | (Inr hash, w3) \<Rightarrow>
                    (case createSecret pf Namespace (newSecret (SecretName node) hash) w3 of
                       (Inr _, w4) \<Rightarrow> Some (Inr True, w4)
                     | (Inl AlreadyExists, w4) \<Rightarrow> again w4
                     | (Inl e, w4) \<Rightarrow> Some (Inl (ErrApi e), w4)))
           | (Inl e, w2) \<Rightarrow> Some (Inl (ErrNodeLookup e), w2)) = Some (res, w')"
    and again: "\<And>v. again v = Some (res, w') \<Longrightarrow> cas_run key (cluster_of sv nv v, asking node pw PcStart)
      (cluster_of sv nv w', asking node pw (PcDone res))"
  shows "cas_run key (cluster_of sv nv w, asking node pw PcNodeCheck)
    (cluster_of sv nv w', asking node pw (PcDone res))"
proof -
  let ?c = "cluster_of sv nv w"
  obtain nr w2 where nr: "getNode pf node w = (nr, w2)" by (cases "getNode pf node w") auto
  obtain h w3 where h: "createHashIO pf key pw w2 = (h, w3)" by (cases "createHashIO pf key pw w2") auto
  have c: "cluster_of sv nv w2 = ?c" "cluster_of sv nv w3 = ?c"
    using get_node [OF nr] createHashIO_props [OF h] by (auto intro!: cluster_of_cong)
  show ?thesis
  proof (cases "nr = Inl NotFound")
    case False
    then show ?thesis
      using assms(1) nr c get_node [OF nr] node_exists [of "asking node pw PcNodeCheck" ?c key]
        node_failed [of "asking node pw PcNodeCheck" key ?c]
      by (auto split: sum.splits api_error.splits)
  next
    case True
    then have absent: "cas_step key (?c, asking node pw PcNodeCheck) (?c, asking node pw PcHash)"
      using node_absent [of "asking node pw PcNodeCheck" ?c key] get_node [OF nr] by auto
    have "cas_run key (?c, asking node pw PcHash) (cluster_of sv nv w', asking node pw (PcDone res))"
    proof (cases h)
      case (Inl e)
      then show ?thesis
        using assms(1) nr h True c hash_failed [of "asking node pw PcHash" key ?c e] by auto
    next
      case (Inr hash)
      have made: "cas_step key (?c, asking node pw PcHash) (?c, asking node pw (PcCreate hash))"
        using hash_step [OF h [unfolded Inr]] by simp
      obtain cr w4 where cr: "createSecret pf Namespace (newSecret (SecretName node) hash) w3 = (cr, w4)"
        by (cases "createSecret pf Namespace (newSecret (SecretName node) hash) w3") auto
      have "cas_run key (?c, asking node pw (PcCreate hash)) (cluster_of sv nv w', asking node pw (PcDone res))"
        using assms(1) nr h True Inr cr c create_run [OF cr, of key pw] again [of w4]
        by (auto split: sum.splits api_error.splits intro: converse_rtranclp_into_rtranclp)
      then show ?thesis using made by (rule converse_rtranclp_into_rtranclp [rotated])
    qed
    then show ?thesis using absent by (rule converse_rtranclp_into_rtranclp [rotated])
  qed
qed

lemma CheckAndSet_run:
  assumes "CheckAndSet fuel pf key node pw w = Some (res, w')"
  shows "cas_run key (cluster_of sv nv w, asking node pw PcStart)
    (cluster_of sv nv w', asking node pw (PcDone res))"
  using assms
proof (induction fuel arbitrary: w)
  case 0
  then show ?case by (simp add: CheckAndSet.simps)
next
  case (Suc n)
  let ?c = "cluster_of sv nv w"
  obtain g w1 where g: "getSecret pf Namespace (SecretName node) w = (g, w1)"
    by (cases "getSecret pf Namespace (SecretName node) w") auto
  have w1: "cluster_of sv nv w1 = ?c" using get_secret [OF g] by (intro cluster_of_cong) auto
  show ?case
  proof (cases g)
    case (Inr sec)
    have sec: "sv w Namespace (SecretName node) = Some sec" "sv w1 Namespace (SecretName node) = Some sec"
      using get_secret [OF g] Inr by auto
    obtain v w2 where v: "verifyHashIO pf key (secretHash sec) pw w1 = (v, w2)"
      by (cases "verifyHashIO pf key (secretHash sec) pw w1") auto
    show ?thesis
    proof (cases "secretHash sec = []")
      case True
      then have "res = Inl ErrNoHashKey" "w' = w1"
        using Suc.prems g Inr by (auto simp: CheckAndSet.simps Let_def)
      then show ?thesis
        using get_no_hash [of "asking node pw PcStart" ?c sec key] sec True w1 by auto
    next
      case False
      then have "res = verdict v" "w' = w2"
        using Suc.prems g Inr v by (auto simp: CheckAndSet.simps Let_def split: option.splits pw_error.splits)
      then show ?thesis
        using verify_run [OF v sec(2) False] w1 by simp
    qed
  next
    case (Inl e)
    show ?thesis
    proof (cases "e = NotFound")
      case False
      then have "res = Inl (ErrApi e)" "w' = w1"
        using Suc.prems g Inl by (auto simp: CheckAndSet.simps Let_def split: api_error.splits)
      then show ?thesis
        using get_failed [of "asking node pw PcStart" key ?c e] w1 by auto
    next
      case True
      then have absent: "cas_step key (?c, asking node pw PcStart) (?c, asking node pw PcNodeCheck)"
        using get_not_found [of "asking node pw PcStart" ?c key] get_secret [OF g] Inl by auto
      have rest: "cas_run key (?c, asking node pw PcNodeCheck) (cluster_of sv nv w', asking node pw (PcDone res))"
        using enrol_run [where w = w1 and again = "CheckAndSet n pf key node pw"] Suc.prems g Inl True Suc.IH w1
        by (simp add: CheckAndSet.simps Let_def)
      show ?thesis using absent rest by (rule converse_rtranclp_into_rtranclp)
    qed
  qed
qed

end

text \<open>Runs of one request inside the interleaving.\<close>

lemma shims_reach_run:
  assumes "shims_reach key s" "i < length (sh_requests s)"
    and "cas_run key (sh_cluster s, sh_requests s ! i) (c', r')"
  shows "shims_reach key \<lparr>sh_cluster = c', sh_requests = (sh_requests s)[i := r']\<rparr>"
  using assms(3)
proof (induction "(c', r')" arbitrary: c' r' rule: rtranclp_induct)
  case base
  then show ?case using assms(1,2) by (cases s) simp
next
  case (step y)
  obtain c1 r1 where y: "y = (c1, r1)" by (cases y)
  show ?case
    using shims_more [OF step(3) [OF y] shim_moves [of i]] step(2) y assms(2) by simp
qed

lemma hash_run:
  assumes "cl_secrets c (SecretName node) = None" "\<not> cl_nodes c node"
    and "length salt = paramSaltLen" "createHash key sw (Inr salt) pw = Inr hash"
  shows "cas_run key (c, asking node pw PcStart) (c, asking node pw (PcCreate hash))"
proof -
  have "cas_step key (c, asking node pw PcStart) (c, asking node pw PcNodeCheck)"
    using get_not_found [of "asking node pw PcStart" c key] assms(1) by simp
  moreover have "cas_step key (c, asking node pw PcNodeCheck) (c, asking node pw PcHash)"
    using node_absent [of "asking node pw PcNodeCheck" c key] assms(2) by simp
  moreover have "cas_step key (c, asking node pw PcHash) (c, asking node pw (PcCreate hash))"
    using hash_made [of "asking node pw PcHash" salt key sw hash c] assms(3,4) by simp
  ultimately show ?thesis
    by (meson r_into_rtranclp rtranclp.rtrancl_into_rtrancl)
qed

text \<open>The in-memory cluster enrols a new name and recognises a recorded password.\<close>

lemma mem_enrols:
  assumes "mem_secrets w Namespace (SecretName node) = None" "mem_nodes w node = None"
  shows "\<exists>sec. CheckAndSet (Suc n) mem_platform pad_key node pw w =
    Some (Inr True, w\<lparr>m_secrets := ((Namespace, SecretName node), sec) # m_secrets w\<rparr>)"
proof -
  obtain hash where h: "createHashIO mem_platform pad_key pw w = (Inr hash, w)"
    by (simp add: createHashIO_def createHash_def runScrypt_def pad_key_def)
  show ?thesis
    using assms h by (intro exI [of _ "newSecret (SecretName node) hash"]) (simp add: CheckAndSet.simps Let_def)
qed

lemma mem_recognises:
  assumes "on_record mem_secrets key w node pw"
  shows "CheckAndSet (Suc n) mem_platform key node pw w = Some (Inr True, w)"
proof -
  obtain sec where s: "mem_secrets w Namespace (SecretName node) = Some sec"
    and v: "verifyHash key SlotFree (secretHash sec) pw = None"
    using assms by (auto simp: on_record_def)
  have "verifyHash key SlotFree [] pw \<noteq> None"
    by (simp add: verifyHash_def checkHash_def formatHash_def split: option.splits)
  then have "secretHash sec \<noteq> []" using v by metis
  moreover have "verifyHashIO mem_platform key (secretHash sec) pw w = (None, w)"
    using v by (auto simp: verifyHashIO_def verifyHash_def split: sum.splits)
  ultimately show ?thesis using s by (simp add: CheckAndSet.simps Let_def)
qed

lemma mem_empty_sel [simp]: "mem_secrets mem_empty ns name = None" "mem_nodes mem_empty n = None"
  by (simp_all add: mem_empty_def mem_secrets_def mem_nodes_def)

section \<open>What the store guarantees\<close>

text \<open>
  (C5) Trust on first use. When CheckAndSet answers true, the Secret of that node verifies with
  the password presented; and either that was so before the call, which then wrote nothing, or
  the name had neither a Secret nor a Node object and the call created exactly that one Secret.
\<close>

theorem CheckAndSet_accepts:
  assumes "kube_api pf sv nv" "scrypt_len key"
    and "CheckAndSet fuel pf key node pw w = Some (Inr True, w')"
  shows "on_record sv key w' node pw \<and>
    (on_record sv key w node pw \<and> sv w' = sv w \<or>
     sv w Namespace (SecretName node) = None \<and> nv w node = None \<and>
     (\<exists>hash. sv w' = (sv w)(Namespace := (sv w Namespace)(SecretName node \<mapsto> newSecret (SecretName node) hash))))"
  using kube_api.CheckAndSet_known [OF assms(1,3)] kube_api.CheckAndSet_unknown [OF assms(1,3)] assms(2)
  by (cases "sv w Namespace (SecretName node)") (auto simp: on_record_def)

theorem CheckAndSet_accepts_witness:
  "\<exists>w'. CheckAndSet 2 mem_platform pad_key ''node-1'' ''secret'' mem_empty = Some (Inr True, w') \<and>
     on_record mem_secrets pad_key w' ''node-1'' ''secret''"
proof -
  obtain w' where c: "CheckAndSet 2 mem_platform pad_key ''node-1'' ''secret'' mem_empty = Some (Inr True, w')"
    using mem_enrols [of mem_empty "''node-1''" 1 "''secret''"] by (auto simp: numeral_2_eq_2)
  show ?thesis
    using CheckAndSet_accepts [OF mem.kube_api_axioms mem_store.key_len c] c by blast
qed

text \<open>
  (C6) No takeover. For a name that has a Secret or is already a Node, CheckAndSet writes no
  Secret whatever its outcome, and answers true only when the recorded hash verifies with the
  password presented; it answers false only for a recorded hash that does not.
\<close>

theorem CheckAndSet_no_takeover:
  assumes "kube_api pf sv nv" "CheckAndSet fuel pf key node pw w = Some (res, w')"
    and "sv w Namespace (SecretName node) \<noteq> None \<or> nv w node \<noteq> None"
  shows "sv w' = sv w \<and> (res = Inr True \<longrightarrow> on_record sv key w node pw) \<and>
    (res = Inr False \<longrightarrow> sv w Namespace (SecretName node) \<noteq> None \<and> \<not> on_record sv key w node pw)"
  using kube_api.CheckAndSet_known [OF assms(1,2)] kube_api.CheckAndSet_unknown [OF assms(1,2)] assms(3)
  by (cases "sv w Namespace (SecretName node)") (auto simp: on_record_def)

theorem CheckAndSet_no_takeover_witness:
  "let n = \<lparr>node_name = ''cp-1'', node_labels = [], node_addresses = [], node_conditions = []\<rparr>;
       w = mem_empty\<lparr>m_nodes := [(''cp-1'', n)]\<rparr>
   in CheckAndSet 2 mem_platform pad_key ''cp-1'' ''secret'' w = Some (Inl ErrNodeExistsWithoutPassword, w) \<and>
      mem_secrets w = mem_secrets mem_empty"
proof -
  let ?w = "mem_empty\<lparr>m_nodes := [(''cp-1'', \<lparr>node_name = ''cp-1'', node_labels = [], node_addresses = [],
    node_conditions = []\<rparr>)]\<rparr>"
  have c: "CheckAndSet 2 mem_platform pad_key ''cp-1'' ''secret'' ?w = Some (Inl ErrNodeExistsWithoutPassword, ?w)"
    by (simp add: CheckAndSet.simps numeral_2_eq_2 Let_def mem_secrets_def mem_nodes_def mem_empty_def)
  have "mem_secrets ?w = mem_secrets ?w"
    using CheckAndSet_no_takeover [OF mem.kube_api_axioms c] by (simp add: mem_nodes_def)
  then show ?thesis
    using c by (simp add: mem_secrets_def fun_eq_iff mem_empty_def)
qed

text \<open>
  CheckAndSet ends: against an API that keeps its contract two rounds are enough, since a
  create that found the Secret existing is followed by a read that finds it.
\<close>

lemma CheckAndSet_terminates:
  assumes "kube_api pf sv nv"
  shows "\<exists>res w'. CheckAndSet (Suc (Suc n)) pf key node pw w = Some (res, w')"
  by (rule kube_api.CheckAndSet_returns [OF assms])

text \<open>
  An accepted password is final. After a password was accepted for a node and any further
  requests were served, another password is accepted for the node only if the record made at
  the first acceptance verifies with it, and that record still verifies with the first one.
\<close>

lemma accepted_password_final:
  assumes "secret_store pf sv nv key"
    and "storeCheckAndSet pf key node pw w = (Inr True, w1)"
    and "storeCheckAndSet pf key node pw' (requests (storeCheckAndSet pf key) rs w1) = (Inr True, w2)"
  shows "on_record sv key w1 node pw' \<and> on_record sv key w2 node pw"
proof -
  have "node_password_store (storeCheckAndSet pf key) (on_record sv key) (has_secret sv)"
    by (rule secret_store.axioms_store [OF assms(1)])
  then show ?thesis
    using assms(2,3) by (rule node_password_store.accepted_is_final)
qed

text \<open>
  (C7) Racing replicas agree. In every state reachable by any interleaving of the API calls of
  any number of CheckAndSet calls on several shims, with failing calls, creates whose answer was
  lost, Nodes coming and going and other writers enrolling names, all passwords answered true
  for one node verify against one and the same stored hash.
\<close>

theorem replicas_agree:
  assumes "shims_reach key s" "scrypt_len key"
    and "r1 \<in> set (sh_requests s)" "rq_pc r1 = PcDone (Inr True)"
    and "r2 \<in> set (sh_requests s)" "rq_pc r2 = PcDone (Inr True)" "rq_node r2 = rq_node r1"
  shows "\<exists>sec. cl_secrets (sh_cluster s) (SecretName (rq_node r1)) = Some sec \<and>
    verifyHash key SlotFree (secretHash sec) (rq_pw r1) = None \<and>
    verifyHash key SlotFree (secretHash sec) (rq_pw r2) = None"
proof -
  have "recorded key (sh_cluster s) (rq_node r1) (rq_pw r1)" "recorded key (sh_cluster s) (rq_node r1) (rq_pw r2)"
    using shims_reach_inv [OF assms(1,2)] assms(3-7) by (auto simp: request_inv_def)
  then show ?thesis by (auto simp: recorded_def)
qed

theorem replicas_agree_witness:
  "\<exists>c r1 r2 sec. shims_reach pad_key \<lparr>sh_cluster = c, sh_requests = [r1, r2]\<rparr> \<and>
     rq_pc r1 = PcDone (Inr True) \<and> rq_pc r2 = PcDone (Inr True) \<and> rq_node r1 = ''n'' \<and> rq_node r2 = ''n'' \<and>
     verifyHash pad_key SlotFree (secretHash sec) (rq_pw r1) = None \<and>
     verifyHash pad_key SlotFree (secretHash sec) (rq_pw r2) = None"
proof -
  let ?c0 = "cluster_of mem_secrets mem_nodes mem_empty" and ?start = "asking ''n'' ''pw'' PcStart"
  let ?done = "asking ''n'' ''pw'' (PcDone (Inr True))" and ?create = "\<lambda>h. asking ''n'' ''pw'' (PcCreate h)"
  obtain h where h: "createHash pad_key SlotFree (Inr ''saltsalt'') ''pw'' = Inr h"
    by (simp add: createHash_def runScrypt_def pad_key_def)
  obtain w1 where c1: "CheckAndSet 2 mem_platform pad_key ''n'' ''pw'' mem_empty = Some (Inr True, w1)"
    using mem_enrols [of mem_empty "''n''" 1 "''pw''"] by (auto simp: numeral_2_eq_2)
  then have "on_record mem_secrets pad_key w1 ''n'' ''pw''"
    using mem_store.sto.cas_true [of "''n''" "''pw''" mem_empty w1] by (simp add: storeCheckAndSet_def)
  then have c2: "CheckAndSet 1 mem_platform pad_key ''n'' ''pw'' w1 = Some (Inr True, w1)"
    using mem_recognises [of pad_key w1 "''n''" "''pw''" 0] by simp
  let ?c1 = "cluster_of mem_secrets mem_nodes w1"
  have arrive: "shims_reach pad_key \<lparr>sh_cluster = ?c0, sh_requests = [?start, ?start]\<rparr>"
    using shims_more [OF shims_more [OF shims_start request_arrives] request_arrives, of pad_key ?c0 "''n''" "''pw''" "''n''" "''pw''"]
    by simp
  have ready: "cas_run pad_key (?c0, ?start) (?c0, ?create h)"
    using hash_run [of ?c0 "''n''" "''saltsalt''" pad_key SlotFree "''pw''" h] h by (simp add: paramSaltLen_def)
  have "shims_reach pad_key \<lparr>sh_cluster = ?c0, sh_requests = [?start, ?create h]\<rparr>"
    using shims_reach_run [OF arrive, of 1] ready by simp
  then have "shims_reach pad_key \<lparr>sh_cluster = ?c1, sh_requests = [?done, ?create h]\<rparr>"
    using shims_reach_run [of pad_key "\<lparr>sh_cluster = ?c0, sh_requests = [?start, ?create h]\<rparr>" 0]
      mem.CheckAndSet_run [OF c1] by simp
  moreover have "cas_run pad_key (?c1, ?create h) (?c1, ?done)"
    using create_exists [of "?create h" h ?c1 pad_key] mem.CheckAndSet_run [OF c2] \<open>on_record _ _ _ _ _\<close>
    by (auto simp: on_record_def intro: converse_rtranclp_into_rtranclp)
  ultimately have r: "shims_reach pad_key \<lparr>sh_cluster = ?c1, sh_requests = [?done, ?done]\<rparr>"
    using shims_reach_run [of pad_key "\<lparr>sh_cluster = ?c1, sh_requests = [?done, ?create h]\<rparr>" 1] by simp
  show ?thesis
    using replicas_agree [OF r mem_store.key_len, of ?done ?done] r
    by (intro exI [of _ ?c1] exI [of _ ?done]) auto
qed

text \<open>
  (C14) Refinement: a run of CheckAndSet against an API that keeps its contract is a run of the
  step relation \<open>cas_step\<close>, from the stored objects before the call to those after it and with
  the same answer, so what holds of every interleaving of the steps holds of the code.
\<close>

theorem CheckAndSet_refines_steps:
  assumes "kube_api pf sv nv" "CheckAndSet fuel pf key node pw w = Some (res, w')"
  shows "(cas_step key)\<^sup>*\<^sup>* (cluster_of sv nv w, \<lparr>rq_node = node, rq_pw = pw, rq_pc = PcStart\<rparr>)
    (cluster_of sv nv w', \<lparr>rq_node = node, rq_pw = pw, rq_pc = PcDone res\<rparr>)"
  by (rule kube_api.CheckAndSet_run [OF assms])

theorem CheckAndSet_refines_steps_witness:
  "\<exists>w'. (cas_step pad_key)\<^sup>*\<^sup>*
     (cluster_of mem_secrets mem_nodes mem_empty, \<lparr>rq_node = ''n'', rq_pw = ''pw'', rq_pc = PcStart\<rparr>)
     (cluster_of mem_secrets mem_nodes w', \<lparr>rq_node = ''n'', rq_pw = ''pw'', rq_pc = PcDone (Inr True)\<rparr>)"
  using mem_enrols [of mem_empty "''n''" 1 "''pw''"]
    CheckAndSet_refines_steps [OF mem.kube_api_axioms, of 2 pad_key "''n''" "''pw''" mem_empty]
  by (auto simp: numeral_2_eq_2)

end
