(* ===== verification/Go_Net.thy ===== *)
theory Go_Net
  imports Go_Encoding
begin

text \<open>
  The functions of Go's net package that the program calls: parsing and printing of IP
  addresses and CIDRs, address classes, network membership, and host:port pairs. A net.IP is
  a byte slice of length 4 or 16; ParseIP always returns the 16-byte form. netip zones are
  rejected by every caller (ParseIP, ParseCIDR), so an address with a percent sign does not parse.
\<close>

type_synonym ip = bytes

section \<open>Parsing\<close>

datatype addr = V4 bytes | V6 bytes

definition v4InV6Prefix :: bytes where
  "v4InV6Prefix = replicate 10 0 @ [0xff, 0xff]"

fun as16 :: "addr \<Rightarrow> ip" where
  "as16 (V4 b) = v4InV6Prefix @ b"
| "as16 (V6 b) = b"

fun bitLen :: "addr \<Rightarrow> nat" where
  "bitLen (V4 b) = 32"
| "bitLen (V6 b) = 128"

definition parse_octet :: "string \<Rightarrow> byte option" where
  "parse_octet f =
     (if f = [] \<or> \<not> list_all is_digit f \<or> (length f > 1 \<and> hd f = CHR ''0'') \<or> dec_value f > 255
      then None else Some (of_nat (dec_value f)))"

definition parseIPv4 :: "string \<Rightarrow> bytes option" where
  "parseIPv4 s =
     (let fs = split (CHR ''.'') s in if length fs \<noteq> 4 then None else those (map parse_octet fs))"

definition is_hex :: "char \<Rightarrow> bool" where
  "is_hex c \<longleftrightarrow> hex_value c \<noteq> None"

definition hex_num :: "string \<Rightarrow> nat" where
  "hex_num s = foldl (\<lambda>acc c. acc * 16 + the (hex_value c)) 0 s"

definition group_bytes :: "nat \<Rightarrow> bytes" where
  "group_bytes g = [of_nat (g div 256), of_nat (g mod 256)]"

lemma length_group_bytes [simp]: "length (group_bytes g) = 2"
  by (simp add: group_bytes_def)

text \<open>
  The loop of parseIPv6: \<open>n\<close> groups may still be stored, \<open>ip\<close> holds the bytes so far, \<open>ell\<close> the
  position of the ellipsis. The result carries the unread rest of the string.
\<close>

fun v6_loop :: "nat \<Rightarrow> bytes \<Rightarrow> nat option \<Rightarrow> string \<Rightarrow> (bytes \<times> nat option \<times> string) option" where
  "v6_loop 0 ip ell s = Some (ip, ell, s)"
| "v6_loop (Suc n) ip ell s =
     (let h = takeWhile is_hex s; rest = dropWhile is_hex s;
          ip' = ip @ group_bytes (hex_num h) in
      if length h > 4 \<or> h = [] then None
      else (case rest of
        [] \<Rightarrow> Some (ip', ell, [])
      | c # r \<Rightarrow>
          if c = CHR ''.'' then
            (if ell = None \<and> length ip \<noteq> 12 then None
             else if length ip + 4 > 16 then None
             else map_option (\<lambda>b. (ip @ b, ell, [])) (parseIPv4 s))
          else if c \<noteq> CHR '':'' then None
          else (case r of
            [] \<Rightarrow> None
          | d # r' \<Rightarrow>
              if d = CHR '':'' then
                (if ell \<noteq> None then None
                 else if r' = [] then Some (ip', Some (length ip'), [])
                 else v6_loop n ip' (Some (length ip')) r')
              else v6_loop n ip' ell r)))"

definition v6_finish :: "bytes \<times> nat option \<times> string \<Rightarrow> bytes option" where
  "v6_finish res =
     (case res of (ip, ell, s) \<Rightarrow>
        if s \<noteq> [] then None
        else if length ip < 16 then
          (case ell of
             None \<Rightarrow> None
           | Some e \<Rightarrow> Some (take e ip @ replicate (16 - length ip) 0 @ drop e ip))
        else if ell \<noteq> None then None else Some ip)"

definition parseIPv6 :: "string \<Rightarrow> bytes option" where
  "parseIPv6 s =
     (if CHR ''%'' \<in> set s then None
      else if hasPrefix s ''::'' then
        (if drop 2 s = [] then Some (replicate 16 0)
         else Option.bind (v6_loop 8 [] (Some 0) (drop 2 s)) v6_finish)
      else Option.bind (v6_loop 8 [] None s) v6_finish)"

definition parseAddr :: "string \<Rightarrow> addr option" where
  "parseAddr s =
     (case find (\<lambda>c. c = CHR ''.'' \<or> c = CHR '':'' \<or> c = CHR ''%'') s of
        None \<Rightarrow> None
      | Some c \<Rightarrow>
          if c = CHR ''.'' then map_option V4 (parseIPv4 s)
          else if c = CHR '':'' then map_option V6 (parseIPv6 s)
          else None)"

definition parseIP :: "string \<Rightarrow> ip option" where
  "parseIP s = map_option as16 (parseAddr s)"

lemmas parseIP_simps [go_simps] =
  parseIP_def parseAddr_def parseIPv4_def parse_octet_def is_digit_def dec_value_def digit_value_def

section \<open>Printing\<close>

definition to4 :: "ip \<Rightarrow> ip option" where
  "to4 ip =
     (if length ip = 4 then Some ip
      else if length ip = 16 \<and> take 12 ip = v4InV6Prefix then Some (drop 12 ip)
      else None)"

fun hex_of_nat :: "nat \<Rightarrow> string" where
  "hex_of_nat n = (if n < 16 then [hex_char n] else hex_of_nat (n div 16) @ [hex_char (n mod 16)])"

declare hex_of_nat.simps [simp del]

definition string4 :: "bytes \<Rightarrow> string" where
  "string4 b = join ''.'' (map (\<lambda>x. dec_of_nat (unat x)) b)"

fun v6_groups :: "bytes \<Rightarrow> nat list" where
  "v6_groups (a # b # r) = (unat a * 256 + unat b) # v6_groups r"
| "v6_groups _ = []"

text \<open>The first longest run of at least two zero groups, as (start, length); length 0 for none.\<close>

fun best_zeros :: "nat \<Rightarrow> nat list \<Rightarrow> nat \<times> nat \<Rightarrow> nat \<times> nat" where
  "best_zeros i [] b = b"
| "best_zeros i (g # gs) b =
     (let l = length (takeWhile (\<lambda>x. x = 0) (g # gs))
      in best_zeros (Suc i) gs (if l \<ge> 2 \<and> l > snd b then (i, l) else b))"

definition string6 :: "bytes \<Rightarrow> string" where
  "string6 ip =
     (let gs = v6_groups ip; (st, l) = best_zeros 0 gs (255, 0) in
      if l = 0 then join '':'' (map hex_of_nat gs)
      else join '':'' (map hex_of_nat (take st gs)) @ ''::'' @
           join '':'' (map hex_of_nat (drop (st + l) gs)))"

definition ip_String :: "ip \<Rightarrow> string" where
  "ip_String ip =
     (if ip = [] then ''<nil>''
      else if length ip \<noteq> 4 \<and> length ip \<noteq> 16 then
        CHR ''?'' # concat (map (\<lambda>b. hex_of_byte (char_of (unat b))) ip)
      else case to4 ip of Some b \<Rightarrow> string4 b | None \<Rightarrow> string6 ip)"

section \<open>Address classes\<close>

definition ip_Equal :: "ip \<Rightarrow> ip \<Rightarrow> bool" where
  "ip_Equal a b =
     (if length a = length b then a = b
      else if length a = 4 \<and> length b = 16 then b = v4InV6Prefix @ a
      else if length a = 16 \<and> length b = 4 then a = v4InV6Prefix @ b
      else False)"

definition isLoopback :: "ip \<Rightarrow> bool" where
  "isLoopback ip =
     (case to4 ip of
        Some b \<Rightarrow> b ! 0 = 127
      | None \<Rightarrow> ip_Equal ip (replicate 15 0 @ [1]))"

definition isUnspecified :: "ip \<Rightarrow> bool" where
  "isUnspecified ip \<longleftrightarrow> ip_Equal ip (v4InV6Prefix @ [0, 0, 0, 0]) \<or> ip_Equal ip (replicate 16 0)"

definition isLinkLocalUnicast :: "ip \<Rightarrow> bool" where
  "isLinkLocalUnicast ip =
     (case to4 ip of
        Some b \<Rightarrow> b ! 0 = 169 \<and> b ! 1 = 254
      | None \<Rightarrow> length ip = 16 \<and> ip ! 0 = 0xfe \<and> ip ! 1 AND 0xc0 = 0x80)"

definition isMulticast :: "ip \<Rightarrow> bool" where
  "isMulticast ip =
     (case to4 ip of
        Some b \<Rightarrow> b ! 0 AND 0xf0 = 0xe0
      | None \<Rightarrow> length ip = 16 \<and> ip ! 0 = 0xff)"

definition isInterfaceLocalMulticast :: "ip \<Rightarrow> bool" where
  "isInterfaceLocalMulticast ip \<longleftrightarrow> length ip = 16 \<and> ip ! 0 = 0xff \<and> ip ! 1 AND 0x0f = 0x01"

definition isLinkLocalMulticast :: "ip \<Rightarrow> bool" where
  "isLinkLocalMulticast ip =
     (case to4 ip of
        Some b \<Rightarrow> b ! 0 = 224 \<and> b ! 1 = 0 \<and> b ! 2 = 0
      | None \<Rightarrow> length ip = 16 \<and> ip ! 0 = 0xff \<and> ip ! 1 AND 0x0f = 0x02)"

section \<open>Networks\<close>

record ipnet =
  net_IP :: ip
  net_Mask :: bytes

fun cidrMask :: "nat \<Rightarrow> nat \<Rightarrow> bytes" where
  "cidrMask n 0 = []"
| "cidrMask n (Suc l) =
     (if n \<ge> 8 then 0xff # cidrMask (n - 8) l else NOT (drop_bit n 0xff) # cidrMask 0 l)"

text \<open>IP.Mask, for the lengths ParseCIDR passes.\<close>

definition ip_Mask :: "ip \<Rightarrow> bytes \<Rightarrow> ip option" where
  "ip_Mask ip m =
     (let m' = (if length m = 16 \<and> length ip = 4 \<and> list_all (\<lambda>b. b = 0xff) (take 12 m)
                   then drop 12 m else m);
          ip' = (if length m' = 4 \<and> length ip = 16 \<and> take 12 ip = v4InV6Prefix
                 then drop 12 ip else ip)
      in if length ip' \<noteq> length m' then None else Some (map2 (AND) ip' m'))"

definition parseCIDR :: "string \<Rightarrow> (ip \<times> ipnet) option" where
  "parseCIDR s =
     (case cutAt (CHR ''/'') s of
        None \<Rightarrow> None
      | Some (a, m) \<Rightarrow>
          (case parseAddr a of
             None \<Rightarrow> None
           | Some ad \<Rightarrow>
               if m = [] \<or> \<not> list_all is_digit m \<or> dec_value m > bitLen ad then None
               else let mk = cidrMask (dec_value m) (bitLen ad div 8) in
                    map_option (\<lambda>n. (as16 ad, \<lparr>net_IP = n, net_Mask = mk\<rparr>)) (ip_Mask (as16 ad) mk)))"

definition networkNumberAndMask :: "ipnet \<Rightarrow> (ip \<times> bytes) option" where
  "networkNumberAndMask n =
     (let ip = (case to4 (net_IP n) of Some b \<Rightarrow> b | None \<Rightarrow> net_IP n) in
      if length ip \<noteq> 4 \<and> length ip \<noteq> 16 then None
      else if length (net_Mask n) = 4 then (if length ip \<noteq> 4 then None else Some (ip, net_Mask n))
      else if length (net_Mask n) = 16 then
        Some (ip, if length ip = 4 then drop 12 (net_Mask n) else net_Mask n)
      else None)"

definition net_Contains :: "ipnet \<Rightarrow> ip \<Rightarrow> bool" where
  "net_Contains n ip =
     (let ip' = (case to4 ip of Some b \<Rightarrow> b | None \<Rightarrow> ip) in
      case networkNumberAndMask n of
        None \<Rightarrow> ip' = []
      | Some (nn, m) \<Rightarrow> length ip' = length nn \<and>
          list_all (\<lambda>(x, y, k). x AND k = y AND k) (zip nn (zip ip' m)))"

section \<open>Host and port\<close>

definition joinHostPort :: "string \<Rightarrow> string \<Rightarrow> string" where
  "joinHostPort host port =
     (if CHR '':'' \<in> set host then ''['' @ host @ '']:'' @ port else host @ '':'' @ port)"

text \<open>SplitHostPort; every error is \<open>None\<close>, since the caller only tests for one.\<close>

definition splitHostPort :: "string \<Rightarrow> (string \<times> string) option" where
  "splitHostPort hp =
     (case cutLast (CHR '':'') hp of
        None \<Rightarrow> None
      | Some (pre, port) \<Rightarrow>
          if hasPrefix hp ''['' then
            (case cutAt (CHR '']'') hp of
               None \<Rightarrow> None
             | Some (h, after) \<Rightarrow>
                 if Suc (length h) = length pre \<and> CHR ''['' \<notin> set (tl hp) \<and> CHR '']'' \<notin> set after
                 then Some (tl h, port) else None)
          else if CHR '':'' \<in> set pre \<or> CHR ''['' \<in> set hp \<or> CHR '']'' \<in> set hp then None
          else Some (pre, port))"

section \<open>Round trip of IPv4 text\<close>

lemma parse_octet_dec: "parse_octet (dec_of_nat (unat b)) = Some b"
proof -
  let ?s = "dec_of_nat (unat b)"
  have bound: "unat b \<le> 255"
    using unsigned_less [of b, where 'a = nat] by simp
  have "\<not> (length ?s > 1 \<and> hd ?s = CHR ''0'')"
    using length_dec_of_nat_small [of "unat b"] hd_dec_of_nat [of "unat b"]
    by (cases "unat b < 10") auto
  moreover have "list_all is_digit ?s"
    using dec_of_nat_digits by (auto simp: list_all_iff)
  ultimately show ?thesis
    using bound by (auto simp: parse_octet_def)
qed

lemma dec_of_nat_no_sep: "\<not> is_digit c \<Longrightarrow> c \<notin> set (dec_of_nat n)"
  using dec_of_nat_digits by blast

lemma not_digit_dot: "\<not> is_digit (CHR ''.'')" "\<not> is_digit (CHR '':'')" "\<not> is_digit (CHR ''%'')"
  "\<not> is_digit (CHR '']'')" "\<not> is_digit (CHR ''['')"
  by (simp_all add: is_digit_def)

lemma parseIPv4_string4: "length b = 4 \<Longrightarrow> parseIPv4 (string4 b) = Some b"
proof -
  assume len: "length b = 4"
  let ?ws = "map (\<lambda>x. dec_of_nat (unat x)) b"
  have "split (CHR ''.'') (string4 b) = ?ws"
    unfolding string4_def
    using len dec_of_nat_no_sep [OF not_digit_dot(1)] by (intro split_join) auto
  moreover have "those (map parse_octet ?ws) = Some (map id b)"
    unfolding map_map by (intro those_map_Some) (simp add: parse_octet_dec)
  ultimately show ?thesis
    using len by (simp add: parseIPv4_def)
qed

lemma find_first_sep:
  assumes "\<forall>c \<in> set w. c \<noteq> CHR ''.'' \<and> c \<noteq> CHR '':'' \<and> c \<noteq> CHR ''%''"
    and "sep = CHR ''.'' \<or> sep = CHR '':'' \<or> sep = CHR ''%''"
  shows "find (\<lambda>c. c = CHR ''.'' \<or> c = CHR '':'' \<or> c = CHR ''%'') (w @ sep # r) = Some sep"
  using assms by (induction w) auto

lemma parseAddr_string4: "length b = 4 \<Longrightarrow> parseAddr (string4 b) = Some (V4 b)"
proof -
  assume len: "length b = 4"
  then obtain x xs where b: "b = x # xs" "xs \<noteq> []"
    by (cases b; cases "tl b") auto
  have "string4 b = dec_of_nat (unat x) @ CHR ''.'' # join ''.'' (map (\<lambda>x. dec_of_nat (unat x)) xs)"
    using b by (simp add: string4_def join_Cons)
  moreover have "\<forall>c \<in> set (dec_of_nat (unat x)). c \<noteq> CHR ''.'' \<and> c \<noteq> CHR '':'' \<and> c \<noteq> CHR ''%''"
    by (auto dest: dec_of_nat_digits simp: not_digit_dot)
  ultimately have "find (\<lambda>c. c = CHR ''.'' \<or> c = CHR '':'' \<or> c = CHR ''%'') (string4 b) = Some (CHR ''.'')"
    using find_first_sep [of "dec_of_nat (unat x)" "CHR ''.''"] by simp
  then show ?thesis
    using parseIPv4_string4 [OF len] by (simp add: parseAddr_def)
qed

section \<open>Round trip of IPv6 text\<close>

lemma hex_of_nat_not_Nil [simp]: "hex_of_nat n \<noteq> []"
  by (subst hex_of_nat.simps) simp

lemma hex_of_nat_is_hex: "c \<in> set (hex_of_nat n) \<Longrightarrow> is_hex c"
proof (induction n rule: hex_of_nat.induct)
  case (1 n)
  show ?case
  proof (cases "n < 16")
    case True
    then show ?thesis
      using 1(2) by (subst (asm) hex_of_nat.simps) (simp add: is_hex_def)
  next
    case False
    then show ?thesis
      using 1 by (subst (asm) (2) hex_of_nat.simps) (auto simp: is_hex_def)
  qed
qed

lemma hex_num_hex_of_nat [simp]: "hex_num (hex_of_nat n) = n"
proof (induction n rule: hex_of_nat.induct)
  case (1 n)
  show ?case
  proof (cases "n < 16")
    case True
    then show ?thesis by (subst hex_of_nat.simps) (simp add: hex_num_def)
  next
    case False
    then have "hex_num (hex_of_nat (n div 16)) = n div 16"
      using 1 by simp
    then show ?thesis
      using False by (subst hex_of_nat.simps) (simp add: hex_num_def)
  qed
qed

lemma length_hex_of_nat: "n < 16 ^ Suc k \<Longrightarrow> length (hex_of_nat n) \<le> Suc k"
proof (induction k arbitrary: n)
  case 0
  then show ?case by (subst hex_of_nat.simps) simp
next
  case (Suc k)
  have "n div 16 < 16 ^ Suc k"
    using Suc.prems by (simp add: less_mult_imp_div_less mult.commute)
  then show ?case
    using Suc.IH [of "n div 16"] by (subst hex_of_nat.simps) simp
qed

lemma not_hex_seps: "\<not> is_hex (CHR '':'')" "\<not> is_hex (CHR ''.'')" "\<not> is_hex (CHR ''%'')"
  "\<not> is_hex (CHR ''['')" "\<not> is_hex (CHR '']'')"
  by (simp_all add: is_hex_def hex_value_def)

lemma takeWhile_hex:
  assumes "rest = [] \<or> \<not> is_hex (hd rest)"
  shows "takeWhile is_hex (hex_of_nat g @ rest) = hex_of_nat g"
    and "dropWhile is_hex (hex_of_nat g @ rest) = rest"
  using assms hex_of_nat_is_hex [of _ g]
  by (auto simp: takeWhile_append2 dropWhile_append2 takeWhile_eq_Nil_iff dropWhile_eq_self_iff)

lemma group_step:
  assumes "g < 65536" "rest = [] \<or> \<not> is_hex (hd rest)"
  shows "v6_loop (Suc n) ip ell (hex_of_nat g @ rest) =
     (case rest of
        [] \<Rightarrow> Some (ip @ group_bytes g, ell, [])
      | c # r \<Rightarrow>
          if c = CHR ''.'' then
            (if ell = None \<and> length ip \<noteq> 12 then None
             else if length ip + 4 > 16 then None
             else map_option (\<lambda>b. (ip @ b, ell, [])) (parseIPv4 (hex_of_nat g @ rest)))
          else if c \<noteq> CHR '':'' then None
          else (case r of
            [] \<Rightarrow> None
          | d # r' \<Rightarrow>
              if d = CHR '':'' then
                (if ell \<noteq> None then None
                 else if r' = [] then Some (ip @ group_bytes g, Some (length ip + 2), [])
                 else v6_loop n (ip @ group_bytes g) (Some (length ip + 2)) r')
              else v6_loop n (ip @ group_bytes g) ell r))"
proof -
  have "length (hex_of_nat g) \<le> 4"
    using length_hex_of_nat [of g 3] assms(1) by simp
  then show ?thesis
    using takeWhile_hex [OF assms(2), of g]
    by (simp add: Let_def split: list.splits)
qed

lemma hd_hex_of_nat_append: "is_hex (hd (hex_of_nat g @ r))"
  using hex_of_nat_is_hex [of "hd (hex_of_nat g)" g] by simp

lemma hd_join_hex: "gs \<noteq> [] \<Longrightarrow> is_hex (hd (join '':'' (map hex_of_nat gs) @ r)) \<and> join '':'' (map hex_of_nat gs) \<noteq> []"
proof (cases gs)
  case (Cons g gs')
  assume "gs \<noteq> []"
  show ?thesis
    using Cons hd_hex_of_nat_append by (cases gs') (auto simp: join_Cons)
qed simp

lemma v6_loop_groups:
  assumes "gs \<noteq> []" "length gs \<le> n" "\<forall>g \<in> set gs. g < 65536"
  shows "v6_loop n ip ell (join '':'' (map hex_of_nat gs)) =
     Some (ip @ concat (map group_bytes gs), ell, [])"
  using assms
proof (induction gs arbitrary: n ip)
  case Nil
  then show ?case by simp
next
  case (Cons g gs)
  then obtain m where n: "n = Suc m" by (cases n) auto
  show ?case
  proof (cases "gs = []")
    case True
    then show ?thesis
      using group_step [of g "[]" m ip ell] Cons.prems n by simp
  next
    case False
    let ?r = "join '':'' (map hex_of_nat gs)"
    have r: "?r \<noteq> []" "hd ?r \<noteq> CHR '':''"
      using hd_join_hex [OF False, of "[]"] not_hex_seps by auto
    have "v6_loop n ip ell (join '':'' (map hex_of_nat (g # gs))) =
        v6_loop (Suc m) ip ell (hex_of_nat g @ CHR '':'' # ?r)"
      using False n by (simp add: join_Cons)
    also have "\<dots> = v6_loop m (ip @ group_bytes g) ell ?r"
      using group_step [of g "CHR '':'' # ?r" m ip ell] Cons.prems r not_hex_seps
      by (simp split: list.splits)
    finally show ?thesis
      using Cons.IH [of m "ip @ group_bytes g"] Cons.prems False n by simp
  qed
qed

lemma v6_loop_ellipsis:
  assumes "as \<noteq> []" "length as + length bs < n" "\<forall>g \<in> set (as @ bs). g < 65536"
  shows "v6_loop n ip None (join '':'' (map hex_of_nat as) @ ''::'' @ join '':'' (map hex_of_nat bs)) =
     Some (ip @ concat (map group_bytes (as @ bs)), Some (length ip + 2 * length as), [])"
  using assms
proof (induction as arbitrary: n ip)
  case Nil
  then show ?case by simp
next
  case (Cons g as)
  then obtain m where n: "n = Suc m" by (cases n) auto
  let ?b = "join '':'' (map hex_of_nat bs)"
  show ?case
  proof (cases "as = []")
    case True
    have "v6_loop n ip None (join '':'' (map hex_of_nat (g # as)) @ ''::'' @ ?b) =
        v6_loop (Suc m) ip None (hex_of_nat g @ ''::'' @ ?b)"
      using True n by simp
    also have "\<dots> = (if ?b = [] then Some (ip @ group_bytes g, Some (length ip + 2), [])
        else v6_loop m (ip @ group_bytes g) (Some (length ip + 2)) ?b)"
      using group_step [of g "''::'' @ ?b" m ip None] Cons.prems not_hex_seps by simp
    also have "\<dots> = Some (ip @ group_bytes g @ concat (map group_bytes bs), Some (length ip + 2), [])"
      using v6_loop_groups [of bs m "ip @ group_bytes g" "Some (length ip + 2)"]
        hd_join_hex [of bs "[]"] Cons.prems n True
      by (cases "bs = []") auto
    finally show ?thesis using True by simp
  next
    case False
    let ?r = "join '':'' (map hex_of_nat as) @ ''::'' @ ?b"
    have r: "?r \<noteq> []" "hd ?r \<noteq> CHR '':''"
      using hd_join_hex [OF False, of "''::'' @ ?b"] not_hex_seps by auto
    have "v6_loop n ip None (join '':'' (map hex_of_nat (g # as)) @ ''::'' @ ?b) =
        v6_loop (Suc m) ip None (hex_of_nat g @ CHR '':'' # ?r)"
      using False n by (simp add: join_Cons)
    also have "\<dots> = v6_loop m (ip @ group_bytes g) None ?r"
      using group_step [of g "CHR '':'' # ?r" m ip None] Cons.prems r not_hex_seps
      by (simp split: list.splits)
    also have "\<dots> = Some ((ip @ group_bytes g) @ concat (map group_bytes (as @ bs)),
        Some (length (ip @ group_bytes g) + 2 * length as), [])"
      using Cons.IH [of m "ip @ group_bytes g"] Cons.prems False n by simp
    finally show ?thesis by simp
  qed
qed

text \<open>What the printer's search for zeros returns: nothing, or a run of at least two zero groups.\<close>

lemma takeWhile_zeros: "i < length (takeWhile (\<lambda>x. x = (0::nat)) gs) \<Longrightarrow> gs ! i = 0"
  by (metis (mono_tags, lifting) nth_mem set_takeWhileD takeWhile_nth)

lemma best_zeros_run:
  assumes "best_zeros i (drop i gs) b = (st, l)" "i \<le> length gs"
    and "snd b = 0 \<or> (2 \<le> snd b \<and> fst b + snd b \<le> length gs \<and> (\<forall>k < snd b. gs ! (fst b + k) = 0))"
  shows "l = 0 \<or> (2 \<le> l \<and> st + l \<le> length gs \<and> (\<forall>k < l. gs ! (st + k) = 0))"
  using assms
proof (induction "drop i gs" arbitrary: i b)
  case Nil
  then show ?case by auto
next
  case (Cons g r)
  let ?l = "length (takeWhile (\<lambda>x. x = 0) (drop i gs))"
  have r: "r = drop (Suc i) gs" "i < length gs"
    using Cons.hyps(2) by (metis drop_Suc tl_drop list.sel(3)) (metis Cons.hyps(2) drop_all list.distinct(1) not_le)
  have "?l \<le> length gs - i"
    using length_takeWhile_le [of "\<lambda>x. x = 0" "drop i gs"] by simp
  then have run: "i + ?l \<le> length gs" "\<forall>k < ?l. gs ! (i + k) = 0"
    using r(2) takeWhile_zeros [of _ "drop i gs"] by auto
  have step: "best_zeros (Suc i) (drop (Suc i) gs) (if ?l \<ge> 2 \<and> ?l > snd b then (i, ?l) else b) = (st, l)"
    using Cons.prems(1) unfolding Cons.hyps(2) [symmetric] best_zeros.simps Let_def r(1) .
  show ?case
    using Cons.hyps(1) [OF r(1) step] Cons.prems r(2) run by auto
qed

lemma v6_groups_props:
  "length ip = 2 * n \<Longrightarrow> length (v6_groups ip) = n \<and> (\<forall>g \<in> set (v6_groups ip). g < 65536) \<and>
     concat (map group_bytes (v6_groups ip)) = ip"
proof (induction n arbitrary: ip)
  case 0
  then show ?case by simp
next
  case (Suc n)
  then obtain a b r where ip: "ip = a # b # r" "length r = 2 * n"
    by (cases ip; cases "tl ip") auto
  have ab: "unat a < 256" "unat b < 256"
    using unsigned_less [of a, where 'a = nat] unsigned_less [of b, where 'a = nat] by simp_all
  then have "unat a * 256 + unat b < 65536" by linarith
  moreover have "group_bytes (unat a * 256 + unat b) = [a, b]"
    using ab by (simp add: group_bytes_def)
  ultimately show ?case
    using Suc.IH [OF ip(2)] ip(1) by simp
qed

lemma hex_join_chars: "c \<in> set (join '':'' (map hex_of_nat gs)) \<Longrightarrow> is_hex c \<or> c = CHR '':''"
proof (induction gs)
  case (Cons g gs)
  then show ?case
    by (cases "gs = []") (auto simp: join_Cons dest: hex_of_nat_is_hex)
qed simp

lemma string6_chars: "c \<in> set (string6 ip) \<Longrightarrow> is_hex c \<or> c = CHR '':''"
  by (auto simp: string6_def Let_def split: prod.splits if_splits dest: hex_join_chars)

lemma group_bytes_0: "group_bytes 0 = [0, 0]"
  by (simp add: group_bytes_def)

lemma concat_zero_groups: "concat (map group_bytes (replicate l 0)) = replicate (2 * l) 0"
  by (induction l) (auto simp: group_bytes_0)

lemma length_concat_groups [simp]: "length (concat (map group_bytes gs)) = 2 * length gs"
  by (induction gs) auto

lemma zero_run_split:
  assumes "st + l \<le> length gs" "\<forall>k < l. gs ! (st + k) = 0"
  shows "gs = take st gs @ replicate l 0 @ drop (st + l) gs"
proof -
  have "take l (drop st gs) = replicate l 0"
    using assms by (intro nth_equalityI) auto
  then show ?thesis
    by (metis append_take_drop_id drop_drop add.commute)
qed

lemma hasPrefix_colons: "hasPrefix s ''::'' \<longleftrightarrow> (\<exists>t. s = CHR '':'' # CHR '':'' # t)"
  by (auto simp: hasPrefix_iff)

lemma parseIPv6_string6:
  assumes len: "length ip = 16"
  shows "parseIPv6 (string6 ip) = Some ip"
proof -
  let ?gs = "v6_groups ip"
  let ?h = "\<lambda>gs. join '':'' (map hex_of_nat gs)"
  have gs: "length ?gs = 8" "\<forall>g \<in> set ?gs. g < 65536" "concat (map group_bytes ?gs) = ip"
    using v6_groups_props [of ip 8] len by auto
  have pct: "CHR ''%'' \<notin> set (string6 ip)"
    using string6_chars [of "CHR ''%''" ip] not_hex_seps by auto
  obtain st l where best: "best_zeros 0 ?gs (255, 0) = (st, l)"
    by (cases "best_zeros 0 ?gs (255, 0)") auto
  show ?thesis
  proof (cases "l = 0")
    case True
    then have s: "string6 ip = ?h ?gs"
      using best by (simp add: string6_def Let_def)
    have ne: "?gs \<noteq> []" using gs(1) by auto
    then have "\<not> hasPrefix (?h ?gs) ''::''"
      using hd_join_hex [of ?gs "[]"] not_hex_seps by (auto simp: hasPrefix_colons)
    then show ?thesis
      using v6_loop_groups [OF ne, of 8 "[]" None] gs pct s len by (simp add: parseIPv6_def v6_finish_def)
  next
    case False
    let ?a = "take st ?gs" and ?b = "drop (st + l) ?gs"
    have run: "2 \<le> l" "st + l \<le> 8" "\<forall>k < l. ?gs ! (st + k) = 0"
      using best_zeros_run [of 0 ?gs "(255, 0)" st l] best False gs(1) by auto
    have split: "?gs = ?a @ replicate l 0 @ ?b"
      using zero_run_split [of st l ?gs] run gs(1) by simp
    have s: "string6 ip = ?h ?a @ ''::'' @ ?h ?b"
      using best False by (simp add: string6_def Let_def)
    have la: "length ?a = st" "length ?b = 8 - (st + l)"
      using run gs(1) by auto
    have bytes: "ip = concat (map group_bytes ?a) @ replicate (2 * l) 0 @ concat (map group_bytes ?b)"
      using gs(3) split by (metis concat_append concat_zero_groups map_append)
    have fin: "v6_finish (concat (map group_bytes (?a @ ?b)), Some (2 * st), []) = Some ip"
    proof -
      have "16 - length (concat (map group_bytes (?a @ ?b))) = 2 * l"
        unfolding length_concat_groups length_append la using run by simp
      moreover have "length (concat (map group_bytes ?a)) = 2 * st"
        unfolding length_concat_groups la by simp
      ultimately show ?thesis
        using bytes run(1) la by (simp add: v6_finish_def)
    qed
    have bound: "\<forall>g \<in> set (?a @ ?b). g < 65536"
      using gs(2) by (auto dest: in_set_takeD in_set_dropD)
    show ?thesis
    proof (cases "st = 0")
      case True
      then have s0: "string6 ip = ''::'' @ ?h ?b" using s by simp
      show ?thesis
      proof (cases "?b = []")
        case True
        then have "l = 8"
          using run(2) la gs(1) \<open>st = 0\<close> by simp
        then have "ip = replicate 16 0"
          using bytes \<open>st = 0\<close> True by simp
        then show ?thesis
          using s0 pct True by (simp add: parseIPv6_def hasPrefix_colons)
      next
        case False
        then have "v6_loop 8 [] (Some 0) (?h ?b) = Some (concat (map group_bytes ?b), Some 0, [])"
          using v6_loop_groups [of ?b 8 "[]" "Some 0"] bound la by auto
        then show ?thesis
          using s0 pct fin True hd_join_hex [OF False, of "[]"]
          by (simp add: parseIPv6_def hasPrefix_colons)
      qed
    next
      case False
      then have "?a \<noteq> []" using la by auto
      moreover from this have "\<not> hasPrefix (string6 ip) ''::''"
        using hd_join_hex [of ?a "''::'' @ ?h ?b"] s not_hex_seps by (auto simp: hasPrefix_colons)
      ultimately show ?thesis
        using v6_loop_ellipsis [of ?a ?b 8 "[]"] bound la run s pct fin by (simp add: parseIPv6_def)
    qed
  qed
qed

lemma v6_has_colon: "length ip = 16 \<Longrightarrow> CHR '':'' \<in> set (string6 ip)"
proof -
  assume len: "length ip = 16"
  then have "length (v6_groups ip) = 8"
    using v6_groups_props [of ip 8] by simp
  then obtain a b gs where gs: "v6_groups ip = a # b # gs"
    by (cases "v6_groups ip"; cases "tl (v6_groups ip)") auto
  obtain st l where best: "best_zeros 0 (v6_groups ip) (255, 0) = (st, l)"
    by (cases "best_zeros 0 (v6_groups ip) (255, 0)") auto
  have "CHR '':'' \<in> set (join '':'' (map hex_of_nat (v6_groups ip)))"
    by (simp add: gs join_Cons del: join.simps)
  then show ?thesis
    using best by (simp add: string6_def Let_def)
qed

lemma parseAddr_string6: "length ip = 16 \<Longrightarrow> parseAddr (string6 ip) = Some (V6 ip)"
proof -
  assume len: "length ip = 16"
  let ?P = "\<lambda>c. c = CHR ''.'' \<or> c = CHR '':'' \<or> c = CHR ''%''"
  have only: "\<forall>c \<in> set (string6 ip). ?P c \<longrightarrow> c = CHR '':''"
    using string6_chars not_hex_seps by metis
  have "find ?P (string6 ip) = Some (CHR '':'')"
  proof (cases "find ?P (string6 ip)")
    case None
    then show ?thesis
      using v6_has_colon [OF len] by (auto simp: find_None_iff)
  next
    case (Some c)
    then have "c \<in> set (string6 ip) \<and> ?P c"
      unfolding find_Some_iff by (metis nth_mem)
    then show ?thesis using only Some by blast
  qed
  then show ?thesis
    using parseIPv6_string6 [OF len] by (simp add: parseAddr_def)
qed

text \<open>
  ParseIP inverts String: the 16-byte form always comes back, whether it prints as a dotted
  quad or as colon-separated groups; a 4-byte address comes back in its 16-byte form.
\<close>

lemma parseIP_String_16: "length ip = 16 \<Longrightarrow> parseIP (ip_String ip) = Some ip"
proof -
  assume len: "length ip = 16"
  show ?thesis
  proof (cases "take 12 ip = v4InV6Prefix")
    case True
    then have "ip = v4InV6Prefix @ drop 12 ip"
      by (metis append_take_drop_id)
    moreover have "ip_String ip = string4 (drop 12 ip)"
      using len True by (auto simp: ip_String_def to4_def)
    ultimately show ?thesis
      using parseAddr_string4 [of "drop 12 ip"] len by (simp add: parseIP_def)
  next
    case False
    then have "ip_String ip = string6 ip"
      using len by (auto simp: ip_String_def to4_def)
    then show ?thesis
      using parseAddr_string6 [OF len] by (simp add: parseIP_def)
  qed
qed

lemma parseIP_String_4: "length ip = 4 \<Longrightarrow> parseIP (ip_String ip) = Some (v4InV6Prefix @ ip)"
  using parseAddr_string4 [of ip] by (auto simp: parseIP_def ip_String_def to4_def)

lemma length_v4InV6Prefix [simp]: "length v4InV6Prefix = 12"
  by (simp add: v4InV6Prefix_def)

lemma those_length: "those xs = Some ys \<Longrightarrow> length ys = length xs"
  by (induction xs arbitrary: ys) (auto split: option.splits)

lemma parseIPv4_length: "parseIPv4 s = Some b \<Longrightarrow> length b = 4"
  by (auto simp: parseIPv4_def Let_def split: if_splits dest: those_length)

lemma v6_loop_length:
  "v6_loop n ip ell s = Some (ip', ell', s') \<Longrightarrow> length ip + 2 * n = 16 \<Longrightarrow> (\<forall>e. ell = Some e \<longrightarrow> e \<le> length ip) \<Longrightarrow>
     length ip' \<le> 16 \<and> (\<forall>e. ell' = Some e \<longrightarrow> e \<le> length ip')"
proof (induction n ip ell s rule: v6_loop.induct)
  case (1 ip ell s)
  then show ?case by auto
next
  case (2 n ip ell s)
  show ?case
    using 2(3-) 2(1,2)
    by (simp only: v6_loop.simps Let_def)
      (fastforce split: if_splits list.splits option.splits dest: parseIPv4_length)
qed

lemma v6_finish_length:
  "v6_finish (ip, ell, s) = Some b \<Longrightarrow> length ip \<le> 16 \<Longrightarrow> (\<forall>e. ell = Some e \<longrightarrow> e \<le> length ip) \<Longrightarrow> length b = 16"
  by (auto simp: v6_finish_def split: if_splits option.splits)

lemma parseIPv6_length: "parseIPv6 s = Some b \<Longrightarrow> length b = 16"
  by (auto simp: parseIPv6_def bind_eq_Some_conv split: if_splits
      dest!: v6_loop_length intro: v6_finish_length)

lemma parseAddr_length:
  "parseAddr s = Some (V4 b) \<Longrightarrow> length b = 4" "parseAddr s = Some (V6 b) \<Longrightarrow> length b = 16"
  by (auto simp: parseAddr_def split: option.splits if_splits dest: parseIPv4_length parseIPv6_length)

lemma parseIP_length: "parseIP s = Some ip \<Longrightarrow> length ip = 16"
proof -
  assume "parseIP s = Some ip"
  then obtain a where "parseAddr s = Some a" "ip = as16 a" by (auto simp: parseIP_def)
  then show ?thesis using parseAddr_length by (cases a) auto
qed

section \<open>Host and port round trip\<close>

lemma splitHostPort_joinHostPort:
  assumes "CHR ''['' \<notin> set host" "CHR '']'' \<notin> set host"
    and "\<forall>c \<in> set port. c \<noteq> CHR '':'' \<and> c \<noteq> CHR ''['' \<and> c \<noteq> CHR '']''"
  shows "splitHostPort (joinHostPort host port) = Some (host, port)"
proof (cases "CHR '':'' \<in> set host")
  case True
  let ?hp = "''['' @ host @ '']:'' @ port"
  have "cutLast (CHR '':'') ?hp = Some (''['' @ host @ '']'', port)"
    using assms(3) by (auto simp: cutLast_Some)
  moreover have "cutAt (CHR '']'') ?hp = Some (''['' @ host, CHR '':'' # port)"
    using assms(2) by (simp add: cutAt_Some)
  moreover have "hasPrefix ?hp ''[''"
    by (simp add: hasPrefix_def)
  ultimately show ?thesis
    using True assms by (auto simp: joinHostPort_def splitHostPort_def)
next
  case False
  let ?hp = "host @ '':'' @ port"
  have "cutLast (CHR '':'') ?hp = Some (host, port)"
    using assms(3) by (auto simp: cutLast_Some)
  moreover have "\<not> hasPrefix ?hp ''[''"
    using assms by (cases host) (auto simp: hasPrefix_def)
  ultimately show ?thesis
    using False assms by (auto simp: joinHostPort_def splitHostPort_def)
qed

lemma string4_chars: "c \<in> set (string4 b) \<Longrightarrow> is_digit c \<or> c = CHR ''.''"
  unfolding string4_def
proof (induction b)
  case (Cons x xs)
  then show ?case
    by (cases "xs = []") (auto simp: join_Cons dest: dec_of_nat_digits)
qed simp

lemma ip_String_no_brackets:
  assumes "length ip = 4 \<or> length ip = 16"
  shows "CHR ''['' \<notin> set (ip_String ip)" "CHR '']'' \<notin> set (ip_String ip)"
proof -
  have chars: "c \<in> set (ip_String ip) \<Longrightarrow> is_digit c \<or> c = CHR ''.'' \<or> is_hex c \<or> c = CHR '':''" for c
    using assms string4_chars string6_chars
    by (auto simp: ip_String_def split: option.splits if_splits)
  show "CHR ''['' \<notin> set (ip_String ip)" "CHR '']'' \<notin> set (ip_String ip)"
    using chars [of "CHR ''[''"] chars [of "CHR '']''"] not_digit_dot not_hex_seps by auto
qed

text \<open>An advertised endpoint gives back the address it was made from.\<close>

lemma endpoint_roundtrip:
  assumes "length ip = 16"
  shows "splitHostPort (joinHostPort (ip_String ip) (itoa port)) = Some (ip_String ip, itoa port)"
proof -
  have "\<forall>c \<in> set (itoa port). c \<noteq> CHR '':'' \<and> c \<noteq> CHR ''['' \<and> c \<noteq> CHR '']''"
    by (auto simp: itoa_def dest: dec_of_nat_digits simp: not_digit_dot)
  then show ?thesis
    using ip_String_no_brackets [of ip] assms by (intro splitHostPort_joinHostPort) auto
qed

section \<open>Network membership\<close>

text \<open>The reference: an address is in a network when its first bits are the prefix's.\<close>

definition byte_bits :: "byte \<Rightarrow> bool list" where
  "byte_bits b = map (bit b) [7, 6, 5, 4, 3, 2, 1, 0]"

definition ip_bits :: "bytes \<Rightarrow> bool list" where
  "ip_bits ip = concat (map byte_bits ip)"

lemma byte_bits_inj: "byte_bits a = byte_bits b \<longleftrightarrow> a = b"
proof
  assume h: "byte_bits a = byte_bits b"
  show "a = b"
  proof (rule bit_word_eqI)
    fix n :: nat
    assume "n < LENGTH(8)"
    then have "n \<in> {0, 1, 2, 3, 4, 5, 6, 7}" by auto
    then show "bit a n = bit b n" using h by (auto simp: byte_bits_def)
  qed
qed simp

lemma mask_byte:
  assumes "n < 8"
  shows "a AND NOT (drop_bit n 0xff) = b AND NOT (drop_bit n (0xff :: byte)) \<longleftrightarrow>
     take n (byte_bits a) = take n (byte_bits b)"
proof -
  have n: "n = 0 \<or> n = 1 \<or> n = 2 \<or> n = 3 \<or> n = 4 \<or> n = 5 \<or> n = 6 \<or> n = 7"
    using assms by arith
  have ext: "x = y \<longleftrightarrow> byte_bits x = byte_bits y" for x y
    by (simp add: byte_bits_inj)
  show ?thesis
    unfolding ext [of "a AND _"] using n
    by (elim disjE) (simp_all add: byte_bits_def bit_and_iff bit_not_iff bit_drop_bit_eq bit_numeral_rec)
qed

lemma length_byte_bits [simp]: "length (byte_bits b) = 8"
  by (simp add: byte_bits_def)

lemma cidr_bits:
  assumes "length a = l" "length b = l" "n \<le> 8 * l"
  shows "list_all (\<lambda>(x, y, k). x AND k = y AND k) (zip a (zip b (cidrMask n l))) \<longleftrightarrow>
     take n (ip_bits a) = take n (ip_bits b)"
  using assms
proof (induction l arbitrary: a b n)
  case 0
  then show ?case by (simp add: ip_bits_def)
next
  case (Suc l)
  then obtain x xs y ys where ab: "a = x # xs" "b = y # ys" "length xs = l" "length ys = l"
    by (cases a; cases b) auto
  show ?case
  proof (cases "8 \<le> n")
    case True
    have "(0xff :: byte) = - 1" by simp
    then have "x AND 0xff = y AND 0xff \<longleftrightarrow> x = y"
      by (simp only: and.right_neutral)
    then show ?thesis
      using Suc.IH [OF ab(3,4), of "n - 8"] Suc.prems(3) ab True byte_bits_inj [of x y]
      by (auto simp: ip_bits_def)
  next
    case False
    then show ?thesis
      using Suc.IH [OF ab(3,4), of 0] ab mask_byte [of n x y] by (simp add: ip_bits_def)
  qed
qed

lemma length_cidrMask [simp]: "length (cidrMask n l) = l"
  by (induction n l rule: cidrMask.induct) auto

lemma masked_idem:
  assumes "length a = length k" "length b = length k"
  shows "list_all (\<lambda>(x, y, k). x AND k = y AND k) (zip (map2 (AND) a k) (zip b k)) \<longleftrightarrow>
     list_all (\<lambda>(x, y, k). x AND k = y AND k) (zip a (zip b k))"
  using assms
proof (induction a k arbitrary: b rule: list_induct2)
  case (Cons x xs k ks)
  then show ?case by (cases b) (auto simp: and.assoc)
qed simp

text \<open>An IPv4 CIDR contains exactly the IPv4 addresses that share its leading bits.\<close>

lemma parseCIDR_v4:
  assumes "cutAt (CHR ''/'') s = Some (a, m)" "parseAddr a = Some (V4 b)" "parseCIDR s = Some (ip0, n)"
  shows "net_Contains n ip \<longleftrightarrow>
    (\<exists>x. to4 ip = Some x \<and> take (dec_value m) (ip_bits x) = take (dec_value m) (ip_bits b))"
proof -
  have lb: "length b = 4" using parseAddr_length assms(2) by blast
  let ?k = "cidrMask (dec_value m) 4"
  have m: "dec_value m \<le> 8 * 4" and n: "n = \<lparr>net_IP = map2 (AND) b ?k, net_Mask = ?k\<rparr>"
    using assms lb by (auto simp: parseCIDR_def ip_Mask_def Let_def split: if_splits)
  have x4: "to4 ip = Some x \<Longrightarrow> length x = 4" for x
    by (auto simp: to4_def split: if_splits)
  have nn: "networkNumberAndMask n = Some (map2 (AND) b ?k, ?k)"
    using lb by (simp add: n networkNumberAndMask_def to4_def)
  have none: "to4 ip = None \<Longrightarrow> length ip \<noteq> 4"
    by (auto simp: to4_def)
  have "net_Contains n ip \<longleftrightarrow> (\<exists>x. to4 ip = Some x \<and>
      list_all (\<lambda>(x, y, k). x AND k = y AND k) (zip (map2 (AND) b ?k) (zip x ?k)))"
    using lb x4 none by (cases "to4 ip") (auto simp: net_Contains_def nn)
  also have "\<dots> \<longleftrightarrow> (\<exists>x. to4 ip = Some x \<and> take (dec_value m) (ip_bits b) = take (dec_value m) (ip_bits x))"
    using masked_idem [of b ?k] cidr_bits [OF lb _ m] lb x4 by auto
  finally show ?thesis by metis
qed

end
