(* ===== verification/Host.thy ===== *)
theory Host
  imports Kube Go_Net
begin

text \<open>
  What the program uses of the host it runs on and of Go's cryptography packages: files, the
  environment, PEM, X.509 and key generation. The encodings and the signatures are parameters, a
  record \<open>host\<close> of operations; the decoded values are data. The locale \<open>x509_lib\<close> states the
  documented behaviour the properties rely on: a certificate created from a template parses back
  as that template for the given key, with times cut to whole seconds and IPv4 addresses in four
  bytes, and PEM decoding finds the certificate that was encoded. \<open>mem_host\<close> is a concrete host that satisfies it.
\<close>

section \<open>Keys and certificates\<close>

datatype curve = P224 | P256 | P384 | P521 | OtherCurve string

datatype public_key =
    ECDSA curve nat nat
  | Ed25519 string
  | RSA nat nat
  | OtherKey string

text \<open>The Equal method of a public key, with its presence: only the known key types have one.\<close>

fun key_Equal :: "public_key \<Rightarrow> public_key \<Rightarrow> bool" where
  "key_Equal (OtherKey _) _ = False"
| "key_Equal k k' = (k = k')"

record signer =
  sk_Public :: public_key
  sk_secret :: string

datatype ext_key_usage = ExtKeyUsageServerAuth | ExtKeyUsageClientAuth | OtherExtKeyUsage string

definition KeyUsageDigitalSignature :: nat where "KeyUsageDigitalSignature = 1"
definition KeyUsageKeyEncipherment :: nat where "KeyUsageKeyEncipherment = 4"
definition KeyUsageCertSign :: nat where "KeyUsageCertSign = 32"

record certificate =
  SerialNumber :: nat
  Subject :: pkix_name
  NotBefore :: time
  NotAfter :: time
  KeyUsage :: nat
  ExtKeyUsage :: "ext_key_usage list"
  BasicConstraintsValid :: bool
  IsCA :: bool
  DNSNames :: "string list"
  IPAddresses :: "ip list"
  PublicKey :: public_key

record csr =
  csr_Subject :: pkix_name
  csr_DNSNames :: "string list"
  csr_PublicKey :: public_key

text \<open>
  ASN.1 times have whole seconds, and an IPv4 address in a SAN has four bytes whichever of Go's
  two forms the template holds.
\<close>

definition truncSecond :: "time \<Rightarrow> time" where
  "truncSecond t = t - t mod second"

definition sanBytes :: "ip \<Rightarrow> ip" where
  "sanBytes ip = (case to4 ip of Some b \<Rightarrow> b | None \<Rightarrow> ip)"

definition certified :: "certificate \<Rightarrow> public_key \<Rightarrow> certificate" where
  "certified tmpl pub = tmpl\<lparr>NotBefore := truncSecond (NotBefore tmpl),
     NotAfter := truncSecond (NotAfter tmpl), IPAddresses := map sanBytes (IPAddresses tmpl), PublicKey := pub\<rparr>"

text \<open>
  The templates X.509 stores as they are: basic constraints are written, the nine key usage bits
  suffice, and there is at most one organization (several share a SET, which DER sorts).
\<close>

definition encodable :: "certificate \<Rightarrow> bool" where
  "encodable tmpl \<longleftrightarrow> BasicConstraintsValid tmpl \<and> KeyUsage tmpl < 2 ^ 9 \<and> length (Organization (Subject tmpl)) \<le> 1"

lemma truncSecond_le: "truncSecond t \<le> t"
  by (simp add: truncSecond_def second_def)

lemma v4_form: "length ip = 16 \<Longrightarrow> take 12 ip = v4InV6Prefix \<Longrightarrow> ip = v4InV6Prefix @ drop 12 ip"
  by (metis append_take_drop_id)

lemma ip_Equal_sanBytes [simp]: "ip_Equal (sanBytes a) b = ip_Equal a b"
proof (cases "length a = 16 \<and> take 12 a = v4InV6Prefix")
  case True
  define x where "x = drop 12 a"
  have "a = v4InV6Prefix @ x" "length x = 4" using True v4_form by (simp_all add: x_def)
  then show ?thesis by (auto simp: sanBytes_def to4_def ip_Equal_def v4InV6Prefix_def)
qed (auto simp: sanBytes_def to4_def)

lemma ip_Equal_sym: "ip_Equal a b = ip_Equal b a"
  by (auto simp: ip_Equal_def)

lemma isLoopback_Equal: "ip_Equal a b \<Longrightarrow> isLoopback a = isLoopback b"
  by (auto simp: ip_Equal_def isLoopback_def to4_def v4InV6Prefix_def nth_append split: if_splits)

lemma certified_sel [simp]:
  "Subject (certified t p) = Subject t" "ExtKeyUsage (certified t p) = ExtKeyUsage t"
  "IsCA (certified t p) = IsCA t" "DNSNames (certified t p) = DNSNames t"
  "IPAddresses (certified t p) = map sanBytes (IPAddresses t)" "PublicKey (certified t p) = p"
  "KeyUsage (certified t p) = KeyUsage t" "SerialNumber (certified t p) = SerialNumber t"
  "NotBefore (certified t p) = truncSecond (NotBefore t)" "NotAfter (certified t p) = truncSecond (NotAfter t)"
  by (simp_all add: certified_def)

section \<open>The host\<close>

record 'w host =
  readFile :: "string \<Rightarrow> 'w \<Rightarrow> (string, string) result \<times> 'w"
  getenv :: "string \<Rightarrow> string"
  hostname :: "(string, string) result"
  interfaceAddrs :: "(string, ipnet option list) result"
  pemDecode :: "string \<Rightarrow> string option"
  pemEncode :: "string \<Rightarrow> string \<Rightarrow> string"
  parseCertificate :: "string \<Rightarrow> (string, certificate) result"
  parseECPrivateKey :: "string \<Rightarrow> (string, signer) result"
  parsePKCS1PrivateKey :: "string \<Rightarrow> (string, signer) result"
  parsePKCS8PrivateKey :: "string \<Rightarrow> (string, signer option) result"
  parseCertificateRequest :: "string \<Rightarrow> (string, csr) result"
  checkSignature :: "csr \<Rightarrow> string option"
  createCertificate :: "certificate \<Rightarrow> certificate option \<Rightarrow> public_key \<Rightarrow> signer \<Rightarrow> 'w \<Rightarrow> (string, string) result \<times> 'w"
  randInt :: "nat \<Rightarrow> 'w \<Rightarrow> (string, nat) result \<times> 'w"
  generateKey :: "curve \<Rightarrow> 'w \<Rightarrow> (string, signer) result \<times> 'w"
  marshalECPrivateKey :: "signer \<Rightarrow> (string, string) result"
  x509KeyPair :: "string \<Rightarrow> string \<Rightarrow> (string, string) result"

text \<open>
  \<open>interfaceAddrs\<close> lists \<open>None\<close> for an address that is no *net.IPNet. \<open>parsePKCS8PrivateKey\<close> answers \<open>Inr None\<close> for a key that is no crypto.Signer. \<open>x509KeyPair\<close> is
  tls.X509KeyPair, the loaded pair being its leaf certificate's DER bytes.
\<close>

locale x509_lib =
  fixes host :: "'w host"
  assumes create_parse: "createCertificate host tmpl parent pub priv w = (Inr der, w') \<Longrightarrow> encodable tmpl \<Longrightarrow>
      parseCertificate host der = Inr (certified tmpl pub)"
    and pem_roundtrip: "pemDecode host (pemEncode host ''CERTIFICATE'' block @ rest) = Some block"
    and key_pair: "x509KeyPair host (pemEncode host ''CERTIFICATE'' block) key = Inr leaf \<Longrightarrow> leaf = block"

section \<open>A concrete host\<close>

text \<open>
  DER is played by length-prefixed fields, which its own parser reads back.
\<close>

definition field :: "string \<Rightarrow> string" where
  "field s = replicate (length s) (CHR ''1'') @ CHR ''0'' # s"

definition unfield :: "string \<Rightarrow> string \<times> string" where
  "unfield s = (let n = length (takeWhile (\<lambda>c. c = CHR ''1'') s); r = drop (Suc n) s in (take n r, drop n r))"

fun unfields :: "nat \<Rightarrow> string \<Rightarrow> string list" where
  "unfields 0 s = []"
| "unfields (Suc n) s = (if s = [] then [] else case unfield s of (f, r) \<Rightarrow> f # unfields n r)"

lemma unfield_field [simp]: "unfield (field s @ r) = (s, r)"
  by (simp add: unfield_def field_def takeWhile_append Let_def)

lemma unfield_field_Nil [simp]: "unfield (field s) = (s, [])"
  using unfield_field [of s "[]"] by simp

definition bool_field :: "bool \<Rightarrow> string" where
  "bool_field b = (if b then ''t'' else ''f'')"

definition list_field :: "string list \<Rightarrow> string" where
  "list_field xs = concat (map field xs)"

definition curve_field :: "curve \<Rightarrow> string" where
  "curve_field c = (case c of P224 \<Rightarrow> ''p224'' | P256 \<Rightarrow> ''p256'' | P384 \<Rightarrow> ''p384'' | P521 \<Rightarrow> ''p521'' | OtherCurve n \<Rightarrow> CHR ''c'' # n)"

definition key_fields :: "public_key \<Rightarrow> string list" where
  "key_fields k = (case k of
       ECDSA c x y \<Rightarrow> [curve_field c, dec_of_nat x, dec_of_nat y]
     | Ed25519 b \<Rightarrow> [''ed25519'', b, []]
     | RSA n e \<Rightarrow> [''rsa'', dec_of_nat n, dec_of_nat e]
     | OtherKey t \<Rightarrow> [''other'', t, []])"

definition key_of_fields :: "string list \<Rightarrow> public_key" where
  "key_of_fields fs = (case fs of
       [t, a, b] \<Rightarrow>
         (if t = ''p224'' then ECDSA P224 (dec_value a) (dec_value b)
          else if t = ''p256'' then ECDSA P256 (dec_value a) (dec_value b)
          else if t = ''p384'' then ECDSA P384 (dec_value a) (dec_value b)
          else if t = ''p521'' then ECDSA P521 (dec_value a) (dec_value b)
          else if t = ''ed25519'' then Ed25519 a
          else if t = ''rsa'' then RSA (dec_value a) (dec_value b)
          else if t = ''other'' then OtherKey a
          else ECDSA (OtherCurve (tl t)) (dec_value a) (dec_value b))
     | _ \<Rightarrow> OtherKey [])"

text \<open>A signed number is written as its positive and its negative part.\<close>

definition int_field :: "int \<Rightarrow> string" where
  "int_field t = list_field [dec_of_nat (nat t), dec_of_nat (nat (- t))]"

definition int_of_field :: "string \<Rightarrow> int" where
  "int_of_field s = (case unfields 2 s of [a, b] \<Rightarrow> int (dec_value a) - int (dec_value b) | _ \<Rightarrow> 0)"

definition usage_field :: "ext_key_usage \<Rightarrow> string" where
  "usage_field u = (case u of ExtKeyUsageServerAuth \<Rightarrow> ''s'' | ExtKeyUsageClientAuth \<Rightarrow> ''c'' | OtherExtKeyUsage n \<Rightarrow> CHR ''o'' # n)"

definition usage_of_field :: "string \<Rightarrow> ext_key_usage" where
  "usage_of_field s = (if s = ''s'' then ExtKeyUsageServerAuth else if s = ''c'' then ExtKeyUsageClientAuth else OtherExtKeyUsage (tl s))"

definition mem_der :: "certificate \<Rightarrow> string" where
  "mem_der c = list_field
     [dec_of_nat (SerialNumber c), CommonName (Subject c), list_field (Organization (Subject c)),
      int_field (NotBefore c), int_field (NotAfter c), dec_of_nat (KeyUsage c),
      list_field (map usage_field (ExtKeyUsage c)), bool_field (BasicConstraintsValid c), bool_field (IsCA c),
      list_field (DNSNames c), list_field (map (map (char_of \<circ> unat)) (IPAddresses c)),
      list_field (key_fields (PublicKey c))]"

definition mem_parse :: "string \<Rightarrow> (string, certificate) result" where
  "mem_parse der = (case unfields 12 der of
      [sn, cn, orgs, nb, na, ku, eku, bc, isca, dns, ips, key] \<Rightarrow>
        Inr \<lparr>SerialNumber = dec_value sn,
          Subject = \<lparr>CommonName = cn, Organization = unfields (length orgs) orgs\<rparr>,
          NotBefore = int_of_field nb, NotAfter = int_of_field na, KeyUsage = dec_value ku,
          ExtKeyUsage = map usage_of_field (unfields (length eku) eku),
          BasicConstraintsValid = (bc = ''t''), IsCA = (isca = ''t''),
          DNSNames = unfields (length dns) dns,
          IPAddresses = map (map (word_of_nat \<circ> of_char)) (unfields (length ips) ips),
          PublicKey = key_of_fields (unfields 3 key)\<rparr>
    | _ \<Rightarrow> Inl ''malformed certificate'')"

definition mem_parse_csr :: "string \<Rightarrow> (string, csr) result" where
  "mem_parse_csr der = (case unfields 3 der of
      [cn, orgs, key] \<Rightarrow> Inr \<lparr>csr_Subject = \<lparr>CommonName = cn, Organization = unfields (length orgs) orgs\<rparr>,
        csr_DNSNames = [], csr_PublicKey = key_of_fields (unfields 3 key)\<rparr>
    | _ \<Rightarrow> Inl ''malformed certificate request'')"

definition mem_csr :: "string \<Rightarrow> string list \<Rightarrow> public_key \<Rightarrow> string" where
  "mem_csr cn orgs k = list_field [cn, list_field orgs, list_field (key_fields k)]"

definition mem_signer :: signer where
  "mem_signer = \<lparr>sk_Public = ECDSA P256 7 9, sk_secret = ''k''\<rparr>"

definition mem_create :: "certificate \<Rightarrow> public_key \<Rightarrow> (string, string) result" where
  "mem_create tmpl pub = Inr (mem_der (certified tmpl pub))"

text \<open>What the concrete host writes it reads back.\<close>

lemma field_not_Nil [simp]: "field s \<noteq> []"
  by (simp add: field_def)

lemma unfields_list_field [simp]: "length xs \<le> n \<Longrightarrow> unfields n (list_field xs) = xs"
proof (induction xs arbitrary: n)
  case Nil
  then show ?case by (cases n) (simp_all add: list_field_def)
next
  case (Cons x xs)
  then obtain m where "n = Suc m" by (cases n) auto
  then show ?case using Cons by (simp add: list_field_def)
qed

lemma length_list_field [simp]: "length xs \<le> length (list_field xs)"
  by (induction xs) (auto simp: list_field_def field_def)

lemma unfields_all [simp]: "unfields (length (list_field xs)) (list_field xs) = xs"
  by (simp only: unfields_list_field length_list_field)

lemma key_of_key_fields [simp]: "key_of_fields (key_fields k) = k"
  by (cases k) (auto simp: key_of_fields_def key_fields_def curve_field_def split: curve.splits)

lemma int_of_int_field [simp]: "int_of_field (int_field t) = t"
  by (simp add: int_of_field_def int_field_def)

lemma usage_of_usage_field [simp]: "usage_of_field (usage_field u) = u"
  by (cases u) (auto simp: usage_of_field_def usage_field_def)

lemma length_key_fields [simp]: "length (key_fields k) = 3"
  by (simp add: key_fields_def split: public_key.splits)

lemma byte_mod_256 [simp]: "word_of_nat (unat b mod 256) = (b :: byte)"
proof -
  have "unat b < 2 ^ LENGTH(8)" by (rule unsigned_less)
  then show ?thesis by simp
qed

lemma map_bytes_id [simp]: "map (map (\<lambda>y. word_of_nat (unat y mod 256) :: byte)) ips = ips"
  by (simp add: map_idI)

lemma mem_parse_der [simp]: "mem_parse (mem_der c) = Inr c"
  by (cases c; cases "Subject c") (auto simp: mem_parse_def mem_der_def bool_field_def comp_def map_idI)

lemma mem_parse_csr_csr [simp]:
  "mem_parse_csr (mem_csr cn orgs k) =
     Inr \<lparr>csr_Subject = \<lparr>CommonName = cn, Organization = orgs\<rparr>, csr_DNSNames = [], csr_PublicKey = k\<rparr>"
  by (simp add: mem_parse_csr_def mem_csr_def)

definition mem_host :: "mem host" where
  "mem_host =
     \<lparr>readFile = (\<lambda>path w. (Inl ''no such file'', w)),
      getenv = (\<lambda>v. []),
      hostname = Inr ''cp-1'',
      interfaceAddrs = Inr [],
      pemDecode = (\<lambda>s. Some (fst (unfield s))),
      pemEncode = (\<lambda>type block. field block),
      parseCertificate = mem_parse,
      parseECPrivateKey = (\<lambda>s. if s = ''k'' then Inr mem_signer else Inl ''malformed key''),
      parsePKCS1PrivateKey = (\<lambda>s. Inl ''malformed key''),
      parsePKCS8PrivateKey = (\<lambda>s. Inl ''malformed key''),
      parseCertificateRequest = mem_parse_csr,
      checkSignature = (\<lambda>c. None),
      createCertificate = (\<lambda>tmpl parent pub priv w. (mem_create tmpl pub, w)),
      randInt = (\<lambda>n w. (Inr 5, w)),
      generateKey = (\<lambda>c w. (Inr mem_signer, w)),
      marshalECPrivateKey = (\<lambda>k. Inr (sk_secret k)),
      x509KeyPair = (\<lambda>cert key. if key = [] then Inl ''no key'' else Inr (fst (unfield cert)))\<rparr>"

lemma mem_host_ops [simp]:
  "parseCertificate mem_host = mem_parse" "parseCertificateRequest mem_host = mem_parse_csr"
  "checkSignature mem_host c = None" "createCertificate mem_host t p k s w = (mem_create t k, w)"
  "randInt mem_host n w = (Inr 5, w)" "pemDecode mem_host text = Some (fst (unfield text))"
  "pemEncode mem_host ty b = field b" "generateKey mem_host cu w = (Inr mem_signer, w)"
  "marshalECPrivateKey mem_host s = Inr (sk_secret s)" "getenv mem_host v = []"
  "hostname mem_host = Inr ''cp-1''" "interfaceAddrs mem_host = Inr []"
  "x509KeyPair mem_host ce ke = (if ke = [] then Inl ''no key'' else Inr (fst (unfield ce)))"
  by (simp_all add: mem_host_def)

interpretation mem_x509: x509_lib mem_host
  by unfold_locales (auto simp: mem_create_def Let_def split: if_splits)

end
