(* ===== verification/Pki.thy ===== *)
theory Pki
  imports Host
begin

text \<open>
  Model of src/internal/pki/pki.go: loading the cluster CA and signing with it. Every definition
  takes the platform (clock) and the host (files, PEM, X.509) it runs on; an error is a value of
  \<open>pki_error\<close>, one constructor per error the code constructs.
\<close>

section \<open>The certificate authority\<close>

record ca =
  ca_Cert :: "certificate option"
  ca_Key :: signer
  ca_PEM :: string
  ca_MaxTTL :: duration

datatype csr_problem =
    CsrParse string
  | CsrSignature string
  | WeakCurve curve
  | WeakRSA nat
  | UnknownKeyType

datatype pki_error =
    ReadCert string
  | ReadKey string
  | CertNotPEM
  | ParseCert string
  | NotACA
  | NoCertSign
  | NotValidNow time time
  | KeyNotPEM
  | ParseKey string
  | KeyMismatch
  | ErrBadCSR csr_problem
  | RandFailed string
  | SignFailed string
  | KeyGenFailed string
  | MarshalFailed string
  | KeyPairFailed string

definition parseKey :: "'w host \<Rightarrow> string \<Rightarrow> (string, signer) result" where
  "parseKey h der =
     (case parseECPrivateKey h der of
        Inr k \<Rightarrow> Inr k
      | Inl _ \<Rightarrow> (case parsePKCS1PrivateKey h der of
                   Inr k \<Rightarrow> Inr k
                 | Inl _ \<Rightarrow> (case parsePKCS8PrivateKey h der of
                              Inl e \<Rightarrow> Inl e
                            | Inr None \<Rightarrow> Inl ''key does not implement crypto.Signer''
                            | Inr (Some k) \<Rightarrow> Inr k)))"

text \<open>LoadCA up to its reading of the clock: the certificate must be a CA that may sign.\<close>

definition loadCert :: "'w host \<Rightarrow> string \<Rightarrow> (pki_error, certificate) result" where
  "loadCert h certPEM =
     (case pemDecode h certPEM of
        None \<Rightarrow> Inl CertNotPEM
      | Some cb \<Rightarrow>
     (case parseCertificate h cb of
        Inl e \<Rightarrow> Inl (ParseCert e)
      | Inr cert \<Rightarrow>
          if \<not> IsCA cert then Inl NotACA
          else if KeyUsage cert AND KeyUsageCertSign = 0 then Inl NoCertSign
          else Inr cert))"

text \<open>The rest of LoadCA: the validity window, the key and that it belongs to the certificate.\<close>

definition pairCA :: "'w host \<Rightarrow> string \<Rightarrow> certificate \<Rightarrow> string \<Rightarrow> duration \<Rightarrow> time \<Rightarrow> (pki_error, ca) result" where
  "pairCA h certPEM cert keyPEM maxTTL now =
     (if now < NotBefore cert \<or> NotAfter cert < now then Inl (NotValidNow (NotBefore cert) (NotAfter cert))
      else
     (case pemDecode h keyPEM of
        None \<Rightarrow> Inl KeyNotPEM
      | Some kb \<Rightarrow>
     (case parseKey h kb of
        Inl e \<Rightarrow> Inl (ParseKey e)
      | Inr key \<Rightarrow>
          if \<not> key_Equal (sk_Public key) (PublicKey cert) then Inl KeyMismatch
          else Inr \<lparr>ca_Cert = Some cert, ca_Key = key, ca_PEM = certPEM,
                    ca_MaxTTL = (if maxTTL = 0 then 365 * 24 * hour else maxTTL)\<rparr>)))"

definition LoadCA :: "'w platform \<Rightarrow> 'w host \<Rightarrow> string \<Rightarrow> string \<Rightarrow> duration \<Rightarrow> 'w \<Rightarrow> (pki_error, ca) result \<times> 'w" where
  "LoadCA pf h certPath keyPath maxTTL w =
     (case readFile h certPath w of
        (Inl e, w1) \<Rightarrow> (Inl (ReadCert e), w1)
      | (Inr certPEM, w1) \<Rightarrow>
     (case readFile h keyPath w1 of
        (Inl e, w2) \<Rightarrow> (Inl (ReadKey e), w2)
      | (Inr keyPEM, w2) \<Rightarrow>
     (case loadCert h certPEM of
        Inl e \<Rightarrow> (Inl e, w2)
      | Inr cert \<Rightarrow>
     (case timeNow pf w2 of
        (now, w3) \<Rightarrow> (pairCA h certPEM cert keyPEM maxTTL now, w3)))))"

section \<open>Certificate requests\<close>

record Request =
  rq_CommonName :: string
  rq_Organization :: "string list"
  rq_DNSNames :: "string list"
  rq_IPAddresses :: "ip list"
  rq_ClientAuth :: bool

definition minRSABits :: nat where "minRSABits = 2048"

text \<open>big.Int.BitLen: the number of bits of the modulus.\<close>

fun big_BitLen :: "nat \<Rightarrow> nat" where
  "big_BitLen n = (if n = 0 then 0 else Suc (big_BitLen (n div 2)))"

declare big_BitLen.simps [simp del]

definition checkPublicKey :: "public_key \<Rightarrow> csr_problem option" where
  "checkPublicKey pub =
     (case pub of
        ECDSA c _ _ \<Rightarrow> (if c = P256 \<or> c = P384 \<or> c = P521 then None else Some (WeakCurve c))
      | Ed25519 _ \<Rightarrow> None
      | RSA n _ \<Rightarrow> (if big_BitLen n < minRSABits then Some (WeakRSA (big_BitLen n)) else None)
      | OtherKey _ \<Rightarrow> Some UnknownKeyType)"

definition parseCSR :: "'w host \<Rightarrow> string \<Rightarrow> (pki_error, csr) result" where
  "parseCSR h csrDER =
     (case parseCertificateRequest h csrDER of
        Inl e \<Rightarrow> Inl (ErrBadCSR (CsrParse e))
      | Inr c \<Rightarrow>
     (case checkSignature h c of
        Some e \<Rightarrow> Inl (ErrBadCSR (CsrSignature e))
      | None \<Rightarrow>
     (case checkPublicKey (csr_PublicKey c) of
        Some e \<Rightarrow> Inl (ErrBadCSR e)
      | None \<Rightarrow> Inr c)))"

definition CheckCSR :: "'w host \<Rightarrow> string \<Rightarrow> pki_error option" where
  "CheckCSR h csrDER = (case parseCSR h csrDER of Inl e \<Rightarrow> Some e | Inr _ \<Rightarrow> None)"

definition notAfter :: "ca \<Rightarrow> time \<Rightarrow> duration \<Rightarrow> time" where
  "notAfter ca now ttl =
     (let na = now + ttl in
      case ca_Cert ca of
        Some c \<Rightarrow> (if NotAfter c < na then NotAfter c else na)
      | None \<Rightarrow> na)"

text \<open>The template both signing paths fill in; the key is the argument of CreateCertificate.\<close>

definition leafTemplate :: "nat \<Rightarrow> Request \<Rightarrow> time \<Rightarrow> time \<Rightarrow> public_key \<Rightarrow> certificate" where
  "leafTemplate serial req now na pub =
     \<lparr>SerialNumber = serial,
      Subject = \<lparr>CommonName = rq_CommonName req, Organization = rq_Organization req\<rparr>,
      NotBefore = now - 5 * minute,
      NotAfter = na,
      KeyUsage = KeyUsageDigitalSignature OR KeyUsageKeyEncipherment,
      ExtKeyUsage = [if rq_ClientAuth req then ExtKeyUsageClientAuth else ExtKeyUsageServerAuth],
      BasicConstraintsValid = True,
      IsCA = False,
      DNSNames = rq_DNSNames req,
      IPAddresses = rq_IPAddresses req,
      PublicKey = pub\<rparr>"

definition Sign :: "'w platform \<Rightarrow> 'w host \<Rightarrow> ca \<Rightarrow> string \<Rightarrow> Request \<Rightarrow> 'w
    \<Rightarrow> (pki_error, string \<times> time) result \<times> 'w" where
  "Sign pf h ca csrDER req w =
     (case parseCSR h csrDER of
        Inl e \<Rightarrow> (Inl e, w)
      | Inr csr \<Rightarrow>
     (case randInt h (2 ^ 128) w of
        (Inl e, w1) \<Rightarrow> (Inl (RandFailed e), w1)
      | (Inr serial, w1) \<Rightarrow>
     (case timeNow pf w1 of
        (now, w2) \<Rightarrow>
     (let na = notAfter ca now (ca_MaxTTL ca);
          tmpl = leafTemplate serial req now na (csr_PublicKey csr) in
      case createCertificate h tmpl (ca_Cert ca) (csr_PublicKey csr) (ca_Key ca) w2 of
        (Inl e, w3) \<Rightarrow> (Inl (SignFailed e), w3)
      | (Inr der, w3) \<Rightarrow> (Inr (pemEncode h ''CERTIFICATE'' der @ ca_PEM ca, na), w3)))))"

definition IssueSelf :: "'w platform \<Rightarrow> 'w host \<Rightarrow> ca \<Rightarrow> Request \<Rightarrow> duration \<Rightarrow> 'w
    \<Rightarrow> (pki_error, string \<times> string \<times> time) result \<times> 'w" where
  "IssueSelf pf h ca req ttl w =
     (case generateKey h P256 w of
        (Inl e, w1) \<Rightarrow> (Inl (KeyGenFailed e), w1)
      | (Inr key, w1) \<Rightarrow>
     (case randInt h (2 ^ 128) w1 of
        (Inl e, w2) \<Rightarrow> (Inl (RandFailed e), w2)
      | (Inr serial, w2) \<Rightarrow>
     (case timeNow pf w2 of
        (now, w3) \<Rightarrow>
     (let na = notAfter ca now (if ttl = 0 then ca_MaxTTL ca else ttl);
          tmpl = leafTemplate serial req now na (sk_Public key) in
      case createCertificate h tmpl (ca_Cert ca) (sk_Public key) (ca_Key ca) w3 of
        (Inl e, w4) \<Rightarrow> (Inl (SignFailed e), w4)
      | (Inr der, w4) \<Rightarrow>
     (case marshalECPrivateKey h key of
        Inl e \<Rightarrow> (Inl (MarshalFailed e), w4)
      | Inr keyDER \<Rightarrow>
          (Inr (pemEncode h ''CERTIFICATE'' der, pemEncode h ''EC PRIVATE KEY'' keyDER, na), w4))))))"

section \<open>Lemmas\<close>

lemma notAfter_le: "notAfter ca now ttl \<le> now + ttl"
  by (simp add: notAfter_def Let_def split: option.splits)

lemma notAfter_ca: "ca_Cert ca = Some c \<Longrightarrow> notAfter ca now ttl \<le> NotAfter c"
  by (simp add: notAfter_def Let_def)

lemma notAfter_exact: "ca_Cert ca = Some c \<Longrightarrow> notAfter ca now ttl = min (now + ttl) (NotAfter c)"
  by (simp add: notAfter_def min_def Let_def)

lemma leaf_key_usage: "(KeyUsageDigitalSignature OR KeyUsageKeyEncipherment) AND KeyUsageCertSign = 0"
  by (simp add: KeyUsageDigitalSignature_def KeyUsageKeyEncipherment_def KeyUsageCertSign_def)

lemma encodable_leafTemplate [simp]:
  "encodable (leafTemplate serial req now na pub) \<longleftrightarrow> length (rq_Organization req) \<le> 1"
  by (simp add: encodable_def leafTemplate_def KeyUsageDigitalSignature_def KeyUsageKeyEncipherment_def)

text \<open>A modulus has at least \<open>b\<close> bits when it is at least \<open>2 ^ (b - 1)\<close>.\<close>

lemma big_BitLen_ge: "0 < b \<Longrightarrow> b \<le> big_BitLen n \<longleftrightarrow> 2 ^ (b - 1) \<le> n"
proof (induction b arbitrary: n)
  case 0
  then show ?case by simp
next
  case (Suc b)
  show ?case
  proof (cases "n = 0 \<or> b = 0")
    case True
    then show ?thesis by (auto simp: big_BitLen.simps [of n])
  next
    case False
    then obtain m where b: "b = Suc m" by (cases b) auto
    have "b \<le> big_BitLen (n div 2) \<longleftrightarrow> 2 ^ (b - 1) \<le> n div 2" using Suc False by simp
    also have "\<dots> \<longleftrightarrow> 2 ^ b \<le> n" by (simp add: b less_eq_div_iff_mult_less_eq mult.commute)
    finally show ?thesis using False by (simp add: big_BitLen.simps [of n])
  qed
qed

lemma parseCSR_Inr:
  "parseCSR h d = Inr c \<longleftrightarrow> parseCertificateRequest h d = Inr c \<and> checkSignature h c = None \<and>
     checkPublicKey (csr_PublicKey c) = None"
  by (auto simp: parseCSR_def split: sum.splits option.splits)

lemma parseCSR_Inl: "parseCSR h d = Inl e \<Longrightarrow> \<exists>p. e = ErrBadCSR p"
  by (auto simp: parseCSR_def split: sum.splits option.splits)

lemma CheckCSR_None: "CheckCSR h d = None \<longleftrightarrow> (\<exists>c. parseCSR h d = Inr c)"
  by (simp add: CheckCSR_def split: sum.splits)

lemma Sign_Inr:
  assumes "Sign pf h ca d req w = (Inr (pem, na), w')"
  obtains csr serial now der w1 w2 where
    "parseCSR h d = Inr csr" "randInt h (2 ^ 128) w = (Inr serial, w1)" "timeNow pf w1 = (now, w2)"
    "na = notAfter ca now (ca_MaxTTL ca)"
    "createCertificate h (leafTemplate serial req now na (csr_PublicKey csr)) (ca_Cert ca) (csr_PublicKey csr) (ca_Key ca) w2
       = (Inr der, w')"
    "pem = pemEncode h ''CERTIFICATE'' der @ ca_PEM ca"
  using assms by (auto simp: Sign_def Let_def split: sum.splits prod.splits)

text \<open>Sign refuses for the request exactly when CheckCSR does, and then has touched nothing.\<close>

lemma Sign_bad: "CheckCSR h d = Some e \<Longrightarrow> Sign pf h ca d req w = (Inl e, w)"
  by (simp add: CheckCSR_def Sign_def split: sum.splits)

lemma Sign_BadCSR: "Sign pf h ca d req w = (Inl (ErrBadCSR p), w') \<Longrightarrow> CheckCSR h d = Some (ErrBadCSR p)"
  by (auto simp: CheckCSR_def Sign_def Let_def split: sum.splits prod.splits)

section \<open>What the certificate authority guarantees\<close>

text \<open>
  (C18) Issuance. A certificate Sign returns decodes to a leaf for the CSR's public key whose
  subject and SANs are the request's and nothing of the CSR's, with the one extended key usage
  the request names, that is no CA, cannot sign certificates and expires neither after the
  configured TTL nor after its issuer; the issuer's certificate follows it in the output. (The
  requests of this program name at most one organization.)
\<close>

theorem Sign_sound:
  assumes "x509_lib h" and "Sign pf h ca d req w = (Inr (pem, na), w')" and "length (rq_Organization req) \<le> 1"
  shows "\<exists>der cert csr now w1 w2. pemDecode h pem = Some der \<and> parseCertificate h der = Inr cert \<and>
    parseCertificateRequest h d = Inr csr \<and> checkSignature h csr = None \<and> checkPublicKey (csr_PublicKey csr) = None \<and>
    PublicKey cert = csr_PublicKey csr \<and>
    Subject cert = \<lparr>CommonName = rq_CommonName req, Organization = rq_Organization req\<rparr> \<and>
    DNSNames cert = rq_DNSNames req \<and> IPAddresses cert = map sanBytes (rq_IPAddresses req) \<and>
    ExtKeyUsage cert = [if rq_ClientAuth req then ExtKeyUsageClientAuth else ExtKeyUsageServerAuth] \<and>
    \<not> IsCA cert \<and> KeyUsage cert AND KeyUsageCertSign = 0 \<and>
    timeNow pf w1 = (now, w2) \<and> NotAfter cert \<le> na \<and> na \<le> now + ca_MaxTTL ca \<and>
    (\<forall>issuer. ca_Cert ca = Some issuer \<longrightarrow> na \<le> NotAfter issuer) \<and>
    (\<exists>leaf. pem = leaf @ ca_PEM ca)"
proof -
  obtain csr serial now der w1 w2 where p: "parseCSR h d = Inr csr" and t: "timeNow pf w1 = (now, w2)"
    and na: "na = notAfter ca now (ca_MaxTTL ca)"
    and c: "createCertificate h (leafTemplate serial req now na (csr_PublicKey csr)) (ca_Cert ca)
      (csr_PublicKey csr) (ca_Key ca) w2 = (Inr der, w')"
    and pem: "pem = pemEncode h ''CERTIFICATE'' der @ ca_PEM ca"
    by (rule Sign_Inr [OF assms(2)])
  let ?cert = "certified (leafTemplate serial req now na (csr_PublicKey csr)) (csr_PublicKey csr)"
  have "pemDecode h pem = Some der" "parseCertificate h der = Inr ?cert"
    using x509_lib.pem_roundtrip [OF assms(1)] x509_lib.create_parse [OF assms(1) c] assms(3) pem by simp_all
  moreover have "na \<le> now + ca_MaxTTL ca" "\<And>i. ca_Cert ca = Some i \<Longrightarrow> na \<le> NotAfter i"
    using na notAfter_le notAfter_ca by auto
  ultimately show ?thesis
    using p t pem by (intro exI [of _ der] exI [of _ ?cert] exI [of _ csr] exI [of _ now] exI [of _ w1] exI [of _ w2])
      (auto simp: parseCSR_Inr leafTemplate_def truncSecond_le leaf_key_usage)
qed

theorem Sign_sound_witness:
  "let ca = \<lparr>ca_Cert = None, ca_Key = mem_signer, ca_PEM = ''CA'', ca_MaxTTL = hour\<rparr>;
       req = \<lparr>rq_CommonName = ''system:node:n1'', rq_Organization = [''system:nodes''], rq_DNSNames = [],
              rq_IPAddresses = [], rq_ClientAuth = True\<rparr>;
       w = mem_empty\<lparr>m_clock := day\<rparr>
   in \<exists>pem na w' cert. Sign mem_platform mem_host ca (mem_csr ''admin'' [''system:masters''] (ECDSA P256 3 4)) req w =
        (Inr (pem, na), w') \<and> mem_parse (fst (unfield pem)) = Inr cert \<and>
        Subject cert = \<lparr>CommonName = ''system:node:n1'', Organization = [''system:nodes'']\<rparr>"
proof -
  let ?ca = "\<lparr>ca_Cert = None, ca_Key = mem_signer, ca_PEM = ''CA'', ca_MaxTTL = hour\<rparr>"
  let ?req = "\<lparr>rq_CommonName = ''system:node:n1'', rq_Organization = [''system:nodes''], rq_DNSNames = [],
    rq_IPAddresses = [], rq_ClientAuth = True\<rparr>"
  let ?csr = "mem_csr ''admin'' [''system:masters''] (ECDSA P256 3 4)" and ?w = "mem_empty\<lparr>m_clock := day\<rparr>"
  obtain pem na w' where s: "Sign mem_platform mem_host ?ca ?csr ?req ?w = (Inr (pem, na), w')"
    by (simp add: Sign_def parseCSR_def checkPublicKey_def notAfter_def leafTemplate_def
        mem_create_def truncSecond_def time_simps)
  show ?thesis
    using Sign_sound [OF mem_x509.x509_lib_axioms s] s by fastforce
qed

text \<open>
  Key strength: a CSR's key is accepted exactly when it is ECDSA on P-256, P-384 or P-521,
  Ed25519, or RSA with a modulus of at least 2048 bits.
\<close>

lemma checkPublicKey_exact:
  "checkPublicKey pub = None \<longleftrightarrow>
     (\<exists>c x y. pub = ECDSA c x y \<and> c \<in> {P256, P384, P521}) \<or> (\<exists>b. pub = Ed25519 b) \<or>
     (\<exists>n e. pub = RSA n e \<and> 2 ^ 2047 \<le> n)"
proof (cases pub)
  case (RSA n e)
  have "2048 \<le> big_BitLen n \<longleftrightarrow> 2 ^ (2048 - 1) \<le> n" by (rule big_BitLen_ge) simp
  then show ?thesis using RSA by (auto simp: checkPublicKey_def minRSABits_def)
qed (auto simp: checkPublicKey_def)

text \<open>
  (C32) LoadCA accepts a pair of files exactly when both are read and PEM, the certificate is a CA
  with the certSign usage inside its validity window, and the key is a signer whose public half
  is the certificate's; the lifetime cap it stores is never zero.
\<close>

theorem LoadCA_exact:
  "LoadCA pf h certPath keyPath maxTTL w = (Inr ca, w') \<longleftrightarrow>
     (\<exists>certPEM w1 keyPEM w2 cb cert kb key now.
        readFile h certPath w = (Inr certPEM, w1) \<and> readFile h keyPath w1 = (Inr keyPEM, w2) \<and>
        pemDecode h certPEM = Some cb \<and> parseCertificate h cb = Inr cert \<and>
        IsCA cert \<and> KeyUsage cert AND KeyUsageCertSign \<noteq> 0 \<and>
        timeNow pf w2 = (now, w') \<and> NotBefore cert \<le> now \<and> now \<le> NotAfter cert \<and>
        pemDecode h keyPEM = Some kb \<and> parseKey h kb = Inr key \<and> key_Equal (sk_Public key) (PublicKey cert) \<and>
        ca = \<lparr>ca_Cert = Some cert, ca_Key = key, ca_PEM = certPEM,
              ca_MaxTTL = (if maxTTL = 0 then 365 * 24 * hour else maxTTL)\<rparr>)"
proof -
  have 1: "loadCert h pem = Inr cert \<longleftrightarrow> (\<exists>cb. pemDecode h pem = Some cb \<and> parseCertificate h cb = Inr cert \<and>
      IsCA cert \<and> KeyUsage cert AND KeyUsageCertSign \<noteq> 0)" for pem cert
    by (auto simp: loadCert_def split: option.splits sum.splits)
  have 2: "pairCA h pem cert kpem maxTTL now = Inr ca \<longleftrightarrow> NotBefore cert \<le> now \<and> now \<le> NotAfter cert \<and>
      (\<exists>kb key. pemDecode h kpem = Some kb \<and> parseKey h kb = Inr key \<and> key_Equal (sk_Public key) (PublicKey cert) \<and>
        ca = \<lparr>ca_Cert = Some cert, ca_Key = key, ca_PEM = pem,
              ca_MaxTTL = (if maxTTL = 0 then 365 * 24 * hour else maxTTL)\<rparr>)" for pem cert kpem now
    by (auto simp: pairCA_def split: option.splits sum.splits)
  have "LoadCA pf h certPath keyPath maxTTL w = (Inr ca, w') \<longleftrightarrow>
     (\<exists>certPEM w1 keyPEM w2 cert now. readFile h certPath w = (Inr certPEM, w1) \<and> readFile h keyPath w1 = (Inr keyPEM, w2) \<and>
       loadCert h certPEM = Inr cert \<and> timeNow pf w2 = (now, w') \<and> pairCA h certPEM cert keyPEM maxTTL now = Inr ca)"
    by (auto simp: LoadCA_def split: prod.splits sum.splits)
  then show ?thesis unfolding 1 2 by blast
qed

end
