(* ===== verification/Certs.thy ===== *)
theory Certs
  imports Pki "HOL-Library.AList"
begin

text \<open>
  Model of src/internal/certs/serving.go: the shim's own serving certificate, issued from the
  cluster CA at start and rotated before it expires. Go iterates its address and name sets in an
  unspecified order; the model keeps insertion order and the properties speak of membership only.
\<close>

section \<open>The manager\<close>

definition DefaultTTL :: duration where "DefaultTTL = 365 * 24 * hour"
definition renewBefore :: duration where "renewBefore = 30 * 24 * hour"
definition checkEvery :: duration where "checkEvery = 12 * hour"

record manager =
  m_ca :: ca
  m_sans :: "ip list"
  m_dns :: "string list"
  m_ttl :: duration
  m_current :: "string option"
  m_notAfter :: "time option"

text \<open>The set of addresses, keyed by their text; a nil address is \<open>None\<close> and is not added.\<close>

definition addIP :: "(string \<times> ip) list \<Rightarrow> ip option \<Rightarrow> (string \<times> ip) list" where
  "addIP ips oip = (case oip of None \<Rightarrow> ips | Some ip \<Rightarrow> AList.update (ip_String ip) ip ips)"

definition interfaceIPs :: "'w host \<Rightarrow> ip list" where
  "interfaceIPs h =
     (case interfaceAddrs h of
        Inl _ \<Rightarrow> []
      | Inr addrs \<Rightarrow>
          concat (map (\<lambda>a. case a of None \<Rightarrow> [] | Some n \<Rightarrow> if isLinkLocalUnicast (net_IP n) then [] else [net_IP n]) addrs))"

definition servingIPs :: "'w host \<Rightarrow> ip list \<Rightarrow> (string \<times> ip) list" where
  "servingIPs h extraIPs =
     foldl addIP []
       ([parseIP ''127.0.0.1'', parseIP ''::1'', parseIP (getenv h ''NODE_IP'')]
        @ map Some extraIPs @ map Some (interfaceIPs h))"

definition servingDNS :: "'w host \<Rightarrow> string list \<Rightarrow> string list" where
  "servingDNS h extraDNS =
     foldl (\<lambda>dns d. List.insert d dns) [''localhost'']
       ((if getenv h ''NODE_NAME'' \<noteq> [] then [getenv h ''NODE_NAME''] else [])
        @ (case hostname h of Inr n \<Rightarrow> (if n \<noteq> [] then [n] else []) | Inl _ \<Rightarrow> [])
        @ extraDNS)"

definition servingCN :: string where "servingCN = ''rke2-supervisor-shim''"

definition issue :: "'w platform \<Rightarrow> 'w host \<Rightarrow> manager \<Rightarrow> 'w \<Rightarrow> pki_error option \<times> manager \<times> 'w" where
  "issue pf h m w =
     (case IssueSelf pf h (m_ca m)
             \<lparr>rq_CommonName = servingCN, rq_Organization = [], rq_DNSNames = m_dns m, rq_IPAddresses = m_sans m,
              rq_ClientAuth = False\<rparr> (m_ttl m) w of
        (Inl e, w1) \<Rightarrow> (Some e, m, w1)
      | (Inr (certPEM, keyPEM, na), w1) \<Rightarrow>
          (case x509KeyPair h certPEM keyPEM of
             Inl e \<Rightarrow> (Some (KeyPairFailed e), m, w1)
           | Inr pair \<Rightarrow> (None, m\<lparr>m_current := Some pair, m_notAfter := Some na\<rparr>, w1)))"

definition NewManager :: "'w platform \<Rightarrow> 'w host \<Rightarrow> ca \<Rightarrow> ip list \<Rightarrow> string list \<Rightarrow> duration \<Rightarrow> 'w
    \<Rightarrow> (pki_error, manager) result \<times> 'w" where
  "NewManager pf h ca extraIPs extraDNS ttl w =
     (let m = \<lparr>m_ca = ca, m_sans = map snd (servingIPs h extraIPs), m_dns = servingDNS h extraDNS,
               m_ttl = (if ttl = 0 then DefaultTTL else ttl), m_current = None, m_notAfter = None\<rparr> in
      case issue pf h m w of
        (Some e, _, w1) \<Rightarrow> (Inl e, w1)
      | (None, m', w1) \<Rightarrow> (Inr m', w1))"

definition GetCertificate :: "manager \<Rightarrow> string option" where
  "GetCertificate m = m_current m"

definition manager_NotAfter :: "manager \<Rightarrow> time" where
  "manager_NotAfter m = (case m_notAfter m of Some t \<Rightarrow> t | None \<Rightarrow> 0)"

text \<open>
  Run: each tick of the 12 hour ticker reads the clock and rotates when no more than 30 days are
  left; a failed rotation is logged and the old certificate stays. The loop ends with \<open>Stop\<close>.
\<close>

definition rotateTick :: "'w platform \<Rightarrow> 'w host \<Rightarrow> manager \<Rightarrow> 'w \<Rightarrow> manager \<times> 'w" where
  "rotateTick pf h m w =
     (case timeNow pf w of
        (now, w1) \<Rightarrow>
          if time_Sub (manager_NotAfter m) now > renewBefore then (m, w1)
          else (case issue pf h m w1 of (_, m', w2) \<Rightarrow> (m', w2)))"

datatype run_event = Tick | Stop

fun Run :: "'w platform \<Rightarrow> 'w host \<Rightarrow> run_event list \<Rightarrow> manager \<Rightarrow> 'w \<Rightarrow> manager \<times> 'w" where
  "Run pf h [] m w = (m, w)"
| "Run pf h (Stop # _) m w = (m, w)"
| "Run pf h (Tick # es) m w = (case rotateTick pf h m w of (m', w') \<Rightarrow> Run pf h es m' w')"

section \<open>Lemmas\<close>

lemma IssueSelf_Inr:
  assumes "IssueSelf pf h ca req ttl w = (Inr (certPEM, keyPEM, na), w')"
  obtains key :: signer and serial now der w2 w3 where
    "timeNow pf w2 = (now, w3)" "na = notAfter ca now (if ttl = 0 then ca_MaxTTL ca else ttl)"
    "createCertificate h (leafTemplate serial req now na (sk_Public key)) (ca_Cert ca) (sk_Public key) (ca_Key ca) w3
       = (Inr der, w')"
    "certPEM = pemEncode h ''CERTIFICATE'' der"
proof -
  obtain key w1 where g: "generateKey h P256 w = (Inr key, w1)"
    using assms by (auto simp: IssueSelf_def split: sum.splits prod.splits)
  obtain serial w2 where s: "randInt h (2 ^ 128) w1 = (Inr serial, w2)"
    using assms g by (auto simp: IssueSelf_def split: sum.splits prod.splits)
  obtain now w3 where t: "timeNow pf w2 = (now, w3)" by (cases "timeNow pf w2")
  obtain der where "na = notAfter ca now (if ttl = 0 then ca_MaxTTL ca else ttl)"
    "createCertificate h (leafTemplate serial req now na (sk_Public key)) (ca_Cert ca) (sk_Public key) (ca_Key ca) w3
       = (Inr der, w')" "certPEM = pemEncode h ''CERTIFICATE'' der"
    using assms g s t by (auto simp: IssueSelf_def Let_def split: sum.splits prod.splits)
  with t show ?thesis by (rule that)
qed

lemma map_of_addIP:
  "map_of (addIP ips oip) = (case oip of None \<Rightarrow> map_of ips | Some ip \<Rightarrow> (map_of ips)(ip_String ip \<mapsto> ip))"
  by (simp add: addIP_def update_conv' split: option.splits)

lemma distinct_addIP: "distinct (map fst ips) \<Longrightarrow> distinct (map fst (addIP ips oip))"
  by (simp add: addIP_def distinct_update split: option.splits)

lemma foldl_addIP_distinct: "distinct (map fst ips) \<Longrightarrow> distinct (map fst (foldl addIP ips xs))"
  by (induction xs arbitrary: ips) (simp_all add: distinct_addIP)

lemma foldl_addIP_keys:
  "dom (map_of (foldl addIP ips xs)) = dom (map_of ips) \<union> ip_String ` (\<Union>x \<in> set xs. set_option x)"
  by (induction xs arbitrary: ips) (auto simp: map_of_addIP split: option.splits)

lemma foldl_addIP_values:
  "ran (map_of (foldl addIP ips xs)) \<subseteq> ran (map_of ips) \<union> (\<Union>x \<in> set xs. set_option x)"
proof (induction xs arbitrary: ips)
  case (Cons x xs)
  have "ran (map_of (addIP ips x)) \<subseteq> ran (map_of ips) \<union> set_option x"
    by (auto simp: map_of_addIP ran_def split: option.splits if_splits)
  then show ?case using Cons [of "addIP ips x"] by auto
qed simp

text \<open>The keys are the texts of the values.\<close>

lemma foldl_addIP_text:
  "(\<And>k v. map_of ips k = Some v \<Longrightarrow> ip_String v = k) \<Longrightarrow> map_of (foldl addIP ips xs) k = Some v \<Longrightarrow> ip_String v = k"
proof (induction xs arbitrary: ips)
  case (Cons x xs)
  have "map_of (addIP ips x) k = Some v \<Longrightarrow> ip_String v = k" for k v
    using Cons.prems(1) by (auto simp: map_of_addIP split: option.splits if_splits)
  then show ?case using Cons.IH [of "addIP ips x"] Cons.prems(2) by simp
qed simp

text \<open>Every address that went in and nothing else, one per text.\<close>

definition servingSources :: "'w host \<Rightarrow> ip list \<Rightarrow> ip set" where
  "servingSources h extraIPs =
     set_option (parseIP ''127.0.0.1'') \<union> set_option (parseIP ''::1'') \<union> set_option (parseIP (getenv h ''NODE_IP''))
     \<union> set extraIPs \<union> set (interfaceIPs h)"

lemma servingIPs_fold:
  "servingIPs h extra = foldl addIP [] xs \<Longrightarrow> (\<Union>x \<in> set xs. set_option x) = servingSources h extra \<Longrightarrow>
   ip_String ` set (map snd (servingIPs h extra)) = ip_String ` servingSources h extra \<and>
   set (map snd (servingIPs h extra)) \<subseteq> servingSources h extra \<and> distinct (map ip_String (map snd (servingIPs h extra)))"
proof -
  assume s: "servingIPs h extra = foldl addIP [] xs" and u: "(\<Union>x \<in> set xs. set_option x) = servingSources h extra"
  let ?m = "foldl addIP [] xs"
  have d: "distinct (map fst ?m)" by (rule foldl_addIP_distinct) simp
  have t: "ip_String (snd p) = fst p" if "p \<in> set ?m" for p
    using foldl_addIP_text [of "[]" xs "fst p" "snd p"] that d by (simp add: map_of_eq_Some_iff)
  have k: "ip_String ` snd ` set ?m = fst ` set ?m" using t by (force simp: image_iff)
  have "fst ` set ?m = ip_String ` servingSources h extra"
    using foldl_addIP_keys [of "[]" xs] u by (simp add: dom_map_of_conv_image_fst)
  moreover have "snd ` set ?m \<subseteq> servingSources h extra"
    using foldl_addIP_values [of "[]" xs] u d by (simp add: ran_distinct)
  moreover have "map (ip_String \<circ> snd) ?m = map fst ?m" using t by simp
  ultimately show ?thesis using k d s by (metis list.set_map map_map)
qed

lemma servingIPs_sources:
  "ip_String ` set (map snd (servingIPs h extra)) = ip_String ` servingSources h extra \<and>
   set (map snd (servingIPs h extra)) \<subseteq> servingSources h extra \<and> distinct (map ip_String (map snd (servingIPs h extra)))"
  by (rule servingIPs_fold [OF servingIPs_def]) (auto simp: servingSources_def)

lemma foldl_insert_set: "set (foldl (\<lambda>acc d. List.insert d acc) xs ys) = set xs \<union> set ys"
  by (induction ys arbitrary: xs) auto

text \<open>A manager that serves a certificate carrying its SANs, issued for as long as it says.\<close>

definition manager_ok :: "'w host \<Rightarrow> manager \<Rightarrow> bool" where
  "manager_ok h m \<longleftrightarrow>
     (\<exists>der cert na. GetCertificate m = Some der \<and> parseCertificate h der = Inr cert \<and>
        CommonName (Subject cert) = servingCN \<and> IPAddresses cert = map sanBytes (m_sans m) \<and> DNSNames cert = m_dns m \<and>
        ExtKeyUsage cert = [ExtKeyUsageServerAuth] \<and> \<not> IsCA cert \<and> m_notAfter m = Some na \<and>
        NotAfter cert = truncSecond na \<and> (\<forall>c. ca_Cert (m_ca m) = Some c \<longrightarrow> na \<le> NotAfter c))"

definition same_names :: "manager \<Rightarrow> manager \<Rightarrow> bool" where
  "same_names m m' \<longleftrightarrow> m_ca m' = m_ca m \<and> m_sans m' = m_sans m \<and> m_dns m' = m_dns m \<and> m_ttl m' = m_ttl m"

lemma same_names_refl [simp]: "same_names m m"
  by (simp add: same_names_def)

lemma same_names_trans: "same_names a b \<Longrightarrow> same_names b c \<Longrightarrow> same_names a c"
  by (simp add: same_names_def)

context x509_lib
begin

lemma issue_failed: "issue pf host m w = (Some e, m', w') \<Longrightarrow> m' = m"
  by (auto simp: issue_def split: prod.splits sum.splits)

lemma issue_ok:
  assumes "issue pf host m w = (None, m', w')"
  shows "manager_ok host m' \<and> same_names m m' \<and> (\<exists>now w1 w2. timeNow pf w1 = (now, w2) \<and>
    manager_NotAfter m' = notAfter (m_ca m) now (if m_ttl m = 0 then ca_MaxTTL (m_ca m) else m_ttl m))"
proof -
  let ?req = "\<lparr>rq_CommonName = servingCN, rq_Organization = [], rq_DNSNames = m_dns m, rq_IPAddresses = m_sans m,
    rq_ClientAuth = False\<rparr>"
  obtain certPEM keyPEM na pair where i: "IssueSelf pf host (m_ca m) ?req (m_ttl m) w = (Inr (certPEM, keyPEM, na), w')"
    and p: "x509KeyPair host certPEM keyPEM = Inr pair" and m': "m' = m\<lparr>m_current := Some pair, m_notAfter := Some na\<rparr>"
    using assms by (auto simp: issue_def split: prod.splits sum.splits)
  obtain key :: signer and serial now der w2 w3 where t: "timeNow pf w2 = (now, w3)"
    and na: "na = notAfter (m_ca m) now (if m_ttl m = 0 then ca_MaxTTL (m_ca m) else m_ttl m)"
    and c: "createCertificate host (leafTemplate serial ?req now na (sk_Public key)) (ca_Cert (m_ca m)) (sk_Public key)
      (ca_Key (m_ca m)) w3 = (Inr der, w')"
    and pem: "certPEM = pemEncode host ''CERTIFICATE'' der"
    by (rule IssueSelf_Inr [OF i])
  have "pair = der" using key_pair p pem by simp
  moreover have "parseCertificate host der = Inr (certified (leafTemplate serial ?req now na (sk_Public key)) (sk_Public key))"
    by (rule create_parse [OF c]) simp
  ultimately show ?thesis
    using m' na t notAfter_ca
    by (auto simp: manager_ok_def same_names_def manager_NotAfter_def leafTemplate_def GetCertificate_def)
qed

lemma rotateTick_ok:
  assumes "rotateTick pf host m w = (m', w')" "manager_ok host m"
  shows "manager_ok host m' \<and> same_names m m'"
proof -
  obtain now w1 where t: "timeNow pf w = (now, w1)" by (cases "timeNow pf w")
  obtain e m2 w2 where i: "issue pf host m w1 = (e, m2, w2)" by (cases "issue pf host m w1") auto
  show ?thesis
    using assms t i issue_failed [of pf m w1] issue_ok [of pf m w1 m2 w2]
    by (cases e) (auto simp: rotateTick_def split: if_splits)
qed

lemma Run_ok: "Run pf host es m w = (m', w') \<Longrightarrow> manager_ok host m \<Longrightarrow> manager_ok host m' \<and> same_names m m'"
proof (induction es arbitrary: m w)
  case (Cons e es)
  obtain m1 w1 where r: "rotateTick pf host m w = (m1, w1)" by (cases "rotateTick pf host m w")
  show ?case
  proof (cases e)
    case Tick
    then have "manager_ok host m' \<and> same_names m1 m'"
      using Cons.IH [of m1 w1] Cons.prems r rotateTick_ok [OF r] by simp
    then show ?thesis using rotateTick_ok [OF r] Cons.prems same_names_trans by blast
  qed (use Cons.prems in simp)
qed simp

lemma NewManager_ok:
  assumes "NewManager pf host ca extraIPs extraDNS ttl w = (Inr m, w')"
  shows "manager_ok host m \<and> m_ca m = ca \<and> m_sans m = map snd (servingIPs host extraIPs) \<and> m_dns m = servingDNS host extraDNS"
  using assms issue_ok
  by (fastforce simp: NewManager_def Let_def same_names_def split: prod.splits option.splits)

end

section \<open>What the serving certificate guarantees\<close>

text \<open>
  The serving addresses are exactly the loopback addresses, NODE_IP, the configured extra
  addresses and the host's own addresses that are not link-local: each of them is in the SAN set
  under its text, nothing else is, and no address occurs twice. The DNS names are localhost, the
  non-empty NODE_NAME and host name and the configured extra names.
\<close>

lemma servingSANs_exact:
  "ip_String ` set (map snd (servingIPs h extraIPs)) = ip_String ` servingSources h extraIPs \<and>
   set (map snd (servingIPs h extraIPs)) \<subseteq> servingSources h extraIPs \<and>
   distinct (map ip_String (map snd (servingIPs h extraIPs))) \<and>
   set (servingDNS h extraDNS) =
     {''localhost''} \<union> ({getenv h ''NODE_NAME''} - {[]}) \<union> ({n. hostname h = Inr n} - {[]}) \<union> set extraDNS"
  using servingIPs_sources [of h extraIPs]
  by (auto simp: servingDNS_def foldl_insert_set split: sum.splits if_splits)

text \<open>
  (C28) From NewManager on, whatever ticks Run handles and however many rotations fail, the
  listener has a server certificate that parses, carries every SAN the manager was set up with
  and does not outlive the CA, and the expiry the manager reports is the one in it.
\<close>

theorem serving_certificate_always:
  assumes "x509_lib h" and "NewManager pf h ca extraIPs extraDNS ttl w0 = (Inr m0, w1)"
    and "Run pf h es m0 w2 = (m, w3)"
  shows "\<exists>der cert na. GetCertificate m = Some der \<and> parseCertificate h der = Inr cert \<and>
    CommonName (Subject cert) = ''rke2-supervisor-shim'' \<and>
    IPAddresses cert = map (sanBytes \<circ> snd) (servingIPs h extraIPs) \<and> DNSNames cert = servingDNS h extraDNS \<and>
    ExtKeyUsage cert = [ExtKeyUsageServerAuth] \<and> \<not> IsCA cert \<and> manager_NotAfter m = na \<and>
    NotAfter cert = truncSecond na \<and> (\<forall>c. ca_Cert ca = Some c \<longrightarrow> na \<le> NotAfter c)"
  using x509_lib.NewManager_ok [OF assms(1,2)] x509_lib.Run_ok [OF assms(1,3)]
  by (auto simp: manager_ok_def same_names_def manager_NotAfter_def servingCN_def)

definition mem_manager :: "(pki_error, manager) result \<times> mem" where
  "mem_manager = NewManager mem_platform mem_host
     \<lparr>ca_Cert = None, ca_Key = mem_signer, ca_PEM = ''CA'', ca_MaxTTL = day\<rparr> [] [] 0 (mem_empty\<lparr>m_clock := day\<rparr>)"

lemma mem_manager_ok: "\<exists>m w'. mem_manager = (Inr m, w') \<and> m_notAfter m = Some (366 * day)"
  by (simp add: mem_manager_def NewManager_def issue_def IssueSelf_def Let_def notAfter_def leafTemplate_def
      mem_create_def truncSecond_def DefaultTTL_def time_simps mem_signer_def)

theorem serving_certificate_always_witness:
  "\<exists>m der cert. (\<exists>w3. Run mem_platform mem_host [Tick, Tick, Stop] (projr (fst mem_manager)) mem_empty = (m, w3)) \<and>
     GetCertificate m = Some der \<and> mem_parse der = Inr cert \<and> CommonName (Subject cert) = ''rke2-supervisor-shim''"
proof -
  obtain m0 w1 where m0: "mem_manager = (Inr m0, w1)" using mem_manager_ok by blast
  obtain m w3 where r: "Run mem_platform mem_host [Tick, Tick, Stop] m0 mem_empty = (m, w3)"
    by (cases "Run mem_platform mem_host [Tick, Tick, Stop] m0 mem_empty")
  show ?thesis
    using serving_certificate_always [OF mem_x509.x509_lib_axioms m0 [unfolded mem_manager_def] r] m0 r
    by (intro exI [of _ m]) (auto simp del: Run.simps simp add: m0)
qed

text \<open>
  Rotation. A tick that finds more than 30 days left changes nothing. Any other tick issues
  anew: if that fails the certificate in use stays as it was, and if it succeeds the new expiry
  is the configured lifetime from the time of issue, cut to the CA's.
\<close>

lemma rotation_exact:
  assumes "x509_lib h" and "rotateTick pf h m w = (m', w')" and "timeNow pf w = (now, w1)"
  shows "if manager_NotAfter m - now > renewBefore then m' = m \<and> w' = w1
    else (\<exists>e. issue pf h m w1 = (Some e, m, w') \<and> m' = m) \<or>
         (issue pf h m w1 = (None, m', w') \<and> manager_ok h m' \<and>
          (\<exists>issued v v'. timeNow pf v = (issued, v') \<and>
             manager_NotAfter m' = notAfter (m_ca m) issued (if m_ttl m = 0 then ca_MaxTTL (m_ca m) else m_ttl m)))"
proof -
  have sub: "time_Sub a b > renewBefore \<longleftrightarrow> a - b > renewBefore" for a b
    by (auto simp: time_Sub_def minDuration_def maxDuration_def renewBefore_def time_simps
        less_max_iff_disj min_less_iff_conj)
  obtain e m2 w2 where i: "issue pf h m w1 = (e, m2, w2)" by (cases "issue pf h m w1") auto
  have "if manager_NotAfter m - now > renewBefore then m' = m \<and> w' = w1 else m' = m2 \<and> w' = w2"
    using assms(2,3) i by (simp add: rotateTick_def sub split: if_splits)
  note r = this
  show ?thesis
  proof (cases "manager_NotAfter m - now > renewBefore")
    case False
    show ?thesis
    proof (cases e)
      case None
      then have i': "issue pf h m w1 = (None, m', w')" using r False i by simp
      show ?thesis using x509_lib.issue_ok [OF assms(1) i'] i' False by (metis (no_types, lifting))
    next
      case (Some x)
      then show ?thesis using r False i x509_lib.issue_failed [OF assms(1), of pf m w1 x m2 w2] by simp
    qed
  qed (use r in simp)
qed

end
