(* ===== verification/Http.thy ===== *)
theory Http
  imports Go_Net "HOL-Library.AList"
begin

text \<open>
  What the program uses of net/http: requests with canonical header keys, Basic authentication,
  the path cleaning of ServeMux and the status codes of a reply. A body is the bytes it delivers and
  the error that ends it, if any. A handler that panics is answered by net/http closing the
  connection.
\<close>

section \<open>Requests and replies\<close>

record http_request =
  rq_Method :: string
  rq_Path :: string
  rq_Header :: "(string \<times> string) list"
  rq_Body :: string
  rq_BodyErr :: "string option"

definition header_Get :: "http_request \<Rightarrow> string \<Rightarrow> string" where
  "header_Get r k = (case map_of (rq_Header r) k of Some v \<Rightarrow> v | None \<Rightarrow> [])"

text \<open>io.ReadAll (io.LimitReader body n): the reader stops after n bytes and never sees the rest.\<close>

definition readLimited :: "nat \<Rightarrow> http_request \<Rightarrow> string + string" where
  "readLimited n r =
     (if n \<le> length (rq_Body r) then Inr (take n (rq_Body r))
      else case rq_BodyErr r of Some e \<Rightarrow> Inl e | None \<Rightarrow> Inr (rq_Body r))"

definition StatusOK :: nat where "StatusOK = 200"
definition StatusMovedPermanently :: nat where "StatusMovedPermanently = 301"
definition StatusBadRequest :: nat where "StatusBadRequest = 400"
definition StatusUnauthorized :: nat where "StatusUnauthorized = 401"
definition StatusMethodNotAllowed :: nat where "StatusMethodNotAllowed = 405"
definition StatusNotFound :: nat where "StatusNotFound = 404"
definition StatusConflict :: nat where "StatusConflict = 409"
definition StatusInternalServerError :: nat where "StatusInternalServerError = 500"
definition StatusNotImplemented :: nat where "StatusNotImplemented = 501"

lemmas status_defs = StatusOK_def StatusMovedPermanently_def StatusBadRequest_def StatusUnauthorized_def
  StatusMethodNotAllowed_def StatusNotFound_def StatusConflict_def StatusInternalServerError_def StatusNotImplemented_def

section \<open>Basic authentication\<close>

definition lower :: "char \<Rightarrow> char" where
  "lower c = (let n = of_char c :: nat in if 65 \<le> n \<and> n \<le> 90 then char_of (n + 32) else c)"

text \<open>Request.BasicAuth and its counterpart SetBasicAuth.\<close>

definition parseBasicAuth :: "string \<Rightarrow> (string \<times> string) option" where
  "parseBasicAuth auth =
     (if length auth < 6 \<or> map lower (take 6 auth) \<noteq> ''basic '' then None
      else case b64_std_decode (drop 6 auth) of
             None \<Rightarrow> None
           | Some cs \<Rightarrow> cutAt (CHR '':'') cs)"

definition BasicAuth :: "http_request \<Rightarrow> (string \<times> string) option" where
  "BasicAuth r = (let auth = header_Get r ''Authorization'' in if auth = [] then None else parseBasicAuth auth)"

definition basicAuthHeader :: "string \<Rightarrow> string \<Rightarrow> string" where
  "basicAuthHeader user pass = ''Basic '' @ b64_std_encode (user @ '':'' @ pass)"

lemma cutAt_append: "sep \<notin> set a \<Longrightarrow> cutAt sep (a @ sep # b) = Some (a, b)"
  by (induction a) auto

lemma lower_Basic: "map lower ''Basic '' = ''basic ''"
  by code_simp

lemma parseBasicAuth_roundtrip:
  assumes "CHR '':'' \<notin> set user"
  shows "parseBasicAuth (basicAuthHeader user pass) = Some (user, pass)"
proof -
  have "take 6 (basicAuthHeader user pass) = ''Basic ''" "drop 6 (basicAuthHeader user pass) = b64_std_encode (user @ '':'' @ pass)"
    "6 \<le> length (basicAuthHeader user pass)"
    by (simp_all add: basicAuthHeader_def)
  then show ?thesis
    using assms by (simp add: parseBasicAuth_def lower_Basic cutAt_append b64_std_roundtrip del: list.map)
qed

section \<open>Path cleaning\<close>

text \<open>path.Clean on a rooted path, element by element, and ServeMux's cleanPath around it.\<close>

fun cleanElems :: "string list \<Rightarrow> string list \<Rightarrow> string list" where
  "cleanElems acc [] = rev acc"
| "cleanElems acc (e # es) =
     (if e = [] \<or> e = ''.'' then cleanElems acc es
      else if e = ''..'' then cleanElems (tl acc) es
      else cleanElems (e # acc) es)"

definition path_Clean :: "string \<Rightarrow> string" where
  "path_Clean p = CHR ''/'' # join ''/'' (cleanElems [] (split (CHR ''/'') (tl p)))"

definition cleanPath :: "string \<Rightarrow> string" where
  "cleanPath p0 =
     (if p0 = [] then ''/''
      else let p = (if hd p0 = CHR ''/'' then p0 else CHR ''/'' # p0); np = path_Clean p in
           if last p = CHR ''/'' \<and> np \<noteq> ''/'' then np @ ''/'' else np)"

end
