(* ===== verification/Go_Float.thy ===== *)
theory Go_Float
  imports Go_Encoding Complex_Main "HOL-Library.Log_Nat"
begin

text \<open>
  Go's float64 as far as the program computes with it: finite numbers as sign, integer mantissa
  and binary exponent, correctly rounded from fractions and from decimal literals
  (strconv.ParseFloat), and printed with the fewest digits that read back (strconv.AppendFloat with
  precision -1, in the form encoding/json writes). All computation is on integers; the lemmas relate
  it to the real values.
\<close>

section \<open>Numbers\<close>

text \<open>\<open>F64 neg m e\<close> is \<open>m * 2 powi e\<close>, negated if \<open>neg\<close>.\<close>

datatype float64 = F64 (f_neg: bool) (f_man: int) (f_exp: int)

definition f_canonical :: "int \<Rightarrow> int \<Rightarrow> bool" where
  "f_canonical m e \<longleftrightarrow> 0 \<le> m \<and> m < 2 ^ 53 \<and> - 1074 \<le> e \<and> e \<le> 971 \<and> (2 ^ 52 \<le> m \<or> e = - 1074)"

definition f_ok :: "float64 \<Rightarrow> bool" where
  "f_ok f \<longleftrightarrow> f_canonical (f_man f) (f_exp f)"

section \<open>Rounding\<close>

text \<open>The integer nearest to \<open>a / b\<close>, the even one of two.\<close>

definition half_even :: "int \<Rightarrow> int \<Rightarrow> int" where
  "half_even a b =
     (let q = a div b; r = a mod b in if 2 * r > b \<or> 2 * r = b \<and> odd q then q + 1 else q)"

text \<open>\<open>a / b\<close> is at least \<open>2 powi k\<close>; the largest such \<open>k\<close>.\<close>

definition ge_pow2 :: "int \<Rightarrow> int \<Rightarrow> int \<Rightarrow> bool" where
  "ge_pow2 a b k \<longleftrightarrow> (if k \<ge> 0 then b * 2 ^ nat k \<le> a else b \<le> a * 2 ^ nat (- k))"

definition ilog :: "int \<Rightarrow> int \<Rightarrow> int" where
  "ilog a b = (let k = bitlen a - bitlen b in if ge_pow2 a b k then k else k - 1)"

text \<open>\<open>a / b\<close> in units of \<open>2 powi e\<close>, rounded.\<close>

definition scaled :: "int \<Rightarrow> int \<Rightarrow> int \<Rightarrow> int" where
  "scaled a b e = (if e \<ge> 0 then half_even a (b * 2 ^ nat e) else half_even (a * 2 ^ nat (- e)) b)"

text \<open>The number nearest to \<open>a / b\<close>, with \<open>0 \<le> a\<close> and \<open>0 < b\<close>; None when it is out of range.\<close>

definition roundRat :: "int \<Rightarrow> int \<Rightarrow> (int \<times> int) option" where
  "roundRat a b =
     (if a = 0 then Some (0, - 1074)
      else let e = max (- 1074) (ilog a b - 52); m = scaled a b e;
               (m', e') = (if m = 2 ^ 53 then (2 ^ 52, e + 1) else (m, e)) in
           if e' > 971 then None else Some (m', e'))"

text \<open>A decimal \<open>n * 10 powi x\<close>.\<close>

definition roundDec :: "int \<Rightarrow> int \<Rightarrow> (int \<times> int) option" where
  "roundDec n x = (if x \<ge> 0 then roundRat (n * 10 ^ nat x) 1 else roundRat n (10 ^ nat (- x)))"

section \<open>Lemmas on rounding\<close>

lemma ge_pow2_real:
  assumes "0 < b" shows "ge_pow2 a b k \<longleftrightarrow> 2 powi k \<le> real_of_int a / real_of_int b"
proof (cases "k \<ge> 0")
  case True
  have "ge_pow2 a b k \<longleftrightarrow> real_of_int (b * 2 ^ nat k) \<le> real_of_int a"
    using True unfolding ge_pow2_def of_int_le_iff by simp
  also have "\<dots> \<longleftrightarrow> 2 powi k \<le> real_of_int a / real_of_int b"
    using assms True by (simp add: power_int_def field_simps)
  finally show ?thesis .
next
  case False
  have "ge_pow2 a b k \<longleftrightarrow> real_of_int b \<le> real_of_int (a * 2 ^ nat (- k))"
    using False unfolding ge_pow2_def of_int_le_iff by simp
  also have "\<dots> \<longleftrightarrow> 2 powi k \<le> real_of_int a / real_of_int b"
    using assms False by (simp add: power_int_def field_simps)
  finally show ?thesis .
qed

lemma bitlen_real:
  assumes "0 < a" shows "2 powi (bitlen a - 1) \<le> real_of_int a" "real_of_int a < 2 powi bitlen a"
proof -
  have "0 < bitlen a" using assms by (auto simp: bitlen_alt_def)
  moreover have "2 ^ nat (bitlen a - 1) \<le> a" "a < 2 ^ nat (bitlen a)" using bitlen_bounds [OF assms] by auto
  then have "real_of_int (2 ^ nat (bitlen a - 1)) \<le> real_of_int a" "real_of_int a < real_of_int (2 ^ nat (bitlen a))"
    unfolding of_int_le_iff of_int_less_iff by auto
  ultimately show "2 powi (bitlen a - 1) \<le> real_of_int a" "real_of_int a < 2 powi bitlen a"
    by (simp_all add: power_int_def)
qed

lemma ilog_bounds:
  assumes "0 < a" "0 < b"
  shows "2 powi ilog a b \<le> real_of_int a / real_of_int b" "real_of_int a / real_of_int b < 2 powi (ilog a b + 1)"
proof -
  let ?k = "bitlen a - bitlen b" and ?x = "real_of_int a / real_of_int b"
  have lo: "2 powi (?k - 1) \<le> ?x"
  proof -
    have "2 powi (?k - 1) * real_of_int b \<le> 2 powi (?k - 1) * 2 powi bitlen b"
      using bitlen_real(2) [OF assms(2)] by (intro mult_left_mono) auto
    also have "\<dots> = 2 powi (bitlen a - 1)" by (simp add: power_int_add [symmetric])
    also have "\<dots> \<le> real_of_int a" by (rule bitlen_real(1) [OF assms(1)])
    finally show ?thesis using assms(2) by (simp add: field_simps)
  qed
  have hi: "?x < 2 powi (?k + 1)"
  proof -
    have "real_of_int a < 2 powi bitlen a" by (rule bitlen_real(2) [OF assms(1)])
    also have "\<dots> = 2 powi (?k + 1) * 2 powi (bitlen b - 1)" by (simp add: power_int_add [symmetric])
    also have "\<dots> \<le> 2 powi (?k + 1) * real_of_int b"
      using bitlen_real(1) [OF assms(2)] by (intro mult_left_mono) auto
    finally show ?thesis using assms(2) by (simp add: field_simps)
  qed
  show "2 powi ilog a b \<le> ?x" "?x < 2 powi (ilog a b + 1)"
    using lo hi ge_pow2_real [OF assms(2), of a ?k] by (auto simp: ilog_def Let_def)
qed

lemma ilog_unique:
  assumes "0 < a" "0 < b" "2 powi k \<le> real_of_int a / real_of_int b" "real_of_int a / real_of_int b < 2 powi (k + 1)"
  shows "ilog a b = k"
proof -
  have "2 powi ilog a b < (2 :: real) powi (k + 1)" "2 powi k < (2 :: real) powi (ilog a b + 1)"
    using ilog_bounds [OF assms(1,2)] assms(3,4) by linarith+
  then have "ilog a b < k + 1" "k < ilog a b + 1"
    using power_int_increasing [of "k + 1" "ilog a b" "2 :: real"] power_int_increasing [of "ilog a b + 1" k "2 :: real"]
    by (force simp: not_le [symmetric])+
  then show ?thesis by simp
qed

text \<open>Rounding depends on the value of a fraction only.\<close>

definition round_half_even :: "real \<Rightarrow> int" where
  "round_half_even x = (let q = \<lfloor>x\<rfloor>; r = x - real_of_int q in if 2 * r > 1 \<or> 2 * r = 1 \<and> odd q then q + 1 else q)"

lemma half_even_real:
  assumes "0 < b" shows "half_even a b = round_half_even (real_of_int a / real_of_int b)"
proof -
  have q: "\<lfloor>real_of_int a / real_of_int b\<rfloor> = a div b" by (simp add: floor_divide_of_int_eq)
  have "real_of_int a = real_of_int (a div b) * real_of_int b + real_of_int (a mod b)"
    by (metis div_mult_mod_eq of_int_add of_int_mult)
  then have r: "real_of_int a / real_of_int b - real_of_int (a div b) = real_of_int (a mod b) / real_of_int b"
    using assms by (simp add: field_simps)
  have c: "1 < 2 * (real_of_int (a mod b) / real_of_int b) \<longleftrightarrow> real_of_int b < real_of_int (2 * (a mod b))"
    "2 * (real_of_int (a mod b) / real_of_int b) = 1 \<longleftrightarrow> real_of_int (2 * (a mod b)) = real_of_int b"
    using assms by (auto simp: field_simps)
  show ?thesis
    unfolding half_even_def round_half_even_def Let_def q r c of_int_less_iff of_int_eq_iff ..
qed

lemma scaled_real:
  assumes "0 < b" shows "scaled a b e = round_half_even (real_of_int a / real_of_int b / 2 powi e)"
proof (cases "e \<ge> 0")
  case True
  then have "scaled a b e = round_half_even (real_of_int a / real_of_int (b * 2 ^ nat e))"
    using half_even_real [of "b * 2 ^ nat e" a] assms by (simp add: scaled_def)
  then show ?thesis using True by (simp add: power_int_def field_simps)
next
  case False
  then have "scaled a b e = round_half_even (real_of_int (a * 2 ^ nat (- e)) / real_of_int b)"
    using half_even_real [OF assms, of "a * 2 ^ nat (- e)"] by (simp add: scaled_def)
  then show ?thesis using False by (simp add: power_int_def field_simps)
qed

lemma roundRat_cong:
  assumes "0 \<le> a" "0 < b" "0 \<le> c" "0 < d" "real_of_int a / real_of_int b = real_of_int c / real_of_int d"
  shows "roundRat a b = roundRat c d"
proof (cases "a = 0")
  case True
  then have "c = 0" using assms by simp
  then show ?thesis using True by (simp add: roundRat_def)
next
  case False
  have "c \<noteq> 0" using False assms by auto
  then have pos: "0 < a" "0 < c" using False assms by auto
  have "ilog a b = ilog c d"
    using ilog_unique [OF pos(1) assms(2)] ilog_bounds [OF pos(2) assms(4)] assms(5) by simp
  moreover have "scaled a b e = scaled c d e" for e
    unfolding scaled_real [OF assms(2)] scaled_real [OF assms(4)] assms(5) ..
  ultimately show ?thesis using False \<open>c \<noteq> 0\<close> by (simp add: roundRat_def)
qed

text \<open>A number that needs no rounding is itself.\<close>

lemma round_half_even_int [simp]: "round_half_even (real_of_int m) = m"
  by (simp add: round_half_even_def)

lemma roundRat_exact:
  assumes "0 \<le> a" "0 < b" "f_canonical m e" "real_of_int a / real_of_int b = real_of_int m * 2 powi e"
  shows "roundRat a b = Some (m, if m = 0 then - 1074 else e)"
proof (cases "a = 0")
  case True
  then show ?thesis using assms(4) by (simp add: roundRat_def)
next
  case False
  then have a: "0 < a" using assms(1) by simp
  then have "0 < real_of_int a / real_of_int b" using assms(2) by simp
  moreover have "0 < (2 :: real) powi e" by simp
  ultimately have m: "0 < m" unfolding assms(4) by (simp add: zero_less_mult_iff)
  let ?x = "real_of_int m * 2 powi e"
  have up: "?x < 2 powi (e + 53)"
  proof -
    have "real_of_int m < 2 ^ 53" using assms(3) by (simp add: f_canonical_def)
    then have "?x < 2 ^ 53 * 2 powi e" by (intro mult_strict_right_mono) auto
    also have "\<dots> = 2 powi (e + 53)" by (simp add: power_int_add power_int_numeral)
    finally show ?thesis .
  qed
  have "max (- 1074) (ilog a b - 52) = e"
  proof (cases "2 ^ 52 \<le> m")
    case True
    have "(2 :: real) powi (e + 52) = 2 ^ 52 * 2 powi e" by (simp add: power_int_add power_int_numeral)
    also have "\<dots> \<le> ?x" using True by (intro mult_right_mono) auto
    finally have "ilog a b = e + 52" using ilog_unique [OF a assms(2), of "e + 52"] up assms(4) by (simp add: add.assoc)
    then show ?thesis using assms(3) by (simp add: f_canonical_def)
  next
    case False
    then have e: "e = - 1074" using assms(3) by (simp add: f_canonical_def)
    have "real_of_int m < 2 ^ 52" using False by simp
    then have "?x < 2 ^ 52 * 2 powi e" by (intro mult_strict_right_mono) auto
    also have "\<dots> = 2 powi (e + 52)" by (simp add: power_int_add power_int_numeral)
    finally have "2 powi ilog a b < (2 :: real) powi (e + 52)" using ilog_bounds(1) [OF a assms(2)] assms(4) by linarith
    then have "ilog a b < e + 52"
      using power_int_increasing [of "e + 52" "ilog a b" "2 :: real"] by (force simp: not_le [symmetric])
    then show ?thesis using e by simp
  qed
  moreover have "scaled a b e = m"
    using scaled_real [OF assms(2), of a e] assms(4) by simp
  ultimately show ?thesis using False m assms(3) by (simp add: roundRat_def Let_def f_canonical_def)
qed

lemma roundDec_cong:
  assumes "0 \<le> n" "0 \<le> n'" "real_of_int n * 10 powi x = real_of_int n' * 10 powi x'"
  shows "roundDec n x = roundDec n' x'"
proof -
  have v: "\<exists>a b. roundDec k y = roundRat a b \<and> 0 \<le> a \<and> 0 < b \<and> real_of_int a / real_of_int b = real_of_int k * 10 powi y"
    if "0 \<le> k" for k y
  proof (cases "y \<ge> 0")
    case True
    then show ?thesis using that
      by (intro exI [of _ "k * 10 ^ nat y"] exI [of _ 1]) (simp add: roundDec_def power_int_def)
  next
    case False
    then show ?thesis using that
      by (intro exI [of _ k] exI [of _ "10 ^ nat (- y)"]) (simp add: roundDec_def power_int_def field_simps)
  qed
  obtain a b where a: "roundDec n x = roundRat a b" "0 \<le> a" "0 < b" "real_of_int a / real_of_int b = real_of_int n * 10 powi x"
    using v [OF assms(1)] by blast
  obtain c d where c: "roundDec n' x' = roundRat c d" "0 \<le> c" "0 < d" "real_of_int c / real_of_int d = real_of_int n' * 10 powi x'"
    using v [OF assms(2)] by blast
  show ?thesis using roundRat_cong [OF a(2,3) c(2,3)] a(1,4) c(1,4) assms(3) by simp
qed

section \<open>Reading a number\<close>

definition expValue :: "string \<Rightarrow> int" where
  "expValue ds = foldl (\<lambda>e c. if e < 10000 then e * 10 + int (digit_value c) else e) 0 ds"

definition lexFrac :: "string \<Rightarrow> (string \<times> string) option" where
  "lexFrac s =
     (if s \<noteq> [] \<and> hd s = CHR ''.''
      then (let ds = takeWhile is_digit (tl s) in if ds = [] then None else Some (ds, dropWhile is_digit (tl s)))
      else Some ([], s))"

definition lexExp :: "string \<Rightarrow> (int \<times> string) option" where
  "lexExp s =
     (if s \<noteq> [] \<and> (hd s = CHR ''e'' \<or> hd s = CHR ''E'')
      then (let (neg, r) = (case tl s of
                  c # r \<Rightarrow> if c = CHR ''-'' then (True, r) else if c = CHR ''+'' then (False, r) else (False, c # r)
                | [] \<Rightarrow> (False, []));
                ds = takeWhile is_digit r in
            if ds = [] then None
            else Some (if neg then - expValue ds else expValue ds, dropWhile is_digit r))
      else Some (0, s))"

text \<open>A JSON number at the start of a text: sign, digits as an integer, power of ten, and the rest.\<close>

definition lexNumber :: "string \<Rightarrow> ((bool \<times> int \<times> int) \<times> string) option" where
  "lexNumber s =
     (let neg = (s \<noteq> [] \<and> hd s = CHR ''-''); t = (if neg then tl s else s) in
      if t = [] \<or> \<not> is_digit (hd t) then None
      else let (ip, t1) = (if hd t = CHR ''0'' then ([hd t], tl t) else (takeWhile is_digit t, dropWhile is_digit t)) in
        (case lexFrac t1 of
           None \<Rightarrow> None
         | Some (fp, t2) \<Rightarrow>
             (case lexExp t2 of
                None \<Rightarrow> None
              | Some (ex, t3) \<Rightarrow> Some ((neg, int (dec_value (ip @ fp)), ex - int (length fp)), t3))))"

definition parseFloat :: "bool \<times> int \<times> int \<Rightarrow> float64 option" where
  "parseFloat lit = (case lit of (neg, n, x) \<Rightarrow> map_option (\<lambda>(m, e). F64 neg m e) (roundDec n x))"

section \<open>Writing a number\<close>

text \<open>The exact decimal \<open>n * 10 powi x\<close> of a number.\<close>

definition exactDec :: "int \<Rightarrow> int \<Rightarrow> int \<times> int" where
  "exactDec m e = (if e \<ge> 0 then (m * 2 ^ nat e, 0) else (m * 5 ^ nat (- e), e))"

definition readsBack :: "int \<Rightarrow> int \<Rightarrow> int \<Rightarrow> int \<Rightarrow> bool" where
  "readsBack m e n x \<longleftrightarrow> roundDec n x = Some (m, e)"

text \<open>
  roundShortest: the shortest prefix of the exact digits that reads back when it is rounded down
  or up; where both do, rounded to nearest.
\<close>

definition shortest :: "int \<Rightarrow> int \<Rightarrow> int \<times> int" where
  "shortest m e =
     (case exactDec m e of (n, x) \<Rightarrow>
       let len = length (dec_of_nat (nat n));
           unit = (\<lambda>k. 10 ^ (len - k)); pos = (\<lambda>k. x + int (len - k));
           down = (\<lambda>k. readsBack m e (n div unit k) (pos k)); up = (\<lambda>k. readsBack m e (n div unit k + 1) (pos k)) in
       (case find (\<lambda>k. down k \<or> up k) [0..<len] of
          None \<Rightarrow> (n, x)
        | Some k \<Rightarrow>
            (if down k \<and> up k then half_even n (unit k) else if down k then n div unit k else n div unit k + 1, pos k)))"

text \<open>Digits without trailing zeros, and the power of ten they are multiplied with.\<close>

definition trimmed :: "int \<times> int \<Rightarrow> string \<times> int" where
  "trimmed p = (case p of (q, x) \<Rightarrow>
     let D = dec_of_nat (nat q); S = rev (dropWhile (\<lambda>c. c = CHR ''0'') (rev D)) in (S, x + int (length D - length S)))"

definition formatF :: "string \<Rightarrow> int \<Rightarrow> string" where
  "formatF S x =
     (let dp = int (length S) + x in
      if x \<ge> 0 then S @ replicate (nat x) (CHR ''0'')
      else if dp > 0 then take (nat dp) S @ CHR ''.'' # drop (nat dp) S
      else ''0.'' @ replicate (nat (- dp)) (CHR ''0'') @ S)"

definition formatE :: "string \<Rightarrow> int \<Rightarrow> string" where
  "formatE S x =
     (let ex = int (length S) + x - 1 in
      [hd S] @ (if tl S = [] then [] else CHR ''.'' # tl S) @
      (if ex < 0 then ''e-'' @ dec_of_nat (nat (- ex)) else ''e+'' @ dec_of_nat (nat ex)))"

definition f_less :: "int \<times> int \<Rightarrow> int \<times> int \<Rightarrow> bool" where
  "f_less a b = (case (a, b) of ((m, e), (m', e')) \<Rightarrow>
     let l = min e e' in m * 2 ^ nat (e - l) < m' * 2 ^ nat (e' - l))"

text \<open>The form encoding/json chooses: scientific below 1e-6 and from 1e21 on.\<close>

definition scientific :: "int \<Rightarrow> int \<Rightarrow> bool" where
  "scientific m e \<longleftrightarrow>
     (case roundDec 1 (- 6) of Some t \<Rightarrow> f_less (m, e) t | None \<Rightarrow> False) \<or>
     (case roundDec 1 21 of Some t \<Rightarrow> \<not> f_less (m, e) t | None \<Rightarrow> False)"

definition formatFloat :: "float64 \<Rightarrow> string" where
  "formatFloat f =
     (case f of F64 neg m e \<Rightarrow>
        (if neg then ''-'' else []) @
        (if m = 0 then ''0''
         else case trimmed (shortest m e) of (S, x) \<Rightarrow> if scientific m e then formatE S x else formatF S x))"

section \<open>What is written reads back\<close>

lemma ten_power: "(10 :: 'a :: comm_semiring_1) ^ k = 5 ^ k * 2 ^ k"
proof -
  have "(5 * 2 :: 'a) ^ k = 5 ^ k * 2 ^ k" by (rule power_mult_distrib)
  then show ?thesis by simp
qed

lemma exactDec_value:
  assumes "exactDec m e = (n, x)" shows "real_of_int n * 10 powi x = real_of_int m * 2 powi e"
proof (cases "e \<ge> 0")
  case True
  then show ?thesis using assms by (auto simp: exactDec_def power_int_def)
next
  case False
  then have "real_of_int n = real_of_int m * 5 ^ nat (- e)" "x = e" using assms by (auto simp: exactDec_def)
  then show ?thesis using False by (simp add: power_int_def ten_power [of "nat (- e)"] field_simps)
qed

lemma exactDec_reads_back:
  assumes "f_canonical m e" "0 < m" "exactDec m e = (n, x)" shows "roundDec n x = Some (m, e)" "0 < n"
proof -
  show n: "0 < n" using assms by (auto simp: exactDec_def split: if_splits)
  have m: "m \<noteq> 0" using assms(2) by simp
  show "roundDec n x = Some (m, e)"
  proof (cases "e \<ge> 0")
    case True
    then have x: "x = 0" using assms(3) by (simp add: exactDec_def)
    then have "real_of_int n / real_of_int 1 = real_of_int m * 2 powi e" using exactDec_value [OF assms(3)] by simp
    then show ?thesis using roundRat_exact [OF _ _ assms(1), of n 1] n m x by (simp add: roundDec_def)
  next
    case False
    then have x: "x = e" using assms by (auto simp: exactDec_def)
    have "real_of_int n / real_of_int (10 ^ nat (- e)) = real_of_int m * 2 powi e"
      using exactDec_value [OF assms(3)] x False by (simp add: power_int_def field_simps)
    then show ?thesis
      using roundRat_exact [OF _ _ assms(1), of n "10 ^ nat (- e)"] n m x False by (simp add: roundDec_def)
  qed
qed

lemma roundDec_zero: "roundDec 0 x = Some (0, - 1074)"
  by (simp add: roundDec_def roundRat_def)

lemma readsBack_pos: "readsBack m e q x \<Longrightarrow> 0 < m \<Longrightarrow> 0 \<le> q \<Longrightarrow> 0 < q"
  by (cases "q = 0") (auto simp: readsBack_def roundDec_zero)

lemma half_even_cases: "half_even n p = n div p \<or> half_even n p = n div p + 1"
  by (simp add: half_even_def Let_def)

lemma times_power_bound:
  assumes "0 \<le> m" "m < 2 ^ j" "c \<in> {2, 5}" shows "m * c ^ k < (10 :: int) ^ (j + k)"
proof -
  have "m * c ^ k < 2 ^ j * c ^ k" using assms by (intro mult_strict_right_mono) auto
  also have "\<dots> \<le> 10 ^ j * 10 ^ k" using assms(3) by (intro mult_mono power_mono) auto
  finally show ?thesis by (simp add: power_add)
qed

lemma exactDec_bounds:
  assumes "f_canonical m e" "exactDec m e = (n, x)"
  shows "- 1074 \<le> x" "x \<le> 0" "length (dec_of_nat (nat n)) \<le> 1127"
proof -
  show "- 1074 \<le> x" "x \<le> 0" using assms by (auto simp: exactDec_def f_canonical_def split: if_splits)
  have m: "0 \<le> m" "m < 2 ^ 53" "- 1074 \<le> e" "e \<le> 971" using assms(1) by (auto simp: f_canonical_def)
  define k :: nat and c :: int where "k = nat \<bar>e\<bar>" and "c = (if e \<ge> 0 then 2 else 5)"
  then have n: "n = m * c ^ k" "c \<in> {2, 5}" "k \<le> 1074" using assms(2) m(3,4) by (auto simp: exactDec_def split: if_splits)
  then have "n < 10 ^ (53 + k)" using times_power_bound [OF m(1,2) n(2)] by simp
  then have "nat n < 10 ^ (53 + k)" by (metis nat_less_numeral_power_cancel_iff)
  then have "length (dec_of_nat (nat n)) \<le> 53 + k" by (rule length_dec_of_nat) simp
  then show "length (dec_of_nat (nat n)) \<le> 1127" using n(3) by simp
qed

lemma dec_value_less: "list_all is_digit s \<Longrightarrow> dec_value s < 10 ^ length s"
proof (induction s rule: rev_induct)
  case (snoc c s)
  then have "digit_value c < 10" "dec_value s < 10 ^ length s" using digit_char_value by auto
  then show ?case by (simp add: dec_value_snoc)
qed (simp add: dec_value_def)

lemma less_power_length: "n < 10 ^ length (dec_of_nat n)"
  using dec_value_less [of "dec_of_nat n"] dec_of_nat_digits by (simp add: list_all_iff)

lemma find_SomeD: "find P xs = Some k \<Longrightarrow> P k"
  by (induction xs) (auto split: if_splits)

lemma shortest_reads_back:
  assumes "f_canonical m e" "0 < m" "shortest m e = (q, x)"
  shows "roundDec q x = Some (m, e) \<and> 0 < q \<and> - 1074 \<le> x \<and> x \<le> 1127 \<and> length (dec_of_nat (nat q)) \<le> 1128"
proof -
  obtain n y where n: "exactDec m e = (n, y)" by (cases "exactDec m e")
  note r = exactDec_reads_back [OF assms(1,2) n] and b = exactDec_bounds [OF assms(1) n]
  let ?len = "length (dec_of_nat (nat n))"
  let ?unit = "\<lambda>k. (10 :: int) ^ (?len - k)" and ?pos = "\<lambda>k. y + int (?len - k)"
  let ?down = "\<lambda>k. readsBack m e (n div ?unit k) (?pos k)" and ?up = "\<lambda>k. readsBack m e (n div ?unit k + 1) (?pos k)"
  have small: "length (dec_of_nat (nat p)) \<le> 1128" if "0 < p" "p \<le> n + 1" for p
  proof -
    have "nat p \<le> nat n + 1" using that by simp
    also have "\<dots> < 10 ^ Suc ?len" using less_power_length [of "nat n"] unfolding power_Suc by linarith
    finally have "length (dec_of_nat (nat p)) \<le> Suc ?len" by (rule length_dec_of_nat) simp
    then show ?thesis using b(3) by simp
  qed
  show ?thesis
  proof (cases "find (\<lambda>k. ?down k \<or> ?up k) [0..<?len]")
    case None
    then have "(q, x) = (n, y)" using assms(3) n by (simp add: shortest_def Let_def)
    then show ?thesis using r b small [of n] by simp
  next
    case (Some k)
    let ?q = "if ?down k \<and> ?up k then half_even n (?unit k) else if ?down k then n div ?unit k else n div ?unit k + 1"
    have "(q, x) = (?q, ?pos k)"
      using assms(3) unfolding shortest_def n prod.case Let_def Some option.case by (rule sym)
    then have qx: "q = ?q" "x = ?pos k" by (simp_all only: prod.inject)
    have ok: "?down k \<or> ?up k" by (rule find_SomeD [OF Some])
    have rb: "readsBack m e q x"
      using ok half_even_cases [of n "?unit k"] unfolding qx by (cases "?down k"; cases "?up k") auto
    have nn: "0 \<le> n div ?unit k" using r(2) by (simp add: pos_imp_zdiv_nonneg_iff)
    have "n div ?unit k \<le> n" using r(2) zdiv_mono2 [of n 1 "?unit k"] by simp
    moreover have "q = n div ?unit k \<or> q = n div ?unit k + 1" using qx(1) half_even_cases [of n "?unit k"] by auto
    ultimately have q: "0 \<le> q" "q \<le> n + 1" using nn by auto
    then have "0 < q" using readsBack_pos [OF rb assms(2)] by simp
    moreover have "- 1074 \<le> x" "x \<le> 1127" using qx(2) b by auto
    ultimately show ?thesis using rb small [of q] q by (simp add: readsBack_def)
  qed
qed

text \<open>Trimming keeps the value; the digits are those of a positive number.\<close>

lemma trimmed_props:
  assumes "trimmed (q, x) = (S, y)" "0 < q"
  shows "list_all is_digit S" "S \<noteq> []" "hd S \<noteq> CHR ''0''" "length S \<le> length (dec_of_nat (nat q))"
    "real (dec_value S) * 10 powi y = real_of_int q * 10 powi x" "y = x + int (length (dec_of_nat (nat q)) - length S)"
proof -
  let ?D = "dec_of_nat (nat q)"
  let ?z = "length ?D - length S"
  have S: "S = rev (dropWhile (\<lambda>c. c = CHR ''0'') (rev ?D))" "y = x + int ?z"
    using assms(1) by (auto simp: trimmed_def Let_def)
  have "takeWhile (\<lambda>c. c = CHR ''0'') (rev ?D) @ dropWhile (\<lambda>c. c = CHR ''0'') (rev ?D) = rev ?D" by simp
  then have D0: "?D = S @ rev (takeWhile (\<lambda>c. c = CHR ''0'') (rev ?D))"
    unfolding S(1) by (metis rev_append rev_rev_ident)
  have "c = CHR ''0''" if "c \<in> set (takeWhile (\<lambda>c. c = CHR ''0'') (rev ?D))" for c using that by (auto dest: set_takeWhileD)
  then have "rev (takeWhile (\<lambda>c. c = CHR ''0'') (rev ?D)) = replicate (length (takeWhile (\<lambda>c. c = CHR ''0'') (rev ?D))) (CHR ''0'')"
    by (metis length_rev replicate_length_same set_rev)
  moreover have "length (takeWhile (\<lambda>c. c = CHR ''0'') (rev ?D)) = ?z" using D0 by (metis add_diff_cancel_left' length_append length_rev)
  ultimately have D: "?D = S @ replicate ?z (CHR ''0'')" using D0 by simp
  show "y = x + int ?z" by (rule S(2))
  show "length S \<le> length ?D" using D by (metis le_add1 length_append)
  show dig: "list_all is_digit S" using dec_of_nat_digits [of _ "nat q"] D by (metis UnCI list_all_iff set_append)
  have val: "nat q = dec_value S * 10 ^ ?z"
    using arg_cong [OF D, of dec_value] by (simp add: dec_value_append dec_value_zeros_only)
  then show ne: "S \<noteq> []" using assms(2) by (auto simp: dec_value_def)
  show "hd S \<noteq> CHR ''0''"
    using hd_dec_of_nat_pos [of "nat q"] assms(2) D ne by (metis hd_append2 zero_less_nat_eq)
  have "real_of_int q = real (dec_value S) * 10 ^ ?z" using val assms(2) by (metis int_nat_eq less_imp_le of_int_of_nat_eq of_nat_mult of_nat_numeral of_nat_power)
  then show "real (dec_value S) * 10 powi y = real_of_int q * 10 powi x"
    by (simp add: S(2) power_int_add)
qed

text \<open>What may follow a number in a text without being read as part of it.\<close>

definition ends_number :: "string \<Rightarrow> bool" where
  "ends_number rest \<longleftrightarrow> rest = [] \<or> (\<not> is_digit (hd rest) \<and> hd rest \<noteq> CHR ''.'' \<and> hd rest \<noteq> CHR ''e'' \<and> hd rest \<noteq> CHR ''E'')"

lemma span_digits:
  assumes "list_all is_digit ds" "rest = [] \<or> \<not> is_digit (hd rest)"
  shows "takeWhile is_digit (ds @ rest) = ds" "dropWhile is_digit (ds @ rest) = rest"
  using assms by (induction ds; cases rest; simp)+

lemma foldl_digits_mono: "b \<le> foldl (\<lambda>acc c. acc * 10 + digit_value c) b t"
proof (induction t arbitrary: b)
  case (Cons d t)
  have "b \<le> b * 10 + digit_value d" by simp
  also have "\<dots> \<le> foldl (\<lambda>acc c. acc * 10 + digit_value c) (b * 10 + digit_value d) t" by (rule Cons)
  finally show ?case by simp
qed simp

lemma foldl_exp:
  "foldl (\<lambda>acc c. acc * 10 + digit_value c) a s < 10000 \<Longrightarrow>
   foldl (\<lambda>e c. if e < 10000 then e * 10 + int (digit_value c) else e) (int a) s = int (foldl (\<lambda>acc c. acc * 10 + digit_value c) a s)"
proof (induction s arbitrary: a)
  case (Cons c s)
  have "a * 10 + digit_value c < 10000"
    using foldl_digits_mono [of "a * 10 + digit_value c" s] Cons.prems by simp
  then show ?case using Cons.IH [of "a * 10 + digit_value c"] Cons.prems by simp
qed simp

lemma expValue_dec: "n < 10000 \<Longrightarrow> expValue (dec_of_nat n) = int n"
  using foldl_exp [of 0 "dec_of_nat n"] dec_value_dec_of_nat [of n] by (simp add: expValue_def dec_value_def)

lemma lexFrac_none: "ends_number rest \<or> (\<exists>r. rest = CHR ''e'' # r) \<Longrightarrow> lexFrac rest = Some ([], rest)"
  by (auto simp: lexFrac_def ends_number_def)

lemma lexFrac_some:
  "list_all is_digit ds \<Longrightarrow> ds \<noteq> [] \<Longrightarrow> rest = [] \<or> \<not> is_digit (hd rest) \<Longrightarrow> lexFrac (CHR ''.'' # ds @ rest) = Some (ds, rest)"
  by (simp add: lexFrac_def span_digits)

lemma lexExp_none: "ends_number rest \<Longrightarrow> lexExp rest = Some (0, rest)"
  by (auto simp: lexExp_def ends_number_def)

lemma lexExp_some:
  assumes "n < 10000" "ends_number rest"
  shows "lexExp (''e-'' @ dec_of_nat n @ rest) = Some (- int n, rest)" "lexExp (''e+'' @ dec_of_nat n @ rest) = Some (int n, rest)"
proof -
  have "rest = [] \<or> \<not> is_digit (hd rest)" using assms(2) by (auto simp: ends_number_def)
  note s = span_digits [OF dec_of_nat_all_digits this, of n]
  show "lexExp (''e-'' @ dec_of_nat n @ rest) = Some (- int n, rest)" "lexExp (''e+'' @ dec_of_nat n @ rest) = Some (int n, rest)"
    using s expValue_dec [OF assms(1)] by (simp_all add: lexExp_def)
qed

definition lexes :: "string \<Rightarrow> nat \<Rightarrow> int \<Rightarrow> bool" where
  "lexes t n x \<longleftrightarrow> t \<noteq> [] \<and> is_digit (hd t) \<and> (\<forall>rest. ends_number rest \<longrightarrow>
     (\<exists>n' x'. lexNumber (t @ rest) = Some ((False, int n', x'), rest) \<and> real n' * 10 powi x' = real n * 10 powi x))"

lemma not_minus_digit: "\<not> is_digit (CHR ''-'')" by (simp add: is_digit_def)

lemma lexNumber_start:
  "is_digit c \<Longrightarrow> c \<noteq> CHR ''0'' \<Longrightarrow> list_all is_digit ip \<Longrightarrow> t1 = [] \<or> \<not> is_digit (hd t1) \<Longrightarrow>
   lexFrac t1 = Some (fp, t2) \<Longrightarrow> lexExp t2 = Some (ex, t3) \<Longrightarrow>
   lexNumber ((c # ip) @ t1) = Some ((False, int (dec_value ((c # ip) @ fp)), ex - int (length fp)), t3)"
  using span_digits [of "c # ip" t1] not_minus_digit by (auto simp: lexNumber_def Let_def)

lemma formatF_lexes:
  assumes "list_all is_digit S" "S \<noteq> []" "hd S \<noteq> CHR ''0''"
  shows "lexes (formatF S x) (dec_value S) x"
proof -
  obtain c S' where S: "S = c # S'" using assms(2) by (cases S) auto
  have c: "is_digit c" "c \<noteq> CHR ''0''" "list_all is_digit S'" using assms S by auto
  let ?dp = "int (length S) + x"
  have "\<exists>n' x'. lexNumber (formatF S x @ rest) = Some ((False, int n', x'), rest) \<and> real n' * 10 powi x' = real (dec_value S) * 10 powi x"
    if rest: "ends_number rest" for rest
  proof -
    have nd: "rest = [] \<or> \<not> is_digit (hd rest)" using rest by (auto simp: ends_number_def)
    note e = lexFrac_none [OF disjI1 [OF rest]] lexExp_none [OF rest]
    consider (int) "x \<ge> 0" | (mid) "x < 0" "?dp > 0" | (frac) "x < 0" "?dp \<le> 0" by linarith
    then show ?thesis
    proof cases
      case int
      let ?z = "replicate (nat x) (CHR ''0'')"
      have "list_all is_digit (S' @ ?z)" using c by (auto simp: list_all_iff is_digit_def)
      from lexNumber_start [OF c(1,2) this nd e]
      have "lexNumber (formatF S x @ rest) = Some ((False, int (dec_value (S @ ?z)), 0), rest)"
        using int S by (simp add: formatF_def Let_def)
      moreover have "real (dec_value (S @ ?z)) = real (dec_value S) * 10 powi x"
        using int by (simp add: dec_value_append dec_value_zeros_only power_int_def)
      ultimately show ?thesis by force
    next
      case mid
      let ?k = "nat ?dp"
      have k: "0 < ?k" "?k < length S" using mid by auto
      then obtain k' where k': "?k = Suc k'" by (cases ?k) auto
      have d: "list_all is_digit (take k' S')" "list_all is_digit (drop ?k S)" "drop ?k S \<noteq> []"
        using assms(1) c(3) k by (auto simp: list_all_iff dest: in_set_takeD in_set_dropD)
      have "lexFrac (CHR ''.'' # drop ?k S @ rest) = Some (drop ?k S, rest)" by (rule lexFrac_some [OF d(2,3) nd])
      from lexNumber_start [OF c(1,2) d(1) _ this e(2)]
      have "lexNumber (formatF S x @ rest) = Some ((False, int (dec_value (take ?k S @ drop ?k S)), - int (length (drop ?k S))), rest)"
        using mid S k' by (simp add: formatF_def Let_def is_digit_def)
      moreover have "- int (length (drop ?k S)) = x" using k mid by auto
      ultimately show ?thesis by auto
    next
      case frac
      let ?z = "replicate (nat (- ?dp)) (CHR ''0'')"
      have d: "list_all is_digit (?z @ S)" using assms(1) by (auto simp: list_all_iff is_digit_def)
      have "lexFrac (CHR ''.'' # (?z @ S) @ rest) = Some (?z @ S, rest)" using assms(2) by (intro lexFrac_some [OF d _ nd]) simp
      then have "lexNumber (formatF S x @ rest) = Some ((False, int (dec_value (''0'' @ ?z @ S)), - int (length (?z @ S))), rest)"
        using frac e(2) by (simp add: formatF_def lexNumber_def Let_def is_digit_def)
      moreover have "dec_value (''0'' @ ?z @ S) = dec_value S"
        using dec_value_zeros [of "Suc (nat (- ?dp))" S] by simp
      moreover have "- int (length (?z @ S)) = x" using frac by simp
      ultimately show ?thesis by auto
    qed
  qed
  moreover have "formatF S x \<noteq> []" "is_digit (hd (formatF S x))"
    using S c(1) by (auto simp: formatF_def Let_def is_digit_def hd_append)
  ultimately show ?thesis by (simp add: lexes_def)
qed

lemma formatE_lexes:
  assumes "list_all is_digit S" "S \<noteq> []" "hd S \<noteq> CHR ''0''" "\<bar>int (length S) + x - 1\<bar> < 10000"
  shows "lexes (formatE S x) (dec_value S) x"
proof -
  obtain c S' where S: "S = c # S'" using assms(2) by (cases S) auto
  have c: "is_digit c" "c \<noteq> CHR ''0''" "list_all is_digit S'" using assms S by auto
  let ?ex = "int (length S') + x"
  have "\<exists>n' x'. lexNumber (formatE S x @ rest) = Some ((False, int n', x'), rest) \<and> real n' * 10 powi x' = real (dec_value S) * 10 powi x"
    if rest: "ends_number rest" for rest
  proof -
    obtain t where t: "formatE S x @ rest = [c] @ (if S' = [] then [] else CHR ''.'' # S') @ CHR ''e'' # t"
      and ex: "lexExp (CHR ''e'' # t) = Some (?ex, rest)"
    proof (cases "?ex < 0")
      case True
      then show ?thesis
        using that [of "''-'' @ dec_of_nat (nat (- ?ex)) @ rest"] lexExp_some(1) [of "nat (- ?ex)", OF _ rest] assms(4) S
        by (simp add: formatE_def Let_def)
    next
      case False
      then show ?thesis
        using that [of "''+'' @ dec_of_nat (nat ?ex) @ rest"] lexExp_some(2) [of "nat ?ex", OF _ rest] assms(4) S
        by (simp add: formatE_def Let_def)
    qed
    have "\<exists>fp. lexFrac ((if S' = [] then [] else CHR ''.'' # S') @ CHR ''e'' # t) = Some (fp, CHR ''e'' # t) \<and> fp = S'"
      using lexFrac_some [OF c(3), of "CHR ''e'' # t"] lexFrac_none [of "CHR ''e'' # t"] by (auto simp: is_digit_def)
    then have "lexFrac ((if S' = [] then [] else CHR ''.'' # S') @ CHR ''e'' # t) = Some (S', CHR ''e'' # t)" by simp
    from lexNumber_start [OF c(1,2) _ _ this ex, of "[]"]
    have "lexNumber (formatE S x @ rest) = Some ((False, int (dec_value S), ?ex - int (length S')), rest)"
      unfolding t using S by (auto simp: is_digit_def split: if_splits)
    then show ?thesis by auto
  qed
  moreover have "formatE S x \<noteq> []" "is_digit (hd (formatE S x))"
    using S c(1) by (simp_all add: formatE_def Let_def)
  ultimately show ?thesis by (simp add: lexes_def)
qed

text \<open>
  Every finite number is read back as itself, sign of zero included, whatever follows it in the
  text that does not belong to a number.
\<close>

lemma formatFloat_reads_back:
  assumes "f_ok f" "ends_number rest"
  shows "\<exists>lit. lexNumber (formatFloat f @ rest) = Some (lit, rest) \<and> parseFloat lit = Some f"
proof -
  obtain neg m e where f: "f = F64 neg m e" by (cases f)
  have can: "f_canonical m e" using assms(1) f by (simp add: f_ok_def)
  obtain t n x where t: "formatFloat f = (if neg then ''-'' else []) @ t" and l: "lexes t n x" and r: "roundDec (int n) x = Some (m, e)"
  proof (cases "m = 0")
    case True
    then have "e = - 1074" using can by (simp add: f_canonical_def)
    moreover have "lexes ''0'' 0 0"
      by (auto simp: lexes_def is_digit_def lexNumber_def lexFrac_none lexExp_none dec_value_def digit_value_def intro!: exI [of _ 0])
    ultimately show ?thesis using that [of "''0''" 0 0] f True by (simp add: formatFloat_def roundDec_zero)
  next
    case False
    then have m: "0 < m" using can by (simp add: f_canonical_def)
    obtain q y where q: "shortest m e = (q, y)" by (cases "shortest m e")
    obtain S x where S: "trimmed (q, y) = (S, x)" by (cases "trimmed (q, y)")
    note s = shortest_reads_back [OF can m q]
    note p = trimmed_props [OF S]
    have "length S \<le> 1128" "y \<le> x" "x \<le> y + 1128" using s p(4,6) by auto
    moreover have "0 < length S" using p(2) s by simp
    ultimately have "\<bar>int (length S) + x - 1\<bar> < 10000" using s by linarith
    then have "lexes (formatE S x) (dec_value S) x" "lexes (formatF S x) (dec_value S) x"
      using formatE_lexes formatF_lexes p s by blast+
    moreover have "roundDec (int (dec_value S)) x = Some (m, e)"
      using roundDec_cong [of "int (dec_value S)" q x y] p(5) s by simp
    moreover have "formatFloat f = (if neg then ''-'' else []) @ (if scientific m e then formatE S x else formatF S x)"
      using f False q S by (simp add: formatFloat_def)
    ultimately show ?thesis using that by (metis (full_types))
  qed
  obtain n' x' where n: "lexNumber (t @ rest) = Some ((False, int n', x'), rest)" "real n' * 10 powi x' = real n * 10 powi x"
    using l assms(2) by (auto simp: lexes_def)
  have "lexNumber (formatFloat f @ rest) = Some ((neg, int n', x'), rest)"
  proof (cases neg)
    case True
    have "t \<noteq> []" "is_digit (hd t)" using l by (auto simp: lexes_def)
    then have "hd (t @ rest) \<noteq> CHR ''-''" using not_minus_digit by (cases t) auto
    then show ?thesis
      using n(1) True \<open>t \<noteq> []\<close> by (auto simp: t lexNumber_def Let_def split: option.splits prod.splits if_splits)
  qed (use n t in simp)
  moreover have "roundDec (int n') x' = Some (m, e)" using roundDec_cong [of "int n'" "int n" x' x] n(2) r by simp
  ultimately show ?thesis using f by (auto simp: parseFloat_def)
qed

lemma roundRat_canonical:
  assumes "0 \<le> a" "0 < b" "roundRat a b = Some (m, e)" shows "f_canonical m e"
proof (cases "a = 0")
  case True
  then show ?thesis using assms(3) by (simp add: roundRat_def f_canonical_def)
next
  case False
  then have a: "0 < a" using assms(1) by simp
  let ?x = "real_of_int a / real_of_int b" and ?e = "max (- 1074) (ilog a b - 52)"
  let ?m = "scaled a b ?e" and ?y = "real_of_int a / real_of_int b / 2 powi ?e"
  have pos: "0 < ?x" "(0 :: real) < 2 powi ?e" using a assms(2) by simp_all
  have "?x < 2 powi (ilog a b + 1)" by (rule ilog_bounds(2) [OF a assms(2)])
  also have "\<dots> \<le> 2 powi (53 + ?e)" by (intro power_int_increasing) auto
  also have "\<dots> = 2 ^ 53 * 2 powi ?e" by (simp add: power_int_add power_int_numeral)
  finally have up: "?y < 2 ^ 53" unfolding pos_divide_less_eq [OF pos(2)] .
  have lo: "2 ^ 52 \<le> ?y" if "?e \<noteq> - 1074"
  proof -
    have e: "?e + 52 = ilog a b" using that by simp
    have "2 ^ 52 * 2 powi ?e = (2 :: real) powi (?e + 52)" by (simp add: power_int_add power_int_numeral)
    also have "\<dots> = 2 powi ilog a b" unfolding e ..
    also have "\<dots> \<le> ?x" by (rule ilog_bounds(1) [OF a assms(2)])
    finally show ?thesis unfolding pos_le_divide_eq [OF pos(2)] .
  qed
  define g where "g = \<lfloor>?y\<rfloor>"
  have "?m = g \<or> ?m = g + 1" unfolding g_def scaled_real [OF assms(2)] round_half_even_def Let_def by auto
  moreover have "0 \<le> g" using a assms(2) unfolding g_def zero_le_floor by (intro divide_nonneg_nonneg) auto
  moreover have "g < 2 ^ 53" using up unfolding g_def floor_less_iff by simp
  moreover have "2 ^ 52 \<le> g" if "?e \<noteq> - 1074" using lo [OF that] unfolding g_def le_floor_iff by simp
  ultimately have m: "0 \<le> ?m" "?m \<le> 2 ^ 53" "?e \<noteq> - 1074 \<Longrightarrow> 2 ^ 52 \<le> ?m" by linarith+
  have "(m, e) = (if ?m = 2 ^ 53 then (2 ^ 52, ?e + 1) else (?m, ?e))" "e \<le> 971"
    using assms(3) False by (auto simp: roundRat_def Let_def split: if_splits)
  then show ?thesis using m by (auto simp: f_canonical_def split: if_splits)
qed

lemma parseFloat_ok: "parseFloat (neg, int n, x) = Some f \<Longrightarrow> f_ok f"
  by (auto simp: parseFloat_def roundDec_def f_ok_def intro: roundRat_canonical [rotated 2] split: if_splits)

end
