(* ===== verification/Go_Json.thy ===== *)
theory Go_Json
  imports Go_Float "HOL-Library.AList" "HOL-Library.List_Lexorder" "HOL-Library.Char_ord"
begin

text \<open>
  Go's encoding/json for the values the program handles: texts are read as json.Valid and
  json.Unmarshal into an interface value read them, and written as json.Encoder writes them (HTML
  characters escaped, keys sorted). Strings are bytes; bytes that are no UTF-8 are replaced, in both
  directions. Numbers are float64. What is written is read back as the same value.
\<close>

datatype json =
    JNull
  | JBool bool
  | JNum float64
  | JStr string
  | JArr "json list"
  | JObj "(string \<times> json) list"

section \<open>UTF-8\<close>

definition in_range :: "nat \<Rightarrow> nat \<Rightarrow> char \<Rightarrow> bool" where
  "in_range a b c \<longleftrightarrow> a \<le> of_char c \<and> of_char c \<le> b"

text \<open>The range of the second byte of a rune, given the first.\<close>

definition second_ok :: "char \<Rightarrow> char \<Rightarrow> bool" where
  "second_ok c d =
     (let n = of_char c :: nat in
      in_range (if n = 0xE0 then 0xA0 else if n = 0xF0 then 0x90 else 0x80)
               (if n = 0xED then 0x9F else if n = 0xF4 then 0x8F else 0xBF) d)"

definition cont :: "char \<Rightarrow> bool" where
  "cont = in_range 0x80 0xBF"

text \<open>The length of the rune a text starts with, 0 when it starts with none (utf8.DecodeRune).\<close>

definition runeSize :: "char \<Rightarrow> nat" where
  "runeSize c =
     (if in_range 0 0x7F c then 1 else if in_range 0xC2 0xDF c then 2 else if in_range 0xE0 0xEF c then 3
      else if in_range 0xF0 0xF4 c then 4 else 0)"

definition runeLen :: "string \<Rightarrow> nat" where
  "runeLen s =
     (case s of
        [] \<Rightarrow> 0
      | c # r \<Rightarrow>
          let k = runeSize c in
          if k \<le> length s \<and> (k \<le> 1 \<or> second_ok c (hd r)) \<and> list_all cont (take (k - 1) r) then k else 0)"

definition replacement :: string where
  "replacement = [CHR 0xEF, CHR 0xBF, CHR 0xBD]"

definition utf8 :: "nat \<Rightarrow> string" where
  "utf8 n =
     (if n < 0x80 then [char_of n]
      else if n < 0x800 then [char_of (0xC0 + n div 64), char_of (0x80 + n mod 64)]
      else if n < 0x10000 then [char_of (0xE0 + n div 4096), char_of (0x80 + n div 64 mod 64), char_of (0x80 + n mod 64)]
      else [char_of (0xF0 + n div 262144), char_of (0x80 + n div 4096 mod 64), char_of (0x80 + n div 64 mod 64), char_of (0x80 + n mod 64)])"

lemma runeLen_le: "runeLen s \<le> length s"
  by (auto simp: runeLen_def Let_def split: list.splits)

text \<open>Every byte that does not belong to a rune replaced by U+FFFD.\<close>

function toValidUTF8 :: "string \<Rightarrow> string" where
  "toValidUTF8 s =
     (if s = [] then []
      else if runeLen s = 0 then replacement @ toValidUTF8 (tl s)
      else take (runeLen s) s @ toValidUTF8 (drop (runeLen s) s))"
  by pat_completeness auto
termination
  by (relation "measure length") (auto simp: diff_less)

declare toValidUTF8.simps [simp del]

section \<open>Strings\<close>

definition quoteChar :: char where "quoteChar = CHR 0x22"
definition backslash :: char where "backslash = CHR 0x5C"

definition hex4 :: "string \<Rightarrow> (nat \<times> string) option" where
  "hex4 s =
     (case s of
        a # b # c # d # r \<Rightarrow>
          (case (hex_value a, hex_value b, hex_value c, hex_value d) of
             (Some w, Some x, Some y, Some z) \<Rightarrow> Some (((w * 16 + x) * 16 + y) * 16 + z, r)
           | _ \<Rightarrow> None)
      | _ \<Rightarrow> None)"

text \<open>
  A \<open>u\<close> escape behind its letter: a surrogate pair is one rune, half a pair is replaced and what
  follows is looked at again.
\<close>

definition unescapeU :: "string \<Rightarrow> (string \<times> string) option" where
  "unescapeU s =
     (case hex4 s of
        None \<Rightarrow> None
      | Some (v, r) \<Rightarrow>
          if v < 0xD800 \<or> 0xDFFF < v then Some (utf8 v, r)
          else (case r of
                  b # u # r' \<Rightarrow>
                    (case (if b = backslash \<and> u = CHR ''u'' then hex4 r' else None) of
                       Some (v', r'') \<Rightarrow>
                         if v < 0xDC00 \<and> 0xDC00 \<le> v' \<and> v' \<le> 0xDFFF
                         then Some (utf8 (0x10000 + (v - 0xD800) * 0x400 + (v' - 0xDC00)), r'')
                         else Some (replacement, r)
                     | None \<Rightarrow> Some (replacement, r))
                | _ \<Rightarrow> Some (replacement, r)))"

text \<open>An escape behind its backslash.\<close>

definition unescape :: "string \<Rightarrow> (string \<times> string) option" where
  "unescape s =
     (case s of
        [] \<Rightarrow> None
      | c # r \<Rightarrow>
          if c = quoteChar \<or> c = backslash \<or> c = CHR ''/'' then Some ([c], r)
          else if c = CHR ''b'' then Some ([CHR 0x08], r)
          else if c = CHR ''f'' then Some ([CHR 0x0C], r)
          else if c = CHR ''n'' then Some ([CHR 0x0A], r)
          else if c = CHR ''r'' then Some ([CHR 0x0D], r)
          else if c = CHR ''t'' then Some ([CHR 0x09], r)
          else if c = CHR ''u'' then unescapeU r
          else None)"

lemma hex4_shrinks: "hex4 s = Some (v, r) \<Longrightarrow> length r < length s"
  by (auto simp: hex4_def split: list.splits option.splits)

lemma unescape_shrinks: "unescape s = Some (t, r) \<Longrightarrow> length r < length s"
  by (auto simp: unescape_def unescapeU_def split: list.splits if_splits option.splits dest!: hex4_shrinks)

text \<open>The bytes of a string literal behind its opening quote, and what follows the closing one.\<close>

function lexStr :: "string \<Rightarrow> (string \<times> string) option" where
  "lexStr s =
     (if s = [] then None
      else if hd s = quoteChar then Some ([], tl s)
      else if hd s = backslash then
        (case unescape (tl s) of
           None \<Rightarrow> None
         | Some (t, r) \<Rightarrow> map_option (\<lambda>(u, r'). (t @ u, r')) (lexStr r))
      else if in_range 0 0x1F (hd s) then None
      else if runeLen s = 0 then map_option (\<lambda>(u, r'). (replacement @ u, r')) (lexStr (tl s))
      else map_option (\<lambda>(u, r'). (take (runeLen s) s @ u, r')) (lexStr (drop (runeLen s) s)))"
  by pat_completeness auto
termination
  by (relation "measure length") (auto simp: diff_less dest!: unescape_shrinks)

declare lexStr.simps [simp del]

definition escapeASCII :: "char \<Rightarrow> string" where
  "escapeASCII c =
     (if c = quoteChar \<or> c = backslash then [backslash, c]
      else if c = CHR 0x08 then [backslash, CHR ''b'']
      else if c = CHR 0x0C then [backslash, CHR ''f'']
      else if c = CHR 0x0A then [backslash, CHR ''n'']
      else if c = CHR 0x0D then [backslash, CHR ''r'']
      else if c = CHR 0x09 then [backslash, CHR ''t'']
      else if in_range 0 0x1F c \<or> c = CHR ''<'' \<or> c = CHR ''>'' \<or> c = CHR ''&'' then [backslash] @ ''u00'' @ hex_of_byte c
      else [c])"

text \<open>appendString: line and paragraph separators are escaped as well.\<close>

definition escapeRune :: "string \<Rightarrow> string" where
  "escapeRune u =
     (if u = [CHR 0xE2, CHR 0x80, CHR 0xA8] then [backslash] @ ''u2028''
      else if u = [CHR 0xE2, CHR 0x80, CHR 0xA9] then [backslash] @ ''u2029''
      else u)"

function quoteBody :: "string \<Rightarrow> string" where
  "quoteBody s =
     (if s = [] then []
      else if in_range 0 0x7F (hd s) then escapeASCII (hd s) @ quoteBody (tl s)
      else if runeLen s = 0 then [backslash] @ ''ufffd'' @ quoteBody (tl s)
      else escapeRune (take (runeLen s) s) @ quoteBody (drop (runeLen s) s))"
  by pat_completeness auto
termination
  by (relation "measure length") (auto simp: diff_less)

declare quoteBody.simps [simp del]

definition quoteString :: "string \<Rightarrow> string" where
  "quoteString s = quoteChar # quoteBody s @ [quoteChar]"

section \<open>Strings read back\<close>

lemma runeLen_prefix:
  assumes "runeLen s \<noteq> 0" shows "runeLen (take (runeLen s) s @ t) = runeLen s"
proof -
  obtain c r where s: "s = c # r" using assms by (cases s) (auto simp: runeLen_def)
  let ?k = "runeSize c"
  have k: "runeLen s = ?k" "?k \<noteq> 0" "?k \<le> Suc (length r)" "?k \<le> 1 \<or> second_ok c (hd r)" "list_all cont (take (?k - 1) r)"
    using assms s by (auto simp: runeLen_def Let_def split: if_splits)
  have "take ?k s @ t = c # (take (?k - 1) r @ t)" using k(2) s by (cases ?k) auto
  moreover have "?k \<le> 1 \<or> second_ok c (hd (take (?k - 1) r @ t))"
  proof (cases "?k \<le> 1")
    case False
    then have "take (?k - 1) r \<noteq> []" using k(3) by (cases r) auto
    then show ?thesis using False k(4) by (simp add: hd_append hd_take)
  qed simp
  moreover have "length (take (?k - 1) r) = ?k - 1" using k(3) by simp
  ultimately show ?thesis using k by (simp add: runeLen_def Let_def)
qed

lemma runeLen_ascii: "s \<noteq> [] \<Longrightarrow> in_range 0 0x7F (hd s) \<Longrightarrow> runeLen s = 1"
  by (cases s) (simp_all add: runeLen_def runeSize_def)

lemma toValidUTF8_ascii: "in_range 0 0x7F c \<Longrightarrow> toValidUTF8 (c # s) = c # toValidUTF8 s"
  using runeLen_ascii [of "c # s"] by (simp add: toValidUTF8.simps [of "c # s"])

abbreviation prepend :: "string \<Rightarrow> (string \<times> string) option \<Rightarrow> (string \<times> string) option" where
  "prepend t \<equiv> map_option (\<lambda>(u, r). (t @ u, r))"

lemma lexStr_escape:
  assumes "unescape s = Some (t, r)" shows "lexStr (backslash # s) = prepend t (lexStr r)"
proof -
  have "backslash \<noteq> quoteChar" by (simp add: quoteChar_def backslash_def)
  then show ?thesis using assms by (simp add: lexStr.simps [of "backslash # s"])
qed

lemma unescape_u00:
  assumes "in_range 0 0x7F c" shows "unescape (''u00'' @ hex_of_byte c @ t) = Some ([c], t)"
proof -
  have n: "of_char c < (128 :: nat)" using assms by (simp add: in_range_def)
  moreover have "(of_char c :: nat) div 16 * 16 + of_char c mod 16 = of_char c" by simp
  moreover have "hex_value (CHR ''0'') = Some 0" by (simp add: hex_value_def)
  ultimately show ?thesis
    by (simp add: unescape_def unescapeU_def hex4_def hex_of_byte_def utf8_def quoteChar_def backslash_def)
qed

lemma unescape_simple:
  "unescape (quoteChar # t) = Some ([quoteChar], t)" "unescape (backslash # t) = Some ([backslash], t)"
  "unescape (CHR ''b'' # t) = Some ([CHR 0x08], t)" "unescape (CHR ''f'' # t) = Some ([CHR 0x0C], t)"
  "unescape (CHR ''n'' # t) = Some ([CHR 0x0A], t)" "unescape (CHR ''r'' # t) = Some ([CHR 0x0D], t)"
  "unescape (CHR ''t'' # t) = Some ([CHR 0x09], t)"
  by (simp_all add: unescape_def quoteChar_def backslash_def)

lemma lexStr_plain:
  assumes "in_range 0 0x7F c" "c \<noteq> quoteChar" "c \<noteq> backslash" "\<not> in_range 0 0x1F c"
  shows "lexStr (c # t) = prepend [c] (lexStr t)"
  using assms runeLen_ascii [of "c # t"] by (simp add: lexStr.simps [of "c # t"])

lemma escapeASCII_simple:
  "escapeASCII quoteChar = [backslash, quoteChar]" "escapeASCII backslash = [backslash, backslash]"
  "escapeASCII (CHR 0x08) = [backslash, CHR ''b'']" "escapeASCII (CHR 0x0C) = [backslash, CHR ''f'']"
  "escapeASCII (CHR 0x0A) = [backslash, CHR ''n'']" "escapeASCII (CHR 0x0D) = [backslash, CHR ''r'']"
  "escapeASCII (CHR 0x09) = [backslash, CHR ''t'']"
  by (simp_all add: escapeASCII_def quoteChar_def backslash_def)

lemma lexStr_escapeASCII:
  assumes "in_range 0 0x7F c" shows "lexStr (escapeASCII c @ t) = prepend [c] (lexStr t)"
proof (cases "c \<in> {quoteChar, backslash, CHR 0x08, CHR 0x0C, CHR 0x0A, CHR 0x0D, CHR 0x09}")
  case True
  note e = unescape_simple [of t, THEN lexStr_escape]
  show ?thesis using True by (elim insertE emptyE) (simp_all only: escapeASCII_simple e append.simps)
next
  case False
  then have c: "c \<noteq> quoteChar" "c \<noteq> backslash" and
    esc: "escapeASCII c = (if in_range 0 0x1F c \<or> c = CHR ''<'' \<or> c = CHR ''>'' \<or> c = CHR ''&'' then [backslash] @ ''u00'' @ hex_of_byte c else [c])"
    by (simp_all add: escapeASCII_def)
  show ?thesis
  proof (cases "escapeASCII c = [c]")
    case True
    then have "\<not> in_range 0 0x1F c" using esc by (auto simp: hex_of_byte_def split: if_splits)
    then show ?thesis using True lexStr_plain [OF assms c] by simp
  next
    case False
    then have "escapeASCII c @ t = backslash # (''u00'' @ hex_of_byte c @ t)" using esc by (auto split: if_splits)
    then show ?thesis using lexStr_escape [OF unescape_u00 [OF assms]] by simp
  qed
qed

lemma unescape_fffd: "unescape (''ufffd'' @ t) = Some (replacement, t)"
proof -
  have "hex4 (''fffd'' @ t) = Some (0xFFFD, t)" by (simp add: hex4_def hex_value_def)
  moreover have "utf8 0xFFFD = replacement" by (simp add: utf8_def replacement_def char_of_def bit_0)
  ultimately show ?thesis by (simp add: unescape_def unescapeU_def quoteChar_def backslash_def)
qed

lemma unescape_separators:
  "unescape (''u2028'' @ t) = Some ([CHR 0xE2, CHR 0x80, CHR 0xA8], t)" "unescape (''u2029'' @ t) = Some ([CHR 0xE2, CHR 0x80, CHR 0xA9], t)"
proof -
  have "hex4 (''2028'' @ t) = Some (0x2028, t)" "hex4 (''2029'' @ t) = Some (0x2029, t)" by (simp_all add: hex4_def hex_value_def)
  moreover have "utf8 0x2028 = [CHR 0xE2, CHR 0x80, CHR 0xA8]" "utf8 0x2029 = [CHR 0xE2, CHR 0x80, CHR 0xA9]"
    by (simp_all add: utf8_def char_of_def bit_0)
  ultimately show "unescape (''u2028'' @ t) = Some ([CHR 0xE2, CHR 0x80, CHR 0xA8], t)"
    "unescape (''u2029'' @ t) = Some ([CHR 0xE2, CHR 0x80, CHR 0xA9], t)"
    by (simp_all add: unescape_def unescapeU_def quoteChar_def backslash_def)
qed

lemma lexStr_rune:
  assumes "runeLen s \<noteq> 0" "\<not> in_range 0 0x7F (hd s)"
  shows "lexStr (take (runeLen s) s @ t) = prepend (take (runeLen s) s) (lexStr t)"
proof -
  let ?u = "take (runeLen s) s"
  have s: "s \<noteq> []" using assms(1) by (auto simp: runeLen_def)
  then have u: "?u \<noteq> []" "hd (?u @ t) = hd s" using assms(1) by (auto simp: hd_append)
  have l: "length ?u = runeLen s" using runeLen_le [of s] by simp
  have "hd s \<noteq> quoteChar" "hd s \<noteq> backslash" "\<not> in_range 0 0x1F (hd s)"
    using assms(2) by (auto simp: quoteChar_def backslash_def in_range_def)
  then show ?thesis
    using u runeLen_prefix [OF assms(1), of t] assms(1) l by (simp add: lexStr.simps [of "?u @ t"])
qed

lemma lexStr_escapeRune:
  assumes "runeLen s \<noteq> 0" "\<not> in_range 0 0x7F (hd s)"
  shows "lexStr (escapeRune (take (runeLen s) s) @ t) = prepend (take (runeLen s) s) (lexStr t)"
  using lexStr_rune [OF assms, of t] lexStr_escape [OF unescape_separators(1), of t] lexStr_escape [OF unescape_separators(2), of t]
  by (auto simp: escapeRune_def)

lemma lexStr_quoteBody: "lexStr (quoteBody s @ quoteChar # rest) = Some (toValidUTF8 s, rest)"
proof (induction s rule: quoteBody.induct)
  case (1 s)
  consider "s = []" | (ascii) "s \<noteq> []" "in_range 0 0x7F (hd s)" | (bad) "s \<noteq> []" "\<not> in_range 0 0x7F (hd s)" "runeLen s = 0"
    | (rune) "s \<noteq> []" "\<not> in_range 0 0x7F (hd s)" "runeLen s \<noteq> 0" by blast
  then show ?case
  proof cases
    case 1
    then show ?thesis by (simp add: quoteBody.simps [of "[]"] toValidUTF8.simps [of "[]"] lexStr.simps [of "quoteChar # rest"])
  next
    case ascii
    then have "lexStr (quoteBody s @ quoteChar # rest) = Some (hd s # toValidUTF8 (tl s), rest)"
      using 1(1) [OF ascii] lexStr_escapeASCII [OF ascii(2)] by (simp add: quoteBody.simps [of s])
    then show ?thesis using toValidUTF8_ascii [OF ascii(2), of "tl s"] ascii(1) by simp
  next
    case bad
    then show ?thesis
      using 1(2) [OF bad] lexStr_escape [OF unescape_fffd] by (simp add: quoteBody.simps [of s] toValidUTF8.simps [of s])
  next
    case rune
    then show ?thesis
      using 1(3) [OF rune] lexStr_escapeRune [OF rune(3,2)] by (simp add: quoteBody.simps [of s] toValidUTF8.simps [of s])
  qed
qed

section \<open>Tokens\<close>

datatype token =
    LBrace | RBrace | LBrack | RBrack | Colon | Comma
  | Lit json
  | NumLit "float64 option"
  | StrLit string

text \<open>
  A number that is out of range of float64 leaves the variable it is decoded into unset: null in
  an interface value.
\<close>

definition numValue :: "float64 option \<Rightarrow> json" where
  "numValue n = (case n of Some f \<Rightarrow> JNum f | None \<Rightarrow> JNull)"

lemma lexStr_shrinks: "lexStr s = Some (t, r) \<Longrightarrow> length r < length s"
proof (induction s arbitrary: t r rule: lexStr.induct)
  case (1 s)
  have ne: "s \<noteq> []" using 1(4) by (auto simp: lexStr.simps [of "[]"])
  consider (quote) "hd s = quoteChar" | (esc) "hd s \<noteq> quoteChar" "hd s = backslash"
    | (bad) "hd s \<noteq> quoteChar" "hd s \<noteq> backslash" "\<not> in_range 0 0x1F (hd s)" "runeLen s = 0"
    | (rune) "hd s \<noteq> quoteChar" "hd s \<noteq> backslash" "\<not> in_range 0 0x1F (hd s)" "runeLen s \<noteq> 0"
    | "hd s \<noteq> quoteChar" "hd s \<noteq> backslash" "in_range 0 0x1F (hd s)" by blast
  then show ?case
  proof cases
    case quote
    then show ?thesis using 1(4) ne by (auto simp: lexStr.simps [of s])
  next
    case esc
    then obtain u r1 t1 where u: "unescape (tl s) = Some (u, r1)" "lexStr r1 = Some (t1, r)"
      using 1(4) ne by (auto simp: lexStr.simps [of s] split: option.splits)
    have "length r < length r1" using 1(1) [OF ne esc u(1) refl u(2)] .
    also have "\<dots> < length (tl s)" by (rule unescape_shrinks [OF u(1)])
    finally show ?thesis by simp
  next
    case bad
    then obtain t1 where "lexStr (tl s) = Some (t1, r)" using 1(4) ne by (auto simp: lexStr.simps [of s])
    then show ?thesis using 1(2) [OF ne bad] by fastforce
  next
    case rune
    then obtain t1 where "lexStr (drop (runeLen s) s) = Some (t1, r)" using 1(4) ne by (auto simp: lexStr.simps [of s])
    then show ?thesis using 1(3) [OF ne rune] by fastforce
  next
    case 5
    then show ?thesis using 1(4) ne by (simp add: lexStr.simps [of s])
  qed
qed

lemma lexFrac_le: "lexFrac s = Some (d, r) \<Longrightarrow> length r \<le> length s"
  using length_dropWhile_le [of is_digit "tl s"] by (auto simp: lexFrac_def Let_def split: if_splits)

lemma lexExp_le:
  assumes "lexExp s = Some (d, r)" shows "length r \<le> length s"
proof -
  have "r = s \<or> (\<exists>u. r = dropWhile is_digit u \<and> length u \<le> length s)"
    using assms by (cases s; cases "tl s") (auto simp: lexExp_def Let_def split: if_splits)
  then show ?thesis using length_dropWhile_le le_trans by blast
qed

lemma lexNumber_shrinks:
  assumes "lexNumber s = Some (lit, r)" shows "length r < length s"
proof -
  define t where "t = (if s \<noteq> [] \<and> hd s = CHR ''-'' then tl s else s)"
  define p where "p = (if hd t = CHR ''0'' then ([hd t], tl t) else (takeWhile is_digit t, dropWhile is_digit t))"
  have u: "t \<noteq> [] \<and> is_digit (hd t) \<and> (\<exists>fp t2 ex. lexFrac (snd p) = Some (fp, t2) \<and> lexExp t2 = Some (ex, r))"
    using assms unfolding lexNumber_def Let_def t_def [symmetric] p_def [symmetric]
    by (auto split: if_splits prod.splits option.splits)
  then have "length r \<le> length (snd p)" using lexFrac_le lexExp_le le_trans by blast
  also have "\<dots> < length t"
    using u length_dropWhile_le [of is_digit "tl t"] by (cases t) (auto simp: p_def less_Suc_eq_le)
  also have "\<dots> \<le> length s" by (simp add: t_def)
  finally show ?thesis .
qed

definition isSpace :: "char \<Rightarrow> bool" where
  "isSpace c \<longleftrightarrow> c \<in> {CHR 0x20, CHR 0x09, CHR 0x0D, CHR 0x0A}"

definition punctuation :: "(char \<times> token) list" where
  "punctuation = [(CHR ''{'', LBrace), (CHR ''}'', RBrace), (CHR ''['', LBrack), (CHR '']'', RBrack), (CHR '':'', Colon), (CHR '','', Comma)]"

text \<open>One token at the start of a text that starts with no white space.\<close>

definition nextToken :: "string \<Rightarrow> (token \<times> string) option" where
  "nextToken s =
     (if s = [] then None
      else case map_of punctuation (hd s) of
        Some t \<Rightarrow> Some (t, tl s)
      | None \<Rightarrow>
          if hd s = quoteChar then map_option (\<lambda>(t, r). (StrLit t, r)) (lexStr (tl s))
          else if hasPrefix s ''true'' then Some (Lit (JBool True), drop 4 s)
          else if hasPrefix s ''false'' then Some (Lit (JBool False), drop 5 s)
          else if hasPrefix s ''null'' then Some (Lit JNull, drop 4 s)
          else map_option (\<lambda>(lit, r). (NumLit (parseFloat lit), r)) (lexNumber s))"

lemma nextToken_shrinks: "nextToken s = Some (t, r) \<Longrightarrow> length r < length s"
  by (auto simp: nextToken_def split: option.splits if_splits dest!: lexStr_shrinks lexNumber_shrinks)

function tokens :: "string \<Rightarrow> token list option" where
  "tokens s =
     (if s = [] then Some []
      else if isSpace (hd s) then tokens (tl s)
      else case nextToken s of
             None \<Rightarrow> None
           | Some (t, r) \<Rightarrow> map_option (\<lambda>ts. t # ts) (tokens r))"
  by pat_completeness auto
termination
  by (relation "measure length") (auto simp: diff_less dest: nextToken_shrinks)

declare tokens.simps [simp del]

section \<open>Reading a value\<close>

text \<open>
  The scanner's states: what an open array or object has so far, innermost first, and what may
  come next. Nesting is limited to 10000.
\<close>

datatype frame = InArr "json list" | InObj "(string \<times> json) list" string

datatype mode = Value | ValueOrEnd | Key | KeyOrEnd | KeyColon | After

datatype scan = Scanned json | Scanning "frame list" mode

definition maxNestingDepth :: nat where "maxNestingDepth = 10000"

fun deliver :: "json \<Rightarrow> frame list \<Rightarrow> scan" where
  "deliver v [] = Scanned v"
| "deliver v (InArr vs # fs) = Scanning (InArr (v # vs) # fs) After"
| "deliver v (InObj kvs k # fs) = Scanning (InObj (AList.update k v kvs) k # fs) After"

definition wantsValue :: "mode \<Rightarrow> bool" where
  "wantsValue m \<longleftrightarrow> m = Value \<or> m = ValueOrEnd"

fun scanStep :: "scan \<Rightarrow> token \<Rightarrow> scan option" where
  "scanStep (Scanned v) t = None"
| "scanStep (Scanning fs m) LBrack = (if wantsValue m \<and> length fs < maxNestingDepth then Some (Scanning (InArr [] # fs) ValueOrEnd) else None)"
| "scanStep (Scanning fs m) LBrace = (if wantsValue m \<and> length fs < maxNestingDepth then Some (Scanning (InObj [] [] # fs) KeyOrEnd) else None)"
| "scanStep (Scanning (InArr vs # fs) m) RBrack = (if m = ValueOrEnd \<or> m = After then Some (deliver (JArr (rev vs)) fs) else None)"
| "scanStep (Scanning (InObj kvs k # fs) m) RBrace = (if m = KeyOrEnd \<or> m = After then Some (deliver (JObj kvs) fs) else None)"
| "scanStep (Scanning (InArr vs # fs) m) Comma = (if m = After then Some (Scanning (InArr vs # fs) Value) else None)"
| "scanStep (Scanning (InObj kvs k # fs) m) Comma = (if m = After then Some (Scanning (InObj kvs k # fs) Key) else None)"
| "scanStep (Scanning fs m) Colon = (if m = KeyColon then Some (Scanning fs Value) else None)"
| "scanStep (Scanning (InObj kvs k # fs) m) (StrLit s) =
     (if m = Key \<or> m = KeyOrEnd then Some (Scanning (InObj kvs s # fs) KeyColon)
      else if wantsValue m then Some (deliver (JStr s) (InObj kvs k # fs)) else None)"
| "scanStep (Scanning fs m) (StrLit s) = (if wantsValue m then Some (deliver (JStr s) fs) else None)"
| "scanStep (Scanning fs m) (NumLit n) = (if wantsValue m then Some (deliver (numValue n) fs) else None)"
| "scanStep (Scanning fs m) (Lit v) = (if wantsValue m then Some (deliver v fs) else None)"
| "scanStep (Scanning fs m) t = None"

primrec scanAll :: "scan \<Rightarrow> token list \<Rightarrow> scan option" where
  "scanAll st [] = Some st"
| "scanAll st (t # ts) = (case scanStep st t of None \<Rightarrow> None | Some st' \<Rightarrow> scanAll st' ts)"

definition jsonParse :: "string \<Rightarrow> json option" where
  "jsonParse s =
     (case tokens s of
        None \<Rightarrow> None
      | Some ts \<Rightarrow> (case scanAll (Scanning [] Value) ts of Some (Scanned v) \<Rightarrow> Some v | _ \<Rightarrow> None))"

text \<open>json.Valid\<close>

definition jsonValid :: "string \<Rightarrow> bool" where
  "jsonValid s \<longleftrightarrow> jsonParse s \<noteq> None"

text \<open>
  json.Unmarshal into an empty map: an object fills it, null makes it nil, and anything else is an
  error that leaves it as it was.
\<close>

definition unmarshalMap :: "string \<Rightarrow> (string \<times> json) list option" where
  "unmarshalMap s =
     (case jsonParse s of
        Some (JObj kvs) \<Rightarrow> Some kvs
      | _ \<Rightarrow> if tokens s = Some [Lit JNull] then None else Some [])"

section \<open>Writing a value\<close>

primrec sepBy :: "'a \<Rightarrow> 'a list list \<Rightarrow> 'a list" where
  "sepBy sep [] = []"
| "sepBy sep (x # xs) = (if xs = [] then x else x @ sep # sepBy sep xs)"

primrec jsonEncode :: "json \<Rightarrow> string" where
  "jsonEncode JNull = ''null''"
| "jsonEncode (JBool b) = (if b then ''true'' else ''false'')"
| "jsonEncode (JNum f) = formatFloat f"
| "jsonEncode (JStr s) = quoteString s"
| "jsonEncode (JArr vs) = CHR ''['' # sepBy (CHR '','') (map jsonEncode vs) @ '']''"
| "jsonEncode (JObj kvs) =
     CHR ''{'' # sepBy (CHR '','') (map (\<lambda>(k, t). quoteString k @ CHR '':'' # t) (sort_key fst (map (map_prod id jsonEncode) kvs))) @ ''}''"

text \<open>json.Encoder ends every value with a newline.\<close>

definition encodeLine :: "json \<Rightarrow> string" where
  "encodeLine v = jsonEncode v @ [CHR 0x0A]"

section \<open>What is written is read back\<close>

text \<open>
  Values that Go can hold: finite numbers, strings of runes, maps without duplicates. Written and
  read again they are the same, the keys of maps in order.
\<close>

primrec json_ok :: "json \<Rightarrow> bool" where
  "json_ok JNull \<longleftrightarrow> True"
| "json_ok (JBool b) \<longleftrightarrow> True"
| "json_ok (JNum f) \<longleftrightarrow> f_ok f"
| "json_ok (JStr s) \<longleftrightarrow> toValidUTF8 s = s"
| "json_ok (JArr vs) \<longleftrightarrow> list_all id (map json_ok vs)"
| "json_ok (JObj kvs) \<longleftrightarrow> distinct (map fst kvs) \<and> list_all (\<lambda>(k, ok). toValidUTF8 k = k \<and> ok) (map (map_prod id json_ok) kvs)"

primrec json_depth :: "json \<Rightarrow> nat" where
  "json_depth JNull = 0"
| "json_depth (JBool b) = 0"
| "json_depth (JNum f) = 0"
| "json_depth (JStr s) = 0"
| "json_depth (JArr vs) = Suc (foldr max (map json_depth vs) 0)"
| "json_depth (JObj kvs) = Suc (foldr (\<lambda>(k, d). max d) (map (map_prod id json_depth) kvs) 0)"

primrec canon :: "json \<Rightarrow> json" where
  "canon JNull = JNull"
| "canon (JBool b) = JBool b"
| "canon (JNum f) = JNum f"
| "canon (JStr s) = JStr s"
| "canon (JArr vs) = JArr (map canon vs)"
| "canon (JObj kvs) = JObj (sort_key fst (map (map_prod id canon) kvs))"

primrec tokensOf :: "json \<Rightarrow> token list" where
  "tokensOf JNull = [Lit JNull]"
| "tokensOf (JBool b) = [Lit (JBool b)]"
| "tokensOf (JNum f) = [NumLit (Some f)]"
| "tokensOf (JStr s) = [StrLit s]"
| "tokensOf (JArr vs) = LBrack # sepBy Comma (map tokensOf vs) @ [RBrack]"
| "tokensOf (JObj kvs) = LBrace # sepBy Comma (map (\<lambda>(k, ts). StrLit k # Colon # ts) (sort_key fst (map (map_prod id tokensOf) kvs))) @ [RBrace]"

lemma insort_key_map_prod:
  "insort_key fst (map_prod id f x) (map (map_prod id f) xs) = map (map_prod id f) (insort_key fst x xs)"
  by (induction xs) (auto simp: map_prod_def split: prod.splits)

lemma sort_key_map_prod: "sort_key fst (map (map_prod id f) kvs) = map (map_prod id f) (sort_key fst kvs)"
  by (induction kvs) (simp_all add: insort_key_map_prod [unfolded id_def])

text \<open>A text read as given tokens, whatever follows that does not belong to a number.\<close>

definition reads_as :: "string \<Rightarrow> token list \<Rightarrow> bool" where
  "reads_as t ts \<longleftrightarrow> (\<forall>rest. ends_number rest \<longrightarrow> tokens (t @ rest) = map_option (\<lambda>us. ts @ us) (tokens rest))"

lemma tokens_next:
  assumes "s \<noteq> []" "\<not> isSpace (hd s)" "nextToken s = Some (t, r)"
  shows "tokens s = map_option (\<lambda>ts. t # ts) (tokens r)"
  using assms by (simp add: tokens.simps [of s])

lemma tokens_punctuation:
  assumes "map_of punctuation c = Some t" shows "tokens (c # s) = map_option (\<lambda>ts. t # ts) (tokens s)"
proof (rule tokens_next)
  show "\<not> isSpace (hd (c # s))" using assms by (auto simp: punctuation_def isSpace_def split: if_splits)
  show "nextToken (c # s) = Some (t, s)" using assms by (simp add: nextToken_def)
qed simp

lemma tokens_punct_simps [simp]:
  "tokens (CHR ''{'' # s) = map_option (\<lambda>ts. LBrace # ts) (tokens s)" "tokens (CHR ''}'' # s) = map_option (\<lambda>ts. RBrace # ts) (tokens s)"
  "tokens (CHR ''['' # s) = map_option (\<lambda>ts. LBrack # ts) (tokens s)" "tokens (CHR '']'' # s) = map_option (\<lambda>ts. RBrack # ts) (tokens s)"
  "tokens (CHR '':'' # s) = map_option (\<lambda>ts. Colon # ts) (tokens s)" "tokens (CHR '','' # s) = map_option (\<lambda>ts. Comma # ts) (tokens s)"
  by (rule tokens_punctuation, simp add: punctuation_def)+

lemma ends_number_punct [simp]:
  "ends_number (CHR '','' # s)" "ends_number (CHR '']'' # s)" "ends_number (CHR ''}'' # s)" "ends_number (CHR 0x0A # s)" "ends_number []"
  by (simp_all add: ends_number_def is_digit_def)

lemma reads_as_string:
  assumes "toValidUTF8 s = s" shows "tokens (quoteString s @ rest) = map_option (\<lambda>ts. StrLit s # ts) (tokens rest)"
proof (rule tokens_next)
  have "map_of punctuation quoteChar = None" by (simp add: punctuation_def quoteChar_def)
  then show "nextToken (quoteString s @ rest) = Some (StrLit s, rest)"
    using assms by (simp add: nextToken_def quoteString_def lexStr_quoteBody)
qed (simp_all add: quoteString_def isSpace_def quoteChar_def)

lemma reads_as_number:
  assumes "f_ok f" shows "reads_as (formatFloat f) [NumLit (Some f)]"
  unfolding reads_as_def
proof (intro allI impI)
  fix rest assume "ends_number rest"
  then obtain lit where l: "lexNumber (formatFloat f @ rest) = Some (lit, rest)" "parseFloat lit = Some f"
    using formatFloat_reads_back [OF assms] by blast
  let ?s = "formatFloat f @ rest"
  have "?s \<noteq> []" "is_digit (hd ?s) \<or> hd ?s = CHR ''-''"
    using l(1) by (auto simp: lexNumber_def Let_def split: if_splits)
  then obtain c r where s: "?s = c # r" and c: "is_digit c \<or> c = CHR ''-''" by (cases ?s) auto
  have "c \<notin> {CHR ''{'', CHR ''}'', CHR ''['', CHR '']'', CHR '':'', CHR '','', CHR ''t'', CHR ''f'', CHR ''n'', quoteChar, CHR 0x20, CHR 0x09, CHR 0x0D, CHR 0x0A}"
    using c by (auto simp: is_digit_def quoteChar_def)
  then have "map_of punctuation c = None" "\<not> isSpace c" "c \<noteq> quoteChar"
    "\<not> hasPrefix (c # r) ''true''" "\<not> hasPrefix (c # r) ''false''" "\<not> hasPrefix (c # r) ''null''"
    by (auto simp: punctuation_def isSpace_def hasPrefix_def)
  then have "nextToken ?s = Some (NumLit (Some f), rest)" "\<not> isSpace (hd ?s)"
    using l s by (simp_all add: nextToken_def)
  then show "tokens ?s = map_option (\<lambda>us. [NumLit (Some f)] @ us) (tokens rest)"
    using tokens_next [of ?s] s by simp
qed

lemma reads_as_sepBy:
  assumes "list_all2 reads_as texts tss" "ends_number rest"
  shows "tokens (sepBy (CHR '','') texts @ rest) = map_option (\<lambda>us. sepBy Comma tss @ us) (tokens rest)"
  using assms
proof (induction texts tss rule: list_all2_induct)
  case Nil
  then show ?case by (simp add: map_option.id [unfolded id_def])
next
  case (Cons t texts ts tss)
  have "texts = [] \<longleftrightarrow> tss = []" using Cons.hyps(2) by auto
  moreover have "tokens (t @ rest) = map_option (\<lambda>us. ts @ us) (tokens rest)"
    "tokens (t @ CHR '','' # sepBy (CHR '','') texts @ rest) = map_option (\<lambda>us. ts @ us) (tokens (CHR '','' # sepBy (CHR '','') texts @ rest))"
    using Cons.hyps(1) Cons.prems by (simp_all add: reads_as_def)
  ultimately show ?case using Cons.IH [OF Cons.prems] by (simp add: option.map_comp comp_def)
qed

lemma tokens_jsonEncode: "json_ok v \<Longrightarrow> reads_as (jsonEncode v) (tokensOf v)"
proof (induction v)
  case JNull
  have "nextToken (''null'' @ s) = Some (Lit JNull, s)" for s
    by (simp add: nextToken_def punctuation_def quoteChar_def hasPrefix_def)
  then show ?case using tokens_next [of "''null'' @ s" for s] by (simp add: reads_as_def isSpace_def)
next
  case (JBool b)
  have "nextToken (''true'' @ s) = Some (Lit (JBool True), s)" "nextToken (''false'' @ s) = Some (Lit (JBool False), s)" for s
    by (simp_all add: nextToken_def punctuation_def quoteChar_def hasPrefix_def)
  then show ?case
    using tokens_next [of "''true'' @ s" for s] tokens_next [of "''false'' @ s" for s] by (simp add: reads_as_def isSpace_def)
next
  case (JNum f)
  then show ?case using reads_as_number by simp
next
  case (JStr s)
  then show ?case using reads_as_string by (simp add: reads_as_def)
next
  case (JArr vs)
  have "list_all2 reads_as (map jsonEncode vs) (map tokensOf vs)"
    using JArr by (auto simp: list_all2_conv_all_nth list_all_length)
  then show ?case
    using reads_as_sepBy [of "map jsonEncode vs" "map tokensOf vs"] by (simp add: reads_as_def option.map_comp comp_def)
next
  case (JObj kvs)
  let ?s = "sort_key fst kvs"
  let ?t = "\<lambda>(k, v). quoteString k @ CHR '':'' # jsonEncode v" and ?u = "\<lambda>(k, v). StrLit k # Colon # tokensOf v"
  have ok: "toValidUTF8 k = k \<and> reads_as (jsonEncode v) (tokensOf v)" if "(k, v) \<in> set ?s" for k v
    using JObj.IH [of "(k, v)" v] JObj.prems that by (force simp: list_all_iff)
  have "list_all2 reads_as (map ?t ?s) (map ?u ?s)"
    unfolding list_all2_map1 list_all2_map2
  proof (rule list.rel_refl_strong)
    fix p assume p: "p \<in> set ?s"
    then show "reads_as (?t p) (?u p)"
      using ok [of "fst p" "snd p"] reads_as_string [of "fst p"]
      by (auto simp: reads_as_def option.map_comp comp_def split: prod.splits)
  qed
  then have "tokens (sepBy (CHR '','') (map ?t ?s) @ CHR ''}'' # rest) =
      map_option (\<lambda>us. sepBy Comma (map ?u ?s) @ us) (tokens (CHR ''}'' # rest))" for rest
    by (rule reads_as_sepBy) simp
  moreover have "map (\<lambda>(k, t). quoteString k @ CHR '':'' # t) (map (map_prod id jsonEncode) ?s) = map ?t ?s"
    "map (\<lambda>(k, ts). StrLit k # Colon # ts) (map (map_prod id tokensOf) ?s) = map ?u ?s"
    by (auto simp: map_prod_def)
  ultimately show ?case
    by (simp add: reads_as_def sort_key_map_prod option.map_comp comp_def del: map_map)
qed

lemma scanAll_append: "scanAll st (ts @ us) = (case scanAll st ts of None \<Rightarrow> None | Some st' \<Rightarrow> scanAll st' us)"
  by (induction ts arbitrary: st) (auto split: option.splits)

text \<open>A value that is scanned where one is wanted is delivered.\<close>

definition scans_as :: "nat \<Rightarrow> token list \<Rightarrow> json \<Rightarrow> bool" where
  "scans_as d ts v \<longleftrightarrow> (\<forall>fs m. wantsValue m \<longrightarrow> length fs + d \<le> maxNestingDepth \<longrightarrow> scanAll (Scanning fs m) ts = Some (deliver v fs))"

lemma scans_as_le: "scans_as d ts v \<Longrightarrow> d \<le> d' \<Longrightarrow> scans_as d' ts v"
  by (auto simp: scans_as_def)

lemma scan_elements:
  assumes "list_all2 (scans_as d) tss vs" "vs \<noteq> []" "wantsValue m" "Suc (length fs) + d \<le> maxNestingDepth"
  shows "scanAll (Scanning (InArr acc # fs) m) (sepBy Comma tss @ [RBrack]) = Some (deliver (JArr (rev acc @ vs)) fs)"
  using assms
proof (induction tss vs arbitrary: acc m rule: list_all2_induct)
  case (Cons ts tss v vs)
  have e: "tss = [] \<longleftrightarrow> vs = []" using Cons.hyps(2) by auto
  have s: "scanAll (Scanning (InArr acc # fs) m) ts = Some (Scanning (InArr (v # acc) # fs) After)"
    using Cons.hyps(1) Cons.prems(2,3) by (simp add: scans_as_def)
  show ?case
  proof (cases "vs = []")
    case True
    then show ?thesis using e s by (simp add: scanAll_append)
  next
    case False
    then show ?thesis
      using e s Cons.IH [of Value "v # acc"] Cons.prems(3) by (simp add: scanAll_append wantsValue_def)
  qed
qed simp

lemma update_fresh: "k \<notin> fst ` set kvs \<Longrightarrow> AList.update k v kvs = kvs @ [(k, v)]"
  by (induction kvs) auto

lemma scan_members:
  assumes "list_all2 (\<lambda>(k, ts) (k', v). k = k' \<and> scans_as d ts v) kts kvs" "kvs \<noteq> []" "m = Key \<or> m = KeyOrEnd"
    and "Suc (length fs) + d \<le> maxNestingDepth" "distinct (map fst (acc @ kvs))"
  shows "scanAll (Scanning (InObj acc k0 # fs) m) (sepBy Comma (map (\<lambda>(k, ts). StrLit k # Colon # ts) kts) @ [RBrace]) =
    Some (deliver (JObj (acc @ kvs)) fs)"
  using assms
proof (induction kts kvs arbitrary: acc k0 m rule: list_all2_induct)
  case (Cons kt kts kv kvs)
  obtain k ts v where kt: "kt = (k, ts)" "kv = (k, v)" "scans_as d ts v" using Cons.hyps(1) by (cases kt; cases kv) auto
  have e: "kts = [] \<longleftrightarrow> kvs = []" using Cons.hyps(2) by auto
  have f: "AList.update k v acc = acc @ [(k, v)]" using Cons.prems(4) kt by (intro update_fresh) auto
  have s: "scanAll (Scanning (InObj acc k0 # fs) m) (StrLit k # Colon # ts) = Some (Scanning (InObj (acc @ [(k, v)]) k # fs) After)"
    using kt(3) Cons.prems(2,3) f by (auto simp: scans_as_def wantsValue_def)
  have n: "scanAll (Scanning (InObj acc k0 # fs) m) (StrLit k # Colon # ts @ us) = scanAll (Scanning (InObj (acc @ [(k, v)]) k # fs) After) us" for us
    using s scanAll_append [of "Scanning (InObj acc k0 # fs) m" "StrLit k # Colon # ts" us] unfolding append_Cons by simp
  show ?case
  proof (cases "kvs = []")
    case True
    then show ?thesis using e kt n [of "[RBrace]"] by (simp del: scanAll.simps(2)) simp
  next
    case False
    then show ?thesis
      using e kt n Cons.IH [of Key "acc @ [(k, v)]" k] Cons.prems(3,4) by (simp del: scanAll.simps(2)) simp
  qed
qed simp

lemma foldr_max_le: "x \<in> set xs \<Longrightarrow> x \<le> foldr max xs (0 :: nat)"
  by (induction xs) auto

lemma foldr_max_snd_le: "(k, x) \<in> set xs \<Longrightarrow> x \<le> foldr (\<lambda>(k, d). max d) xs (0 :: nat)"
  by (induction xs) auto

lemma scan_tokensOf: "json_ok v \<Longrightarrow> scans_as (json_depth v) (tokensOf v) (canon v)"
proof (induction v)
  case (JStr s)
  have "scanStep (Scanning fs m) (StrLit s) = Some (deliver (JStr s) fs)" if "wantsValue m" for fs m
    using that by (cases "(Scanning fs m, StrLit s)" rule: scanStep.cases) (auto simp: wantsValue_def)
  then show ?case by (simp add: scans_as_def)
next
  case (JArr vs)
  let ?d = "foldr max (map json_depth vs) 0"
  have "scans_as ?d (tokensOf v) (canon v)" if "v \<in> set vs" for v
    using scans_as_le [OF JArr.IH [OF that]] JArr.prems that foldr_max_le [of "json_depth v" "map json_depth vs"] by (simp add: list_all_iff)
  then have "list_all2 (scans_as ?d) (map tokensOf vs) (map canon vs)" by (simp add: list_all2_conv_all_nth)
  then show ?case
    using scan_elements [of ?d "map tokensOf vs" "map canon vs" ValueOrEnd _ "[]"] by (cases "vs = []") (auto simp: scans_as_def wantsValue_def)
next
  case (JObj kvs)
  let ?s = "sort_key fst kvs" and ?d = "foldr (\<lambda>(k, d). max d) (map (map_prod id json_depth) kvs) 0"
  have sc: "scans_as ?d (tokensOf v) (canon v)" if "(k, v) \<in> set kvs" for k v
  proof -
    have "json_ok v" using JObj.prems that by (auto simp: list_all_iff)
    then have "scans_as (json_depth v) (tokensOf v) (canon v)" using JObj.IH [OF that, of v] by simp
    moreover have "json_depth v \<le> ?d" using that by (intro foldr_max_snd_le [of k]) force
    ultimately show ?thesis by (rule scans_as_le)
  qed
  have "list_all2 (\<lambda>(k, ts) (k', v). k = k' \<and> scans_as ?d ts v) (map (map_prod id tokensOf) ?s) (map (map_prod id canon) ?s)"
    unfolding list_all2_map1 list_all2_map2
  proof (rule list.rel_refl_strong)
    fix p assume p: "p \<in> set ?s"
    obtain k v where "p = (k, v)" by (rule prod.exhaust)
    then show "(\<lambda>(k, ts) (k', v). k = k' \<and> scans_as ?d ts v) (map_prod id tokensOf p) (map_prod id canon p)"
      using sc [of k v] p by simp
  qed
  moreover have "?s = [] \<longleftrightarrow> kvs = []" by (metis length_0_conv length_sort)
  moreover have "distinct (map fst (map (map_prod id canon) ?s))" using JObj.prems by (simp add: comp_def distinct_map)
  ultimately have "scanAll (Scanning (InObj [] [] # fs) KeyOrEnd)
      (sepBy Comma (map (\<lambda>(k, ts). StrLit k # Colon # ts) (map (map_prod id tokensOf) ?s)) @ [RBrace]) =
    Some (deliver (JObj (map (map_prod id canon) ?s)) fs)" if "Suc (length fs) + ?d \<le> maxNestingDepth" for fs
    using that scan_members [of ?d "map (map_prod id tokensOf) ?s" "map (map_prod id canon) ?s" KeyOrEnd fs "[]" "[]"]
    by (cases "kvs = []") auto
  then show ?case by (auto simp: scans_as_def wantsValue_def sort_key_map_prod)
qed (auto simp: scans_as_def numValue_def)

text \<open>
  A value the program can hold, written as a line of JSON, is read back as the same value with
  the keys of its maps in order.
\<close>

lemma jsonParse_encode:
  assumes "json_ok v" "json_depth v \<le> maxNestingDepth" shows "jsonParse (encodeLine v) = Some (canon v)"
proof -
  have nl: "tokens [CHR 0x0A] = Some []" by (simp add: tokens.simps [of "[CHR 0x0A]"] tokens.simps [of "[]"] isSpace_def)
  have "tokens (encodeLine v) = Some (tokensOf v)"
    using tokens_jsonEncode [OF assms(1)] nl by (simp add: encodeLine_def reads_as_def)
  moreover have "scanAll (Scanning [] Value) (tokensOf v) = Some (Scanned (canon v))"
    using scan_tokensOf [OF assms(1)] assms(2) by (simp add: scans_as_def wantsValue_def)
  ultimately show ?thesis by (simp add: jsonParse_def)
qed

section \<open>What is read can be written\<close>

lemma toValidUTF8_rune: "runeLen u = length u \<Longrightarrow> toValidUTF8 (u @ t) = u @ toValidUTF8 t"
proof (cases "u = []")
  case False
  moreover assume "runeLen u = length u"
  ultimately show ?thesis using runeLen_prefix [of u t] by (simp add: toValidUTF8.simps [of "u @ t"])
qed simp

lemma in_range_char_of: "n < 256 \<Longrightarrow> in_range a b (char_of n) \<longleftrightarrow> a \<le> n \<and> n \<le> b"
  by (simp add: in_range_def)

lemma second_ok_char_of:
  fixes n k :: nat
  assumes "n < 256" "k < 256"
  shows "second_ok (char_of n) (char_of k) \<longleftrightarrow>
     (if n = 0xE0 then 0xA0 else if n = 0xF0 then 0x90 else 0x80) \<le> k \<and> k \<le> (if n = 0xED then 0x9F else if n = 0xF4 then 0x8F else 0xBF)"
proof -
  have n: "(of_char (char_of n) :: nat) = n" using assms(1) by simp
  show ?thesis unfolding second_ok_def Let_def n by (rule in_range_char_of [OF assms(2)])
qed

lemma second_ok_range:
  "q < (16 :: nat) \<Longrightarrow> q = 0 \<longrightarrow> 32 \<le> r \<Longrightarrow> q = 13 \<longrightarrow> r < 32 \<Longrightarrow> r < (64 :: nat) \<Longrightarrow> second_ok (char_of (0xE0 + q)) (char_of (0x80 + r))"
  by (auto simp: second_ok_char_of)

lemma second_ok_range4:
  "q \<le> (4 :: nat) \<Longrightarrow> q = 0 \<longrightarrow> 16 \<le> r \<Longrightarrow> q = 4 \<longrightarrow> r < 16 \<Longrightarrow> r < (64 :: nat) \<Longrightarrow> second_ok (char_of (0xF0 + q)) (char_of (0x80 + r))"
  by (auto simp: second_ok_char_of)

lemma runeLen_exact:
  "runeSize c = 2 \<Longrightarrow> second_ok c d \<Longrightarrow> cont d \<Longrightarrow> runeLen [c, d] = 2"
  "runeSize c = 3 \<Longrightarrow> second_ok c d \<Longrightarrow> cont d \<Longrightarrow> cont e \<Longrightarrow> runeLen [c, d, e] = 3"
  "runeSize c = 4 \<Longrightarrow> second_ok c d \<Longrightarrow> cont d \<Longrightarrow> cont e \<Longrightarrow> cont f \<Longrightarrow> runeLen [c, d, e, f] = 4"
  by (simp_all add: runeLen_def)

lemma cont_char_of: "k < 64 \<Longrightarrow> cont (char_of (0x80 + k :: nat))"
  unfolding cont_def by (subst in_range_char_of) simp_all

lemma runeLen_single: "in_range 0 0x7F c \<Longrightarrow> runeLen [c] = length [c]"
  by (simp add: runeLen_def runeSize_def)

lemma runeLen_utf8:
  assumes "n < 0x110000" "n < 0xD800 \<or> 0xDFFF < n" shows "runeLen (utf8 n) = length (utf8 n)"
proof -
  have m: "k mod 64 < (64 :: nat)" for k by simp
  note c = cont_char_of [OF m]
  consider (1) "n < 0x80" | (2) "0x80 \<le> n" "n < 0x800" | (3) "0x800 \<le> n" "n < 0x10000" | (4) "0x10000 \<le> n" by linarith
  then show ?thesis
  proof cases
    case 1
    then show ?thesis using runeLen_single [of "char_of n"] by (simp add: utf8_def in_range_char_of)
  next
    case 2
    then have d: "2 \<le> n div 64" "n div 64 < 32" by auto
    then have "runeSize (char_of (0xC0 + n div 64)) = 2" by (simp add: runeSize_def in_range_char_of)
    moreover have "second_ok (char_of (0xC0 + n div 64)) (char_of (0x80 + n mod 64))"
      using d m [of n] by (simp add: second_ok_char_of)
    ultimately show ?thesis using 2 runeLen_exact(1) c by (simp add: utf8_def)
  next
    case 3
    then have a: "n div 4096 < 16" by auto
    have "n div 4096 = n div 64 div 64" by (simp flip: div_mult2_eq)
    then have "n div 64 = n div 4096 * 64 + n div 64 mod 64" by simp
    moreover have "32 \<le> n div 64" "n div 64 < 864 \<or> 896 \<le> n div 64" using 3 assms by auto
    ultimately have b: "n div 4096 = 0 \<longrightarrow> 32 \<le> n div 64 mod 64" "n div 4096 = 13 \<longrightarrow> n div 64 mod 64 < 32"
      using m [of "n div 64"] by auto
    have "runeSize (char_of (0xE0 + n div 4096)) = 3" using a by (simp add: runeSize_def in_range_char_of)
    moreover have "second_ok (char_of (0xE0 + n div 4096)) (char_of (0x80 + n div 64 mod 64))"
      using second_ok_range [OF a b m] .
    ultimately show ?thesis using 3 runeLen_exact(2) c by (simp add: utf8_def)
  next
    case 4
    then have a: "n div 262144 \<le> 4" using assms by auto
    have "n div 262144 = n div 4096 div 64" by (simp flip: div_mult2_eq)
    then have "n div 4096 = n div 262144 * 64 + n div 4096 mod 64" by simp
    moreover have "16 \<le> n div 4096" "n div 4096 < 272" using 4 assms by auto
    ultimately have b: "n div 262144 = 0 \<longrightarrow> 16 \<le> n div 4096 mod 64" "n div 262144 = 4 \<longrightarrow> n div 4096 mod 64 < 16"
      using m [of "n div 4096"] by auto
    have "runeSize (char_of (0xF0 + n div 262144)) = 4" using a by (simp add: runeSize_def in_range_char_of)
    moreover have "second_ok (char_of (0xF0 + n div 262144)) (char_of (0x80 + n div 4096 mod 64))"
      using second_ok_range4 [OF a b m] .
    ultimately show ?thesis using 4 runeLen_exact(3) c by (simp add: utf8_def)
  qed
qed

lemma hex4_bound: "hex4 s = Some (v, r) \<Longrightarrow> v < 0x10000"
proof -
  assume "hex4 s = Some (v, r)"
  then obtain w x y z where "v = ((w * 16 + x) * 16 + y) * 16 + z" "w < 16" "x < 16" "y < 16" "z < 16"
    by (auto simp: hex4_def split: list.splits option.splits dest!: hex_value_bound)
  then show ?thesis by simp
qed

lemma runeLen_replacement: "runeLen replacement = length replacement"
  by (simp add: replacement_def runeLen_def runeSize_def in_range_def second_ok_def cont_def Let_def)

lemma runeLen_unescapeU: "unescapeU s = Some (t, r) \<Longrightarrow> runeLen t = length t"
  by (auto simp: unescapeU_def runeLen_replacement split: option.splits if_splits list.splits
      intro!: runeLen_utf8 dest!: hex4_bound) arith

lemma runeLen_unescape: "unescape s = Some (t, r) \<Longrightarrow> runeLen t = length t"
  using runeLen_unescapeU runeLen_single
  by (auto simp: unescape_def quoteChar_def backslash_def in_range_def simp del: list.size split: list.splits if_splits)

lemma lexStr_valid: "lexStr s = Some (t, r) \<Longrightarrow> toValidUTF8 t = t"
proof (induction s arbitrary: t r rule: lexStr.induct)
  case (1 s)
  have ne: "s \<noteq> []" using 1(4) by (auto simp: lexStr.simps [of "[]"])
  consider (quote) "hd s = quoteChar" | (esc) "hd s \<noteq> quoteChar" "hd s = backslash"
    | (bad) "hd s \<noteq> quoteChar" "hd s \<noteq> backslash" "\<not> in_range 0 0x1F (hd s)" "runeLen s = 0"
    | (rune) "hd s \<noteq> quoteChar" "hd s \<noteq> backslash" "\<not> in_range 0 0x1F (hd s)" "runeLen s \<noteq> 0"
    | (ctl) "hd s \<noteq> quoteChar" "hd s \<noteq> backslash" "in_range 0 0x1F (hd s)" by blast
  then show ?case
  proof cases
    case quote
    then show ?thesis using 1(4) ne by (auto simp: lexStr.simps [of s] toValidUTF8.simps [of "[]"])
  next
    case esc
    then obtain u r1 t1 where u: "unescape (tl s) = Some (u, r1)" "lexStr r1 = Some (t1, r)" "t = u @ t1"
      using 1(4) ne by (auto simp: lexStr.simps [of s] split: option.splits)
    then show ?thesis using toValidUTF8_rune [OF runeLen_unescape [OF u(1)]] 1(1) [OF ne esc u(1) refl u(2)] by simp
  next
    case bad
    then obtain t1 where "lexStr (tl s) = Some (t1, r)" "t = replacement @ t1" using 1(4) ne by (auto simp: lexStr.simps [of s])
    then show ?thesis using toValidUTF8_rune [OF runeLen_replacement] 1(2) [OF ne bad] by simp
  next
    case rune
    then obtain t1 where "lexStr (drop (runeLen s) s) = Some (t1, r)" "t = take (runeLen s) s @ t1"
      using 1(4) ne by (auto simp: lexStr.simps [of s])
    moreover have "runeLen (take (runeLen s) s) = length (take (runeLen s) s)"
      using runeLen_prefix [OF rune(4), of "[]"] runeLen_le [of s] by simp
    ultimately show ?thesis using toValidUTF8_rune [of "take (runeLen s) s" t1] 1(3) [OF ne rune] by simp
  next
    case ctl
    then show ?thesis using 1(4) ne by (simp add: lexStr.simps [of s])
  qed
qed

text \<open>The tokens of a text, and the values under construction, are of a form that can be written.\<close>

fun token_ok :: "token \<Rightarrow> bool" where
  "token_ok (StrLit s) \<longleftrightarrow> toValidUTF8 s = s"
| "token_ok (NumLit (Some f)) \<longleftrightarrow> f_ok f"
| "token_ok (Lit v) \<longleftrightarrow> json_ok v \<and> json_depth v = 0"
| "token_ok _ \<longleftrightarrow> True"

lemma lexNumber_nonneg: "lexNumber s = Some ((neg, n, x), r) \<Longrightarrow> \<exists>k. n = int k"
  by (auto simp: lexNumber_def Let_def split: if_splits option.splits prod.splits)

lemma nextToken_ok: "nextToken s = Some (t, r) \<Longrightarrow> token_ok t"
proof -
  assume n: "nextToken s = Some (t, r)"
  have p: "token_ok u" if "map_of punctuation c = Some u" for c u
    using that by (auto simp: punctuation_def split: if_splits)
  have f: "token_ok (NumLit (parseFloat lit))" if l: "lexNumber s = Some (lit, r')" for lit r'
  proof (cases lit)
    case (fields neg k x)
    then obtain j where "k = int j" using lexNumber_nonneg [of s neg k x] l by blast
    then show ?thesis using fields parseFloat_ok by (cases "parseFloat lit") auto
  qed
  show ?thesis
    using n p f lexStr_valid by (auto simp: nextToken_def split: option.splits if_splits)
qed

lemma tokens_ok: "tokens s = Some ts \<Longrightarrow> list_all token_ok ts"
proof (induction s arbitrary: ts rule: tokens.induct)
  case (1 s)
  consider "s = []" | (sp) "s \<noteq> []" "isSpace (hd s)" | (tok) "s \<noteq> []" "\<not> isSpace (hd s)" by blast
  then show ?case
  proof cases
    case 1
    then show ?thesis using "1.prems" by (simp add: tokens.simps [of "[]"])
  next
    case sp
    then show ?thesis using 1(1) [OF sp] "1.prems" by (simp add: tokens.simps [of s])
  next
    case tok
    then obtain t r ts' where t: "nextToken s = Some (t, r)" "tokens r = Some ts'" "ts = t # ts'"
      using "1.prems" by (auto simp: tokens.simps [of s] split: option.splits)
    then show ?thesis using 1(2) [OF tok t(1) refl t(2)] nextToken_ok by simp
  qed
qed

definition value_ok :: "nat \<Rightarrow> json \<Rightarrow> bool" where
  "value_ok d v \<longleftrightarrow> json_ok v \<and> json_depth v + d \<le> maxNestingDepth"

fun frame_ok :: "nat \<Rightarrow> frame \<Rightarrow> bool" where
  "frame_ok d (InArr vs) \<longleftrightarrow> list_all (value_ok d) vs"
| "frame_ok d (InObj kvs k) \<longleftrightarrow> distinct (map fst kvs) \<and> list_all (\<lambda>(k, v). toValidUTF8 k = k \<and> value_ok d v) kvs \<and> toValidUTF8 k = k"

fun frames_ok :: "frame list \<Rightarrow> bool" where
  "frames_ok [] \<longleftrightarrow> True"
| "frames_ok (f # fs) \<longleftrightarrow> length fs < maxNestingDepth \<and> frame_ok (Suc (length fs)) f \<and> frames_ok fs"

fun scan_ok :: "scan \<Rightarrow> bool" where
  "scan_ok (Scanned v) \<longleftrightarrow> value_ok 0 v"
| "scan_ok (Scanning fs m) \<longleftrightarrow> frames_ok fs"

lemma AList_update_ok:
  "list_all P kvs \<Longrightarrow> P (k, v) \<Longrightarrow> list_all P (AList.update k v kvs)"
  by (induction kvs) auto

lemma deliver_ok: "frames_ok fs \<Longrightarrow> value_ok (length fs) v \<Longrightarrow> scan_ok (deliver v fs)"
  by (cases "(v, fs)" rule: deliver.cases) (auto simp: distinct_update intro!: AList_update_ok)

lemma foldr_max_bound: "(\<And>x. x \<in> set xs \<Longrightarrow> x \<le> b) \<Longrightarrow> foldr max xs 0 \<le> (b :: nat)"
  by (induction xs) auto

lemma foldr_max_snd_bound: "(\<And>k x. (k, x) \<in> set xs \<Longrightarrow> x \<le> b) \<Longrightarrow> foldr (\<lambda>(k, d). max d) xs 0 \<le> (b :: nat)"
proof (induction xs)
  case (Cons p xs)
  obtain k x where "p = (k, x)" by (rule prod.exhaust)
  moreover have "foldr (\<lambda>(k, d). max d) xs 0 \<le> b" using Cons.prems by (intro Cons.IH) auto
  ultimately show ?case using Cons.prems [of k x] by simp
qed simp

lemma arr_ok:
  assumes "d < maxNestingDepth" "frame_ok (Suc d) (InArr vs)" shows "value_ok d (JArr (rev vs))"
proof -
  have "foldr max (map json_depth (rev vs)) 0 \<le> maxNestingDepth - Suc d"
    using assms by (intro foldr_max_bound) (auto simp: list_all_iff value_ok_def)
  then show ?thesis using assms by (auto simp: value_ok_def list_all_iff)
qed

lemma obj_ok:
  assumes "d < maxNestingDepth" "frame_ok (Suc d) (InObj kvs k)" shows "value_ok d (JObj kvs)"
proof -
  have "foldr (\<lambda>(k, d). max d) (map (map_prod id json_depth) kvs) 0 \<le> maxNestingDepth - Suc d"
    using assms by (intro foldr_max_snd_bound) (force simp: list_all_iff value_ok_def)
  then show ?thesis using assms by (force simp: value_ok_def list_all_iff)
qed

lemma toValidUTF8_Nil [simp]: "toValidUTF8 [] = []"
  by (simp add: toValidUTF8.simps)

lemma frames_ok_length: "frames_ok fs \<Longrightarrow> length fs \<le> maxNestingDepth"
  by (cases fs) auto

lemma numValue_ok: "token_ok (NumLit n) \<Longrightarrow> json_ok (numValue n) \<and> json_depth (numValue n) = 0"
  by (cases n) (auto simp: numValue_def)

lemma leaf_ok:
  "frames_ok fs \<Longrightarrow> json_ok v \<Longrightarrow> json_depth v = 0 \<Longrightarrow> scan_ok (deliver v fs)"
  by (rule deliver_ok) (auto simp: value_ok_def dest: frames_ok_length)

lemma scanStep_ok:
  assumes "scanStep st t = Some st'" "scan_ok st" "token_ok t" shows "scan_ok st'"
  using assms
proof (cases "(st, t)" rule: scanStep.cases)
  case (4 vs fs m)
  then show ?thesis using assms arr_ok [of "length fs" vs] by (auto split: if_splits intro!: deliver_ok)
next
  case (5 kvs k fs m)
  then show ?thesis using assms obj_ok [of "length fs" kvs k] by (auto split: if_splits intro!: deliver_ok)
next
  case (9 kvs k fs m s)
  then show ?thesis using assms leaf_ok [of "InObj kvs k # fs" "JStr s"] by (auto split: if_splits)
qed (auto simp: value_ok_def dest: numValue_ok split: if_splits intro: leaf_ok)

lemma scanAll_ok: "scanAll st ts = Some st' \<Longrightarrow> scan_ok st \<Longrightarrow> list_all token_ok ts \<Longrightarrow> scan_ok st'"
  by (induction ts arbitrary: st) (auto split: option.splits dest: scanStep_ok)

lemma jsonParse_ok: "jsonParse s = Some v \<Longrightarrow> json_ok v \<and> json_depth v \<le> maxNestingDepth"
proof -
  assume "jsonParse s = Some v"
  then obtain ts where "tokens s = Some ts" "scanAll (Scanning [] Value) ts = Some (Scanned v)"
    by (auto simp: jsonParse_def split: option.splits scan.splits)
  then show ?thesis using scanAll_ok [of "Scanning [] Value" ts "Scanned v"] tokens_ok by (simp add: value_ok_def)
qed

lemma toValidUTF8_ASCII: "list_all (in_range 0 0x7F) s \<Longrightarrow> toValidUTF8 s = s"
  by (induction s) (simp_all add: toValidUTF8_ascii)

lemma tokens_null: "tokens ''null'' = Some [Lit JNull]"
  using tokens_jsonEncode [of JNull] by (simp add: reads_as_def tokens.simps [of "[]"])

lemma unmarshalMap_null: "unmarshalMap ''null'' = None"
  by (simp add: unmarshalMap_def jsonParse_def tokens_null wantsValue_def)

text \<open>Changing a value in a map, and looking one up, after it was written and read.\<close>

lemma map_of_canon:
  assumes "distinct (map fst kvs)"
  shows "map_of (sort_key fst (map (map_prod id canon) kvs)) k = map_option canon (map_of kvs k)"
proof -
  have "map_of (sort_key fst kvs) = map_of kvs" using assms by (subst map_of_inject_set) (auto simp: distinct_map)
  then show ?thesis unfolding sort_key_map_prod by (simp add: map_prod_def id_def map_of_map)
qed

end
