(* ===== verification/Supervisor.thy ===== *)
theory Supervisor
  imports Http Pki Store Tunnel Go_Json
begin

text \<open>
  Model of src/internal/supervisor/supervisor.go: the supervisor API an RKE2 agent talks to. The
  server's fields are the record \<open>server\<close>; what it calls through interfaces (the password store,
  the issuance recorder) and third-party code (IsDNS1123Subdomain) are the record \<open>deps\<close>. A
  handler takes the server and the world and returns the reply with both updated. Log
  output is not modelled. Errors in replies are kept as values (\<open>failure\<close>) instead of their text.
\<close>

section \<open>Configuration and state\<close>

definition hdrNodeName :: string where "hdrNodeName = ''Rke2-Node-Name''"
definition hdrNodePassword :: string where "hdrNodePassword = ''Rke2-Node-Password''"
definition hdrNodeIP :: string where "hdrNodeIP = ''Rke2-Node-Ip''"
definition basicUser :: string where "basicUser = ''node''"

definition secretKeysToScrub :: "string list" where "secretKeysToScrub = [''IPSECPSK'']"

record config =
  cfg_Token :: string
  cfg_APIServers :: "string list"
  cfg_ClusterDNS :: string
  cfg_ClusterDomain :: string
  cfg_PodCIDR :: string
  cfg_ServiceCIDR :: string
  cfg_AgentConfigRaw :: string

record logLimiter =
  ll_every :: duration
  ll_last :: time
  ll_suppressed :: nat

text \<open>\<open>sv_agent\<close> is \<open>None\<close> for Go's nil map; \<open>sv_once\<close> tells that the sync.Once has fired.\<close>

record server =
  sv_cfg :: config
  sv_apiServers :: "string list option"
  sv_ca :: ca
  sv_servingCA :: "ca option"
  sv_once :: bool
  sv_agent :: "(string \<times> json) list option"
  sv_serviceNets :: "ipnet list"
  sv_serviceErr :: bool
  sv_csrReadTimeout :: duration
  sv_authWarn :: logLimiter

record 'w deps =
  d_pf :: "'w platform"
  d_host :: "'w host"
  d_pw :: "(string \<Rightarrow> string \<Rightarrow> 'w \<Rightarrow> (store_error, bool) result \<times> 'w) option"
  d_rec :: "(string \<Rightarrow> string \<Rightarrow> time \<Rightarrow> 'w \<Rightarrow> 'w) option"
  d_isDNS1123 :: "string \<Rightarrow> string list"

text \<open>Errors a reply may carry, and replies.\<close>

datatype san_error =
    ErrBadSANConfig
  | TooManyIPs nat
  | NotAnIP string
  | NotRoutable ip
  | InServiceCIDR ip ipnet
  | IsControlPlane ip

datatype name_error = NotDNS1123 "string list" | ReservedName string

datatype read_error = ReadingCSR string | CSRTooLarge | EmptyCSR

datatype failure =
    Say string
  | FailRead read_error
  | FailCSR pki_error
  | FailName name_error
  | FailSAN san_error
  | FailPassword pw_error

datatype body = Text string | ErrorText failure | StatusJson nat failure

record response =
  resp_code :: nat
  resp_type :: string
  resp_body :: body

datatype reply = Reply response | Redirect string | Panicked | Tunnelled

definition http_Error :: "failure \<Rightarrow> nat \<Rightarrow> reply" where
  "http_Error f code = Reply \<lparr>resp_code = code, resp_type = ''text/plain; charset=utf-8'', resp_body = ErrorText f\<rparr>"

definition writeStatus :: "nat \<Rightarrow> failure \<Rightarrow> reply" where
  "writeStatus code f = Reply \<lparr>resp_code = code, resp_type = ''application/json'', resp_body = StatusJson code f\<rparr>"

definition http_OK :: "string \<Rightarrow> body \<Rightarrow> reply" where
  "http_OK ctype b = Reply \<lparr>resp_code = StatusOK, resp_type = ctype, resp_body = b\<rparr>"

section \<open>Construction and the advertised list\<close>

definition equal :: "string list \<Rightarrow> string list \<Rightarrow> bool" where
  "equal a b = (length a = length b \<and> list_all (\<lambda>i. a ! i = b ! i) [0..<length a])"

definition SetAPIServers :: "string list \<Rightarrow> server \<Rightarrow> server" where
  "SetAPIServers l s =
     (if l = [] then s
      else case sv_apiServers s of
             Some cur \<Rightarrow> (if equal cur l then s else s\<lparr>sv_apiServers := Some l\<rparr>)
           | None \<Rightarrow> s\<lparr>sv_apiServers := Some l\<rparr>)"

definition SetServingCA :: "ca option \<Rightarrow> server \<Rightarrow> server" where
  "SetServingCA c s = s\<lparr>sv_servingCA := c\<rparr>"

fun parseCIDRList :: "string list \<Rightarrow> ipnet list option" where
  "parseCIDRList [] = Some []"
| "parseCIDRList (p # ps) =
     (let p' = trimSpace p in
      if p' = [] then parseCIDRList ps
      else case parseCIDR p' of
             None \<Rightarrow> None
           | Some (_, n) \<Rightarrow> map_option (\<lambda>out. n # out) (parseCIDRList ps))"

definition parseCIDRs :: "string \<Rightarrow> ipnet list option" where
  "parseCIDRs csv = parseCIDRList (split (CHR '','') csv)"

definition defaultCSRReadTimeout :: duration where "defaultCSRReadTimeout = 30 * second"

definition newServer :: "config \<Rightarrow> ca \<Rightarrow> server" where
  "newServer cfg ca =
     (let nets = parseCIDRs (cfg_ServiceCIDR cfg);
          s = \<lparr>sv_cfg = cfg, sv_apiServers = None, sv_ca = ca, sv_servingCA = None, sv_once = False, sv_agent = None,
               sv_serviceNets = (case nets of Some ns \<Rightarrow> ns | None \<Rightarrow> []), sv_serviceErr = (nets = None),
               sv_csrReadTimeout = defaultCSRReadTimeout,
               sv_authWarn = \<lparr>ll_every = minute, ll_last = 0, ll_suppressed = 0\<rparr>\<rparr> in
      if cfg_APIServers cfg \<noteq> [] then SetAPIServers (cfg_APIServers cfg) s else s)"

section \<open>Authentication\<close>

definition allow :: "logLimiter \<Rightarrow> time \<Rightarrow> (nat \<times> bool) \<times> logLimiter" where
  "allow l now =
     (if ll_last l \<noteq> 0 \<and> time_Sub now (ll_last l) < ll_every l
      then ((0, False), l\<lparr>ll_suppressed := ll_suppressed l + 1\<rparr>)
      else ((ll_suppressed l, True), l\<lparr>ll_last := now, ll_suppressed := 0\<rparr>))"

type_synonym 'w handler = "'w deps \<Rightarrow> server \<Rightarrow> http_request \<Rightarrow> 'w \<Rightarrow> reply \<times> server \<times> 'w"

definition authorized :: "server \<Rightarrow> http_request \<Rightarrow> bool" where
  "authorized s r =
     (case BasicAuth r of
        None \<Rightarrow> False
      | Some (user, pass) \<Rightarrow> user = basicUser \<and> pass = cfg_Token (sv_cfg s))"

definition auth :: "'w handler \<Rightarrow> 'w handler" where
  "auth next d s r w =
     (if \<not> authorized s r then
        (case timeNow (d_pf d) w of
           (now, w1) \<Rightarrow>
             (http_Error (Say ''unauthorized'') StatusUnauthorized,
              s\<lparr>sv_authWarn := snd (allow (sv_authWarn s) now)\<rparr>, w1))
      else next d s r w)"

section \<open>Simple handlers\<close>

definition handleCACerts :: "'w handler" where
  "handleCACerts d s r w = (http_OK ''application/x-pem-file'' (Text (ca_PEM (sv_ca s))), s, w)"

definition handleCA :: "'w handler" where
  "handleCA d s r w = (http_OK ''text/plain'' (Text (ca_PEM (sv_ca s))), s, w)"

definition handleReadyz :: "'w handler" where
  "handleReadyz d s r w = (http_OK ''text/plain; charset=utf-8'' (Text ''ok''), s, w)"

definition handleAPIServers :: "'w handler" where
  "handleAPIServers d s r w =
     (let l = (case sv_apiServers s of Some xs \<Rightarrow> xs | None \<Rightarrow> []) in
      (http_OK ''application/json'' (Text (encodeLine (JArr (map JStr l)))), s, w))"

definition handleUnknown :: "'w handler" where
  "handleUnknown d s r w = (http_Error (Say (''not implemented: '' @ rq_Path r)) StatusNotImplemented, s, w)"

section \<open>The agent configuration\<close>

definition ipNet :: "string \<Rightarrow> json" where
  "ipNet cidr =
     (case parseCIDR cidr of
        None \<Rightarrow> JNull
      | Some (_, n) \<Rightarrow>
          JObj [(''IP'', JStr (ip_String (net_IP n))),
                (''Mask'', JStr (b64_std_encode (map (\<lambda>b. char_of (unat b)) (net_Mask n))))])"

definition overrides :: "config \<Rightarrow> (string \<times> json) list" where
  "overrides c =
     (let podNet = ipNet (cfg_PodCIDR c); svcNet = ipNet (cfg_ServiceCIDR c) in
      [(''ClusterDNS'', JStr (cfg_ClusterDNS c)),
       (''ClusterDNSs'', JArr [JStr (cfg_ClusterDNS c)]),
       (''ClusterDomain'', JStr (cfg_ClusterDomain c)),
       (''ClusterIPRange'', podNet),
       (''ClusterIPRanges'', JArr [podNet]),
       (''ServiceIPRange'', svcNet),
       (''ServiceIPRanges'', JArr [svcNet]),
       (''FlannelBackend'', JStr ''none''),
       (''DisableKubeProxy'', JBool True),
       (''DisableServiceLB'', JBool True),
       (''DisableCCM'', JBool True),
       (''DisableNPC'', JBool True),
       (''DisableHelmController'', JBool True)])"

definition scrub :: "(string \<times> json) list \<Rightarrow> string \<Rightarrow> (string \<times> json) list" where
  "scrub cfg k = (if map_of cfg k \<noteq> None then AList.update k (JStr []) cfg else cfg)"

text \<open>The patched configuration, or \<open>None\<close> where writing to a nil map panics.\<close>

definition agentConfig :: "config \<Rightarrow> (string \<times> json) list option" where
  "agentConfig c =
     (let cfg = (if cfg_AgentConfigRaw c \<noteq> [] then unmarshalMap (cfg_AgentConfigRaw c) else Some []) in
      map_option (\<lambda>m. foldl scrub (foldl (\<lambda>m (k, v). AList.update k v m) m (overrides c)) secretKeysToScrub) cfg)"

text \<open>buildAgentConfig inside the sync.Once: it counts as done even when it panics.\<close>

definition buildAgentConfig :: "server \<Rightarrow> bool \<times> server" where
  "buildAgentConfig s =
     (case agentConfig (sv_cfg s) of
        None \<Rightarrow> (False, s\<lparr>sv_once := True\<rparr>)
      | Some m \<Rightarrow> (True, s\<lparr>sv_once := True, sv_agent := Some m\<rparr>))"

definition jsonMap :: "(string \<times> json) list option \<Rightarrow> json" where
  "jsonMap m = (case m of None \<Rightarrow> JNull | Some kvs \<Rightarrow> JObj kvs)"

definition handleConfig :: "'w handler" where
  "handleConfig d s r w =
     (let (ok, s') = (if sv_once s then (True, s) else buildAgentConfig s) in
      if ok then (http_OK ''application/json'' (Text (encodeLine (jsonMap (sv_agent s')))), s', w)
      else (Panicked, s', w))"

section \<open>Checks on what the client sends\<close>

definition validateNodeName :: "'w deps \<Rightarrow> string \<Rightarrow> name_error option" where
  "validateNodeName d name =
     (if d_isDNS1123 d name \<noteq> [] then Some (NotDNS1123 (d_isDNS1123 d name))
      else if name = ''localhost'' \<or> name = ''kubernetes'' \<or> hasPrefix name ''kubernetes.'' \<or> contains name ''.svc''
      then Some (ReservedName name)
      else None)"

definition maxNodeIPs :: nat where "maxNodeIPs = 8"

definition apiServerIPs :: "server \<Rightarrow> ip list" where
  "apiServerIPs s =
     (case sv_apiServers s of
        None \<Rightarrow> []
      | Some eps \<Rightarrow>
          List.map_filter (\<lambda>hp. parseIP (case splitHostPort hp of Some (host, _) \<Rightarrow> host | None \<Rightarrow> hp)) eps)"

text \<open>The loop body of servingSANIPs for one entry of the header.\<close>

definition sanIP :: "server \<Rightarrow> ip list \<Rightarrow> string \<Rightarrow> (san_error, ip) result" where
  "sanIP s apiservers p0 =
     (let p = trimSpace p0 in
      case parseIP p of
        None \<Rightarrow> Inl (NotAnIP p)
      | Some ip \<Rightarrow>
          if isLoopback ip \<or> isUnspecified ip \<or> isLinkLocalUnicast ip \<or>
             isMulticast ip \<or> isInterfaceLocalMulticast ip \<or> isLinkLocalMulticast ip
          then Inl (NotRoutable ip)
          else case find (\<lambda>n. net_Contains n ip) (sv_serviceNets s) of
                 Some n \<Rightarrow> Inl (InServiceCIDR ip n)
               | None \<Rightarrow>
                   if list_ex (\<lambda>a. ip_Equal a ip) apiservers then Inl (IsControlPlane ip) else Inr ip)"

fun sanIPs :: "server \<Rightarrow> ip list \<Rightarrow> string list \<Rightarrow> (san_error, ip list) result" where
  "sanIPs s apiservers [] = Inr []"
| "sanIPs s apiservers (p # ps) =
     (case sanIP s apiservers p of
        Inl e \<Rightarrow> Inl e
      | Inr ip \<Rightarrow> (case sanIPs s apiservers ps of Inl e \<Rightarrow> Inl e | Inr out \<Rightarrow> Inr (ip # out)))"

definition servingSANIPs :: "server \<Rightarrow> string \<Rightarrow> (san_error, ip list) result" where
  "servingSANIPs s csv =
     (if sv_serviceErr s then Inl ErrBadSANConfig
      else if trimSpace csv = [] then Inr []
      else let parts = split (CHR '','') csv in
           if length parts > maxNodeIPs then Inl (TooManyIPs (length parts))
           else sanIPs s (apiServerIPs s) parts)"

definition maxCSRBytes :: nat where "maxCSRBytes = 64 * 2 ^ 10"

definition readCSR :: "http_request \<Rightarrow> (read_error, string) result" where
  "readCSR r =
     (case readLimited (maxCSRBytes + 1) r of
        Inl e \<Rightarrow> Inl (ReadingCSR e)
      | Inr buf \<Rightarrow>
          if length buf > maxCSRBytes then Inl CSRTooLarge
          else if length buf = 0 then Inl EmptyCSR
          else Inr buf)"

definition pathBase :: "string \<Rightarrow> string" where
  "pathBase p = (case cutLast (CHR ''/'') p of Some (_, b) \<Rightarrow> b | None \<Rightarrow> p)"

definition nodeOr :: "string \<Rightarrow> string \<Rightarrow> string" where
  "nodeOr s alt = (if s = [] then alt else s)"

section \<open>Certificates\<close>

definition certKind :: "http_request \<Rightarrow> string" where
  "certKind r = trimSuffix (pathBase (rq_Path r)) ''.crt''"

definition loopbacks :: "ip list" where
  "loopbacks = List.map_filter parseIP [''127.0.0.1'', ''::1'']"

text \<open>The identities the endpoints stand for.\<close>

definition servingRequest :: "string \<Rightarrow> ip list \<Rightarrow> Request" where
  "servingRequest node nodeIPs =
     \<lparr>rq_CommonName = node, rq_Organization = [], rq_DNSNames = [node, ''localhost''],
      rq_IPAddresses = loopbacks @ nodeIPs, rq_ClientAuth = False\<rparr>"

definition kubeletRequest :: "string \<Rightarrow> Request" where
  "kubeletRequest node =
     \<lparr>rq_CommonName = ''system:node:'' @ node, rq_Organization = [''system:nodes''], rq_DNSNames = [],
      rq_IPAddresses = [], rq_ClientAuth = True\<rparr>"

definition clusterRequest :: "string \<Rightarrow> Request" where
  "clusterRequest cn =
     \<lparr>rq_CommonName = cn, rq_Organization = [], rq_DNSNames = [], rq_IPAddresses = [], rq_ClientAuth = True\<rparr>"

text \<open>
  The node-scoped case of handleCert: every check on the headers, cheapest first, then the
  password store. \<open>Inl\<close> is the refusal.
\<close>

definition nodeSANs :: "server \<Rightarrow> string \<Rightarrow> http_request \<Rightarrow> (reply, ip list) result" where
  "nodeSANs s kind r =
     (if kind = ''serving-kubelet'' then
        (case servingSANIPs s (header_Get r hdrNodeIP) of
           Inl ErrBadSANConfig \<Rightarrow> Inl (http_Error (Say ''server misconfigured'') StatusInternalServerError)
         | Inl e \<Rightarrow> Inl (writeStatus StatusBadRequest (FailSAN e))
         | Inr ips \<Rightarrow> Inr ips)
      else Inr [])"

definition nodeChecks :: "'w deps \<Rightarrow> server \<Rightarrow> string \<Rightarrow> http_request \<Rightarrow> (reply, ip list) result" where
  "nodeChecks d s kind r =
     (let node = header_Get r hdrNodeName; pw = header_Get r hdrNodePassword in
      if node = [] then Inl (writeStatus StatusBadRequest (Say ''node name not set''))
      else case validateNodeName d node of
        Some e \<Rightarrow> Inl (writeStatus StatusBadRequest (FailName e))
      | None \<Rightarrow>
     (case nodeSANs s kind r of
        Inl rep \<Rightarrow> Inl rep
      | Inr ips \<Rightarrow>
          if pw = [] then Inl (writeStatus StatusBadRequest (Say ''node password not set''))
          else case ValidatePassword pw of
                 Some e \<Rightarrow> Inl (writeStatus StatusBadRequest (FailPassword e))
               | None \<Rightarrow> Inr ips))"

definition nodePassword :: "'w deps \<Rightarrow> http_request \<Rightarrow> 'w \<Rightarrow> reply option \<times> 'w" where
  "nodePassword d r w =
     (case d_pw d of
        None \<Rightarrow> (Some (http_Error (Say ''node password store not configured'') StatusInternalServerError), w)
      | Some checkAndSet \<Rightarrow>
     (case checkAndSet (header_Get r hdrNodeName) (header_Get r hdrNodePassword) w of
        (Inl ErrNodeExistsWithoutPassword, w1) \<Rightarrow>
          (Some (http_Error (Say ''node already exists with no recorded node password'') StatusConflict), w1)
      | (Inl _, w1) \<Rightarrow> (Some (http_Error (Say ''node password store error'') StatusInternalServerError), w1)
      | (Inr False, w1) \<Rightarrow> (Some (http_Error (Say ''node password mismatch'') StatusConflict), w1)
      | (Inr True, w1) \<Rightarrow> (None, w1)))"

text \<open>The switch over the endpoint's kind.\<close>

definition certRequest :: "'w deps \<Rightarrow> server \<Rightarrow> http_request \<Rightarrow> 'w \<Rightarrow> (reply, Request) result \<times> 'w" where
  "certRequest d s r w =
     (let kind = certKind r; node = header_Get r hdrNodeName in
      if kind = ''serving-kubelet'' \<or> kind = ''client-kubelet'' then
        (case nodeChecks d s kind r of
           Inl rep \<Rightarrow> (Inl rep, w)
         | Inr ips \<Rightarrow>
             (case nodePassword d r w of
                (Some rep, w1) \<Rightarrow> (Inl rep, w1)
              | (None, w1) \<Rightarrow>
                  (Inr (if kind = ''serving-kubelet'' then servingRequest node ips else kubeletRequest node), w1)))
      else if kind = ''client-kube-proxy'' then (Inr (clusterRequest ''system:kube-proxy''), w)
      else if kind = ''client-rke2-controller'' then (Inr (clusterRequest ''system:rke2-controller''), w)
      else (Inl (fst (handleUnknown d s r w)), w))"

definition certSigner :: "server \<Rightarrow> string \<Rightarrow> ca" where
  "certSigner s kind =
     (case sv_servingCA s of
        Some c \<Rightarrow> (if kind = ''serving-kubelet'' then c else sv_ca s)
      | None \<Rightarrow> sv_ca s)"

definition recordIssued :: "'w deps \<Rightarrow> string \<Rightarrow> string \<Rightarrow> time \<Rightarrow> 'w \<Rightarrow> 'w" where
  "recordIssued d node kind na w = (case d_rec d of None \<Rightarrow> w | Some rec \<Rightarrow> rec node kind na w)"

definition signCert :: "'w deps \<Rightarrow> server \<Rightarrow> http_request \<Rightarrow> string \<Rightarrow> Request \<Rightarrow> 'w \<Rightarrow> reply \<times> 'w" where
  "signCert d s r csr req w =
     (case Sign (d_pf d) (d_host d) (certSigner s (certKind r)) csr req w of
        (Inl (ErrBadCSR p), w1) \<Rightarrow> (http_Error (FailCSR (ErrBadCSR p)) StatusBadRequest, w1)
      | (Inl _, w1) \<Rightarrow> (http_Error (Say ''signing failed'') StatusInternalServerError, w1)
      | (Inr (out, na), w1) \<Rightarrow>
          (http_OK ''text/plain'' (Text out), recordIssued d (header_Get r hdrNodeName) (certKind r) na w1))"

text \<open>The read deadline is computed from the clock; setting it has no effect on the model.\<close>

definition handleCert :: "'w handler" where
  "handleCert d s r w =
     (if rq_Method r \<noteq> ''POST'' then (http_Error (Say ''method not allowed'') StatusMethodNotAllowed, s, w)
      else case timeNow (d_pf d) w of (_, w0) \<Rightarrow>
     (case readCSR r of
        Inl e \<Rightarrow> (http_Error (FailRead e) StatusBadRequest, s, w0)
      | Inr csr \<Rightarrow>
     (case CheckCSR (d_host d) csr of
        Some e \<Rightarrow> (http_Error (FailCSR e) StatusBadRequest, s, w0)
      | None \<Rightarrow>
     (case certRequest d s r w0 of
        (Inl rep, w1) \<Rightarrow> (rep, s, w1)
      | (Inr req, w1) \<Rightarrow>
          (case signCert d s r csr req w1 of (rep, w2) \<Rightarrow> (rep, s, w2))))))"

section \<open>Routes\<close>

definition Routes :: "bool \<Rightarrow> (string \<times> 'w handler) list" where
  "Routes tunnel =
     [(''/cacerts'', handleCACerts),
      (''/v1-rke2/config'', auth handleConfig),
      (''/v1-rke2/readyz'', auth handleReadyz),
      (''/v1-rke2/apiservers'', auth handleAPIServers),
      (''/v1-rke2/client-ca.crt'', auth handleCA),
      (''/v1-rke2/server-ca.crt'', auth handleCA),
      (''/v1-rke2/serving-kubelet.crt'', auth handleCert),
      (''/v1-rke2/client-kubelet.crt'', auth handleCert),
      (''/v1-rke2/client-kube-proxy.crt'', auth handleCert),
      (''/v1-rke2/client-rke2-controller.crt'', auth handleCert)]
     @ (if tunnel then [(''/v1-rke2/connect'', \<lambda>d s r w. (Tunnelled, s, w))] else [])"

text \<open>ServeMux: a path that is not clean is redirected, an exact pattern wins over the subtree /.\<close>

definition serve :: "bool \<Rightarrow> 'w handler" where
  "serve tunnel d s r w =
     (if rq_Method r \<noteq> ''CONNECT'' \<and> cleanPath (rq_Path r) \<noteq> rq_Path r then (Redirect (cleanPath (rq_Path r)), s, w)
      else if \<not> hasPrefix (rq_Path r) ''/'' then (http_Error (Say ''404 page not found'') StatusNotFound, s, w)
      else case map_of (Routes tunnel) (rq_Path r) of
             Some h \<Rightarrow> h d s r w
           | None \<Rightarrow> auth handleUnknown d s r w)"

section \<open>Lemmas\<close>

lemma reply_simps [simp]:
  "http_Error f c = Reply resp \<longleftrightarrow> resp = \<lparr>resp_code = c, resp_type = ''text/plain; charset=utf-8'', resp_body = ErrorText f\<rparr>"
  "writeStatus c f = Reply resp \<longleftrightarrow> resp = \<lparr>resp_code = c, resp_type = ''application/json'', resp_body = StatusJson c f\<rparr>"
  "http_OK t b = Reply resp \<longleftrightarrow> resp = \<lparr>resp_code = 200, resp_type = t, resp_body = b\<rparr>"
  "http_Error f c \<noteq> Redirect p" "http_Error f c \<noteq> Tunnelled" "http_Error f c \<noteq> Panicked"
  by (auto simp: http_Error_def writeStatus_def http_OK_def StatusOK_def)

lemma equal_iff: "equal a b \<longleftrightarrow> a = b"
proof
  assume "equal a b"
  then have "length a = length b" "\<And>i. i < length a \<Longrightarrow> a ! i = b ! i" by (simp_all add: equal_def list_all_iff)
  then show "a = b" by (rule nth_equalityI)
qed (simp add: equal_def list_all_iff)

text \<open>What a node may claim as its own address.\<close>

definition node_address :: "server \<Rightarrow> ip \<Rightarrow> bool" where
  "node_address s ip \<longleftrightarrow>
     \<not> isLoopback ip \<and> \<not> isUnspecified ip \<and> \<not> isLinkLocalUnicast ip \<and> \<not> isMulticast ip \<and>
     \<not> isInterfaceLocalMulticast ip \<and> \<not> isLinkLocalMulticast ip \<and>
     (\<forall>n \<in> set (sv_serviceNets s). \<not> net_Contains n ip) \<and>
     (\<forall>a \<in> set (apiServerIPs s). \<not> ip_Equal a ip)"

lemma sanIP_Inr: "sanIP s (apiServerIPs s) p = Inr ip \<longleftrightarrow> parseIP (trimSpace p) = Some ip \<and> node_address s ip"
proof (cases "parseIP (trimSpace p)")
  case (Some a)
  have "find (\<lambda>n. net_Contains n a) (sv_serviceNets s) = None \<longleftrightarrow> (\<forall>n \<in> set (sv_serviceNets s). \<not> net_Contains n a)"
    by (auto simp: find_None_iff)
  note nets = this
  let ?special = "isLoopback a \<or> isUnspecified a \<or> isLinkLocalUnicast a \<or>
    isMulticast a \<or> isInterfaceLocalMulticast a \<or> isLinkLocalMulticast a"
  show ?thesis
  proof (cases ?special)
    case True
    then have "sanIP s (apiServerIPs s) p = Inl (NotRoutable a)" "\<not> node_address s a"
      using Some by (simp_all only: sanIP_def Let_def option.case if_True node_address_def) blast+
    then show ?thesis using Some by auto
  next
    case False
    then have "sanIP s (apiServerIPs s) p =
        (case find (\<lambda>n. net_Contains n a) (sv_serviceNets s) of
           Some n \<Rightarrow> Inl (InServiceCIDR a n)
         | None \<Rightarrow> if list_ex (\<lambda>x. ip_Equal x a) (apiServerIPs s) then Inl (IsControlPlane a) else Inr a)"
      using Some by (simp only: sanIP_def Let_def option.case if_False)
    moreover have "node_address s a \<longleftrightarrow> (\<forall>n \<in> set (sv_serviceNets s). \<not> net_Contains n a) \<and>
        \<not> list_ex (\<lambda>x. ip_Equal x a) (apiServerIPs s)"
      using False by (auto simp: node_address_def list_ex_iff)
    ultimately show ?thesis using Some nets by (auto split: option.splits)
  qed
qed (simp add: sanIP_def)

lemma sanIPs_Inr:
  "sanIPs s (apiServerIPs s) ps = Inr ips \<longleftrightarrow>
     list_all2 (\<lambda>p ip. parseIP (trimSpace p) = Some ip \<and> node_address s ip) ps ips"
proof (induction ps arbitrary: ips)
  case (Cons p ps)
  have "sanIPs s (apiServerIPs s) (p # ps) = Inr ips \<longleftrightarrow>
      (\<exists>ip out. ips = ip # out \<and> sanIP s (apiServerIPs s) p = Inr ip \<and> sanIPs s (apiServerIPs s) ps = Inr out)"
    by (auto split: sum.splits)
  then show ?case
    by (auto simp: sanIP_Inr Cons.IH list_all2_Cons1)
qed auto

lemma sanIPs_node_address: "sanIPs s (apiServerIPs s) ps = Inr ips \<Longrightarrow> ip \<in> set ips \<Longrightarrow> node_address s ip \<and> length ip = 16"
  unfolding sanIPs_Inr by (induction rule: list_all2_induct) (auto dest: parseIP_length)

lemma servingSANIPs_node_address:
  "servingSANIPs s csv = Inr ips \<Longrightarrow> ip \<in> set ips \<Longrightarrow> node_address s ip \<and> length ip = 16"
  by (auto simp: servingSANIPs_def Let_def split: if_splits dest: sanIPs_node_address)

subsection \<open>The certificate handler\<close>

lemma nodeSANs_Inr:
  "nodeSANs s kind r = Inr ips \<Longrightarrow>
     if kind = ''serving-kubelet'' then servingSANIPs s (header_Get r hdrNodeIP) = Inr ips else ips = []"
  by (auto simp: nodeSANs_def split: if_splits sum.splits san_error.splits)

lemma nodeChecks_Inr:
  assumes "nodeChecks d s kind r = Inr ips"
  shows "header_Get r hdrNodeName \<noteq> [] \<and> validateNodeName d (header_Get r hdrNodeName) = None \<and>
    nodeSANs s kind r = Inr ips \<and> ValidatePassword (header_Get r hdrNodePassword) = None"
  using assms by (auto simp: nodeChecks_def Let_def split: if_splits sum.splits option.splits)

lemma nodePassword_None:
  "nodePassword d r w = (None, w') \<Longrightarrow>
     \<exists>cas. d_pw d = Some cas \<and> cas (header_Get r hdrNodeName) (header_Get r hdrNodePassword) w = (Inr True, w')"
  by (auto simp: nodePassword_def split: option.splits prod.splits sum.splits store_error.splits bool.splits)

text \<open>The identity a request stands for, read off the request alone.\<close>

definition identity :: "'w deps \<Rightarrow> server \<Rightarrow> http_request \<Rightarrow> Request \<Rightarrow> bool" where
  "identity d s r req \<longleftrightarrow>
     (let node = header_Get r hdrNodeName in
        certKind r = ''serving-kubelet'' \<and> node \<noteq> [] \<and> validateNodeName d node = None \<and>
          (\<exists>ips. servingSANIPs s (header_Get r hdrNodeIP) = Inr ips \<and> req = servingRequest node ips)
      \<or> certKind r = ''client-kubelet'' \<and> node \<noteq> [] \<and> validateNodeName d node = None \<and> req = kubeletRequest node
      \<or> certKind r = ''client-kube-proxy'' \<and> req = clusterRequest ''system:kube-proxy''
      \<or> certKind r = ''client-rke2-controller'' \<and> req = clusterRequest ''system:rke2-controller'')"

definition node_scoped :: "http_request \<Rightarrow> bool" where
  "node_scoped r \<longleftrightarrow> certKind r = ''serving-kubelet'' \<or> certKind r = ''client-kubelet''"

lemma certRequest_Inr:
  assumes "certRequest d s r w = (Inr req, w')"
  shows "identity d s r req \<and>
    (if node_scoped r
     then header_Get r hdrNodeName \<noteq> [] \<and> ValidatePassword (header_Get r hdrNodePassword) = None \<and>
       (\<exists>cas. d_pw d = Some cas \<and> cas (header_Get r hdrNodeName) (header_Get r hdrNodePassword) w = (Inr True, w'))
     else w' = w)"
proof (cases "node_scoped r")
  case True
  then obtain ips where c: "nodeChecks d s (certKind r) r = Inr ips" and p: "nodePassword d r w = (None, w')"
    and req: "req = (if certKind r = ''serving-kubelet'' then servingRequest (header_Get r hdrNodeName) ips
      else kubeletRequest (header_Get r hdrNodeName))"
    using assms by (auto simp: certRequest_def node_scoped_def Let_def split: sum.splits prod.splits option.splits)
  show ?thesis
    using nodeChecks_Inr [OF c] nodePassword_None [OF p] req True nodeSANs_Inr [of s "certKind r" r ips]
    by (auto simp: identity_def node_scoped_def Let_def)
next
  case False
  then show ?thesis
    using assms by (auto simp: certRequest_def identity_def node_scoped_def Let_def handleUnknown_def split: if_splits)
qed

text \<open>A refusal with a client error comes before the store is touched.\<close>

lemma nodeChecks_Inl: "nodeChecks d s kind r = Inl rep \<Longrightarrow> \<exists>resp. rep = Reply resp \<and> resp_code resp \<in> {400, 500}"
  by (auto simp: nodeChecks_def nodeSANs_def Let_def http_Error_def writeStatus_def status_defs
      split: if_splits sum.splits option.splits san_error.splits)

lemma nodePassword_Some: "nodePassword d r w = (Some rep, w') \<Longrightarrow> \<exists>resp. rep = Reply resp \<and> resp_code resp \<in> {409, 500}"
  by (auto simp: nodePassword_def http_Error_def status_defs
      split: option.splits prod.splits sum.splits store_error.splits bool.splits)

lemma certRequest_Inl:
  assumes "certRequest d s r w = (Inl rep, w')"
  shows "\<exists>resp. rep = Reply resp \<and> resp_code resp \<in> {400, 409, 500, 501} \<and> (resp_code resp \<in> {400, 501} \<longrightarrow> w' = w)"
  using assms
  by (auto simp: certRequest_def Let_def handleUnknown_def http_Error_def status_defs
      split: if_splits sum.splits prod.splits option.splits dest!: nodeChecks_Inl nodePassword_Some)

lemma signCert_code:
  assumes "signCert d s r csr req w = (rep, w')" "CheckCSR (d_host d) csr = None"
  shows "\<exists>resp. rep = Reply resp \<and> resp_code resp \<in> {200, 500}"
  using assms Sign_BadCSR [of "d_pf d" "d_host d" "certSigner s (certKind r)" csr req w]
  by (auto simp: signCert_def http_Error_def http_OK_def status_defs split: prod.splits sum.splits pki_error.splits)

lemma handleCert_state: "handleCert d s r w = (rep, s', w') \<Longrightarrow> s' = s"
  by (auto simp: handleCert_def split: if_splits prod.splits sum.splits option.splits)

lemma handleCert_issued:
  assumes "handleCert d s r w = (Reply resp, s', w')" "resp_code resp = 200"
  obtains csr req out na w0 w1 w2 where
    "rq_Method r = ''POST''" "readCSR r = Inr csr" "certRequest d s r w0 = (Inr req, w1)"
    "Sign (d_pf d) (d_host d) (certSigner s (certKind r)) csr req w1 = (Inr (out, na), w2)"
    "w' = recordIssued d (header_Get r hdrNodeName) (certKind r) na w2" "resp_body resp = Text out"
    "w0 = snd (timeNow (d_pf d) w)"
proof -
  obtain t w0 where t: "timeNow (d_pf d) w = (t, w0)" by (cases "timeNow (d_pf d) w")
  have m: "rq_Method r = ''POST''" using assms by (auto simp: handleCert_def status_defs split: if_splits)
  obtain csr where c: "readCSR r = Inr csr" "CheckCSR (d_host d) csr = None"
    using assms m t by (auto simp: handleCert_def status_defs split: sum.splits option.splits)
  obtain q w1 where q: "certRequest d s r w0 = (q, w1)" by (cases "certRequest d s r w0")
  obtain req where req: "q = Inr req"
    using assms m t c q certRequest_Inl [of d s r w0] by (cases q) (auto simp: handleCert_def)
  have s: "signCert d s r csr req w1 = (Reply resp, w')"
    using assms m t c q req by (auto simp: handleCert_def split: prod.splits)
  obtain out na w2 where "Sign (d_pf d) (d_host d) (certSigner s (certKind r)) csr req w1 = (Inr (out, na), w2)"
    "w' = recordIssued d (header_Get r hdrNodeName) (certKind r) na w2" "resp_body resp = Text out"
    using s assms(2) by (auto simp: signCert_def status_defs split: prod.splits sum.splits pki_error.splits)
  with m c(1) q [unfolded req] show ?thesis using t by (intro that) auto
qed

subsection \<open>The agent configuration\<close>

lemma map_of_updates: "map_of (foldl (\<lambda>m (k, v). AList.update k v m) m kvs) = map_of (rev kvs @ m)"
proof (induction kvs arbitrary: m)
  case (Cons p kvs)
  obtain k v where p: "p = (k, v)" by (cases p)
  have "map_of (rev kvs @ AList.update k v m) = map_of (rev kvs @ [(k, v)] @ m)"
    by (simp add: update_conv' fun_eq_iff map_add_def)
  then show ?case using Cons.IH by (simp add: p)
qed simp

lemma map_of_scrub:
  "map_of (scrub cfg k) = (if map_of cfg k = None then map_of cfg else (map_of cfg)(k \<mapsto> JStr []))"
  by (simp add: scrub_def update_conv')

lemma distinct_overrides: "distinct (map fst (overrides c))"
  by (simp add: overrides_def Let_def)

lemma not_override: "''IPSECPSK'' \<notin> fst ` set (overrides c)"
  by (simp add: overrides_def Let_def)

lemma map_of_rev_overrides [simp]: "map_of (rev (overrides c)) = map_of (overrides c)"
  using distinct_overrides [of c] by (simp add: map_of_inject_set rev_map [symmetric])

subsection \<open>The limiter over a sequence of events\<close>

fun limiter_run :: "logLimiter \<Rightarrow> time list \<Rightarrow> (time \<times> nat) list \<times> logLimiter" where
  "limiter_run l [] = ([], l)"
| "limiter_run l (t # ts) =
     (case allow l t of
        ((n, logged), l') \<Rightarrow>
          (case limiter_run l' ts of (out, l'') \<Rightarrow> (if logged then (t, n) # out else out, l'')))"

lemma limiter_every: "limiter_run l ts = (out, l') \<Longrightarrow> ll_every l' = ll_every l"
  by (induction ts arbitrary: l out) (auto simp: allow_def split: if_splits prod.splits)

lemma limiter_count:
  "limiter_run l ts = (out, l') \<Longrightarrow>
     length out + sum_list (map snd out) + ll_suppressed l' = ll_suppressed l + length ts"
  by (induction ts arbitrary: l out) (auto simp: allow_def split: if_splits prod.splits, fastforce+)

lemma limiter_spaced:
  "limiter_run l ts = (out, l') \<Longrightarrow>
     successively (\<lambda>(t, _) (t', _). t = 0 \<or> ll_every l \<le> time_Sub t' t) out \<and>
     (\<forall>t n out'. out = (t, n) # out' \<longrightarrow> ll_last l = 0 \<or> ll_every l \<le> time_Sub t (ll_last l))"
proof (induction ts arbitrary: l out)
  case (Cons t ts)
  obtain n lg l1 where a: "allow l t = ((n, lg), l1)" by (metis prod.collapse)
  obtain out1 l2 where r: "limiter_run l1 ts = (out1, l2)" by (cases "limiter_run l1 ts")
  have o: "out = (if lg then (t, n) # out1 else out1)" "l2 = l'" using Cons.prems a r by simp_all
  show ?case
    using Cons.IH [OF r [unfolded o(2)]] a o(1)
    by (cases out1) (auto simp: allow_def split: if_splits)
qed simp

lemma identity_organization: "identity d s r req \<Longrightarrow> length (rq_Organization req) \<le> 1"
  by (auto simp: identity_def Let_def servingRequest_def kubeletRequest_def clusterRequest_def)

lemma issued_certificate:
  assumes "x509_lib (d_host d)" and "handleCert d s r w = (Reply resp, s', w')" and "resp_code resp = 200"
  shows "\<exists>out der cert req. resp_body resp = Text out \<and> pemDecode (d_host d) out = Some der \<and>
    parseCertificate (d_host d) der = Inr cert \<and> identity d s r req \<and>
    Subject cert = \<lparr>CommonName = rq_CommonName req, Organization = rq_Organization req\<rparr> \<and>
    DNSNames cert = rq_DNSNames req \<and> IPAddresses cert = map sanBytes (rq_IPAddresses req) \<and>
    ExtKeyUsage cert = [if rq_ClientAuth req then ExtKeyUsageClientAuth else ExtKeyUsageServerAuth] \<and> \<not> IsCA cert \<and>
    (node_scoped r \<longrightarrow> (\<exists>cas w1. d_pw d = Some cas \<and>
       cas (header_Get r hdrNodeName) (header_Get r hdrNodePassword) (snd (timeNow (d_pf d) w)) = (Inr True, w1)))"
proof -
  obtain csr req out na w0 w1 w2 where q: "certRequest d s r w0 = (Inr req, w1)"
    and sg: "Sign (d_pf d) (d_host d) (certSigner s (certKind r)) csr req w1 = (Inr (out, na), w2)"
    and b: "resp_body resp = Text out" and w0: "w0 = snd (timeNow (d_pf d) w)"
    by (rule handleCert_issued [OF assms(2,3)])
  obtain serial now der v1 v2 c where p: "parseCSR (d_host d) csr = Inr c"
    and cr: "createCertificate (d_host d) (leafTemplate serial req now na (csr_PublicKey c))
      (ca_Cert (certSigner s (certKind r))) (csr_PublicKey c) (ca_Key (certSigner s (certKind r))) v2 = (Inr der, w2)"
    and pem: "out = pemEncode (d_host d) ''CERTIFICATE'' der @ ca_PEM (certSigner s (certKind r))"
    by (rule Sign_Inr [OF sg])
  have "pemDecode (d_host d) out = Some der"
    "parseCertificate (d_host d) der = Inr (certified (leafTemplate serial req now na (csr_PublicKey c)) (csr_PublicKey c))"
    using x509_lib.pem_roundtrip [OF assms(1)] x509_lib.create_parse [OF assms(1) cr] pem
      identity_organization [OF conjunct1 [OF certRequest_Inr [OF q]]] by simp_all
  then show ?thesis
    using certRequest_Inr [OF q] b w0 by (intro exI conjI) (auto simp: leafTemplate_def split: if_splits)
qed

section \<open>What the supervisor guarantees\<close>

text \<open>
  (C3) Issuance. A certificate the handler hands out names exactly the identity its endpoint
  stands for, taken from the endpoint and the checked headers and never from the CSR: the
  kubelet's serving name with admissible addresses, system:node:<name> in system:nodes, or one of
  the two cluster-wide identities. A node-scoped one is issued only for a valid, unreserved name
  whose password the store has just accepted. It is never a CA.
\<close>

theorem issuance_sound:
  assumes "x509_lib (d_host d)" and "handleCert d s r w = (Reply resp, s', w')" and "resp_code resp = 200"
  shows "\<exists>out der cert req. resp_body resp = Text out \<and> pemDecode (d_host d) out = Some der \<and>
    parseCertificate (d_host d) der = Inr cert \<and> identity d s r req \<and>
    Subject cert = \<lparr>CommonName = rq_CommonName req, Organization = rq_Organization req\<rparr> \<and>
    DNSNames cert = rq_DNSNames req \<and> IPAddresses cert = map sanBytes (rq_IPAddresses req) \<and>
    ExtKeyUsage cert = [if rq_ClientAuth req then ExtKeyUsageClientAuth else ExtKeyUsageServerAuth] \<and> \<not> IsCA cert \<and>
    (node_scoped r \<longrightarrow> (\<exists>cas w1. d_pw d = Some cas \<and>
       cas (header_Get r hdrNodeName) (header_Get r hdrNodePassword) (snd (timeNow (d_pf d) w)) = (Inr True, w1)))"
  by (rule issued_certificate [OF assms])

text \<open>
  (C8) A refused request leaves no trace in the store. When the handler answers 400, 405 or 501,
  the password store was not called and nothing was signed or recorded: the only effect is the
  reading of the clock. In particular Sign never finds fault with a CSR that CheckCSR let pass,
  after the password was already enrolled.
\<close>

theorem refused_without_effect:
  assumes "handleCert d s r w = (Reply resp, s', w')" and "resp_code resp \<in> {400, 405, 501}"
  shows "s' = s \<and> (w' = w \<or> w' = snd (timeNow (d_pf d) w))"
proof -
  obtain t w0 where t: "timeNow (d_pf d) w = (t, w0)" by (cases "timeNow (d_pf d) w")
  have "w' = w \<or> w' = w0"
  proof (cases "\<exists>csr. rq_Method r = ''POST'' \<and> readCSR r = Inr csr \<and> CheckCSR (d_host d) csr = None")
    case True
    then obtain csr where c: "rq_Method r = ''POST''" "readCSR r = Inr csr" "CheckCSR (d_host d) csr = None" by blast
    obtain q w1 where q: "certRequest d s r w0 = (q, w1)" by (cases "certRequest d s r w0")
    show ?thesis
      using assms t c q certRequest_Inl [of d s r w0]
      by (cases q) (auto simp: handleCert_def split: prod.splits dest!: signCert_code [OF _ c(3)])
  next
    case False
    then show ?thesis
      using assms t by (auto simp: handleCert_def split: if_splits sum.splits option.splits)
  qed
  then show ?thesis using t handleCert_state [OF assms(1)] by simp
qed

text \<open>
  (C13) Serving SANs. An Rke2-Node-Ip header is accepted exactly when the service CIDR is
  configured correctly and it is blank, or lists at most eight entries that all parse and are
  routable node addresses: not loopback, unspecified, link-local or multicast, outside every
  service network, and none of the advertised control-plane endpoints. Then the SANs are exactly
  the listed addresses in order; one bad entry refuses the whole header.
\<close>

theorem servingSANIPs_exact:
  "servingSANIPs s csv = Inr ips \<longleftrightarrow>
     \<not> sv_serviceErr s \<and>
     (if trimSpace csv = [] then ips = []
      else length (split (CHR '','') csv) \<le> 8 \<and>
        list_all2 (\<lambda>p ip. parseIP (trimSpace p) = Some ip \<and> node_address s ip) (split (CHR '','') csv) ips)"
  by (auto simp: servingSANIPs_def maxNodeIPs_def sanIPs_Inr Let_def)

text \<open>
  (C11) Authentication. A request without the right Basic credentials reaches nothing but the CA
  certificate and the tunnel (which authenticates by client certificate): every other path is
  answered 401 or 404, or redirected to its clean form, and of the server only the warning
  limiter changes.
\<close>

theorem unauthenticated_refused:
  assumes "\<not> authorized s r" and "rq_Path r \<noteq> ''/cacerts''" and "rq_Path r \<noteq> ''/v1-rke2/connect''"
    and "serve tunnel d s r w = (rep, s', w')"
  shows "(rep = http_Error (Say ''unauthorized'') 401 \<or> rep = http_Error (Say ''404 page not found'') 404 \<or>
      rep = Redirect (cleanPath (rq_Path r))) \<and>
    s' = s\<lparr>sv_authWarn := sv_authWarn s'\<rparr> \<and> (w' = w \<or> w' = snd (timeNow (d_pf d) w))"
proof -
  have a: "auth h d s r w = (rep, s', w') \<Longrightarrow> rep = http_Error (Say ''unauthorized'') 401 \<and>
      s' = s\<lparr>sv_authWarn := sv_authWarn s'\<rparr> \<and> w' = snd (timeNow (d_pf d) w)" for h :: "'a handler"
    using assms(1) by (auto simp: auth_def StatusUnauthorized_def split: prod.splits)
  have "map_of (Routes tunnel) (rq_Path r) = Some h \<Longrightarrow> \<exists>g. h = auth g" for h :: "'a handler"
    using assms(2,3) by (auto simp: Routes_def split: if_splits)
  then show ?thesis
    using assms(4) a by (auto simp: serve_def StatusNotFound_def split: if_splits option.splits)
qed

text \<open>
  The credentials. A request is authorized exactly when its Authorization header is, up to
  the case of the scheme, Basic with the base64 of node:<token>; what SetBasicAuth writes for
  that user and token is such a header.
\<close>

lemma authorized_exact:
  "(authorized s r \<longleftrightarrow> header_Get r ''Authorization'' \<noteq> [] \<and>
      parseBasicAuth (header_Get r ''Authorization'') = Some (''node'', cfg_Token (sv_cfg s))) \<and>
   parseBasicAuth (basicAuthHeader ''node'' (cfg_Token (sv_cfg s))) = Some (''node'', cfg_Token (sv_cfg s))"
  using parseBasicAuth_roundtrip [of "''node''" "cfg_Token (sv_cfg s)"]
  by (auto simp: authorized_def BasicAuth_def basicUser_def Let_def split: option.splits)

text \<open>
  CSR bodies. readCSR returns the body exactly when it is complete, non-empty and at most
  64 KiB; a longer one is refused after reading one byte more than that.
\<close>

lemma readCSR_exact:
  "(readCSR r = Inr buf \<longleftrightarrow> buf = rq_Body r \<and> rq_BodyErr r = None \<and> 0 < length buf \<and> length buf \<le> 65536) \<and>
   (readCSR r = Inl CSRTooLarge \<longleftrightarrow> 65536 < length (rq_Body r))"
  by (auto simp: readCSR_def readLimited_def maxCSRBytes_def split: option.splits)

text \<open>
  The advertised list is replaced by every non-empty list and never emptied.
\<close>

lemma SetAPIServers_exact:
  "sv_apiServers (SetAPIServers l s) = (if l = [] then sv_apiServers s else Some l) \<and>
   s = (SetAPIServers l s)\<lparr>sv_apiServers := sv_apiServers s\<rparr>"
  by (auto simp: SetAPIServers_def equal_iff split: option.splits)

text \<open>
  The agent configuration carries every override with the configured value, blanks the
  captured cluster's secret where the template has one, and keeps every other key of the template
  as it was.
\<close>

lemma agentConfig_values:
  assumes "agentConfig c = Some m"
  shows "(\<forall>(k, v) \<in> set (overrides c). map_of m k = Some v) \<and>
    map_of m ''IPSECPSK'' \<in> {None, Some (JStr [])} \<and>
    (\<exists>template. (cfg_AgentConfigRaw c = [] \<and> template = [] \<or> unmarshalMap (cfg_AgentConfigRaw c) = Some template) \<and>
       (\<forall>k. k \<notin> fst ` set (overrides c) \<and> k \<noteq> ''IPSECPSK'' \<longrightarrow> map_of m k = map_of template k))"
proof -
  obtain t where t: "cfg_AgentConfigRaw c = [] \<and> t = [] \<or> unmarshalMap (cfg_AgentConfigRaw c) = Some t"
    and m: "m = foldl scrub (foldl (\<lambda>m (k, v). AList.update k v m) t (overrides c)) secretKeysToScrub"
    using assms by (auto simp: agentConfig_def Let_def split: if_splits)
  let ?o = "rev (overrides c) @ t"
  have mo: "map_of m = (if map_of ?o ''IPSECPSK'' = None then map_of ?o else (map_of ?o)(''IPSECPSK'' \<mapsto> JStr []))"
    by (simp add: m secretKeysToScrub_def map_of_scrub map_of_updates)
  have keep: "map_of m k = map_of ?o k" if "k \<noteq> ''IPSECPSK''" for k using mo that by simp
  have "map_of m k = Some v" if "(k, v) \<in> set (overrides c)" for k v
  proof -
    have "k \<noteq> ''IPSECPSK''" using that not_override [of c] by force
    then show ?thesis
      using keep that distinct_overrides [of c] by (simp add: map_of_is_SomeI)
  qed
  moreover have "map_of m ''IPSECPSK'' \<in> {None, Some (JStr [])}" by (simp add: mo)
  moreover have "map_of m k = map_of t k" if "k \<notin> fst ` set (overrides c) \<and> k \<noteq> ''IPSECPSK''" for k
  proof -
    have "map_of (overrides c) k = None" using that by (simp add: map_of_eq_None_iff)
    then show ?thesis using keep [of k] that by (simp add: map_add_def)
  qed
  ultimately show ?thesis using t by blast
qed

text \<open>
  (C36) A template that is the JSON text null passes a validity check but makes the map nil: the
  first request for the configuration panics, and since the sync.Once has then fired, every later
  one is answered 200 with null.
\<close>

theorem null_template_breaks_config:
  assumes "cfg_AgentConfigRaw (sv_cfg s) = ''null''" and "\<not> sv_once s" and "sv_agent s = None"
  shows "jsonValid (cfg_AgentConfigRaw (sv_cfg s)) \<and>
    (\<exists>s'. handleConfig d s r w = (Panicked, s', w) \<and>
       handleConfig d s' r' w' = (http_OK ''application/json'' (Text (''null'' @ [CHR 0x0A])), s', w'))"
proof -
  have "jsonValid ''null''" by (simp add: jsonValid_def jsonParse_def tokens_null wantsValue_def)
  then show ?thesis
    using assms unmarshalMap_null
    by (simp add: handleConfig_def buildAgentConfig_def agentConfig_def jsonMap_def encodeLine_def Let_def)
qed

text \<open>
  The warning limiter loses nothing: over any sequence of events, those logged, those
  reported as suppressed with a logged one and those still held back add up to the events; and
  two consecutive logged events are at least the interval apart.
\<close>

lemma logLimiter_conserves:
  assumes "limiter_run l ts = (out, l')"
  shows "length out + sum_list (map snd out) + ll_suppressed l' = ll_suppressed l + length ts \<and>
    successively (\<lambda>(t, _) (t', _). t = 0 \<or> ll_every l \<le> time_Sub t' t) out"
  using limiter_count [OF assms] limiter_spaced [OF assms] by simp

section \<open>A concrete supervisor\<close>

definition mem_deps :: "mem deps" where
  "mem_deps =
     \<lparr>d_pf = mem_platform, d_host = mem_host, d_pw = Some (storeCheckAndSet mem_platform pad_key), d_rec = None,
      d_isDNS1123 = (\<lambda>s. if list_all (\<lambda>c. c \<in> set ''abcdefghijklmnopqrstuvwxyz0123456789-.'') s then [] else [''invalid''])\<rparr>"

text \<open>A captured configuration with a secret and a key the program does not know.\<close>

definition mem_template :: string where
  "mem_template = encodeLine (JObj [(''IPSECPSK'', JStr ''secret''), (''New'', JNum (F64 False (2 ^ 52) (- 52)))])"

lemma mem_template_parse: "jsonParse mem_template = Some (JObj [(''IPSECPSK'', JStr ''secret''), (''New'', JNum (F64 False (2 ^ 52) (- 52)))])"
proof -
  let ?v = "JObj [(''IPSECPSK'', JStr ''secret''), (''New'', JNum (F64 False (2 ^ 52) (- 52)))]"
  have "json_ok ?v" "canon ?v = ?v" "json_depth ?v \<le> maxNestingDepth"
    by (simp_all add: toValidUTF8_ASCII in_range_def f_ok_def f_canonical_def maxNestingDepth_def)
  then show ?thesis using jsonParse_encode [of ?v] by (simp add: mem_template_def)
qed

lemma mem_template_map:
  "unmarshalMap mem_template = Some [(''IPSECPSK'', JStr ''secret''), (''New'', JNum (F64 False (2 ^ 52) (- 52)))]"
  by (simp add: unmarshalMap_def mem_template_parse)

definition mem_ca :: ca where
  "mem_ca = \<lparr>ca_Cert = None, ca_Key = mem_signer, ca_PEM = ''CA'', ca_MaxTTL = day\<rparr>"

definition mem_config :: config where
  "mem_config = \<lparr>cfg_Token = ''token'', cfg_APIServers = [], cfg_ClusterDNS = ''10.96.0.10'', cfg_ClusterDomain = ''cluster.local'',
     cfg_PodCIDR = ''10.244.0.0/16'', cfg_ServiceCIDR = [], cfg_AgentConfigRaw = mem_template\<rparr>"

definition mem_request :: "string \<Rightarrow> string \<Rightarrow> http_request" where
  "mem_request path body =
     \<lparr>rq_Method = ''POST'', rq_Path = path,
      rq_Header = [(''Rke2-Node-Name'', ''worker-1''), (''Rke2-Node-Password'', ''0123456789'')],
      rq_Body = body, rq_BodyErr = None\<rparr>"

lemma mem_deps_sel [simp]:
  "d_pf mem_deps = mem_platform" "d_host mem_deps = mem_host" "d_rec mem_deps = None"
  "d_pw mem_deps = Some (storeCheckAndSet mem_platform pad_key)"
  by (simp_all add: mem_deps_def)

abbreviation mem_kubelet :: http_request where
  "mem_kubelet \<equiv> mem_request ''/v1-rke2/client-kubelet.crt'' (mem_csr ''admin'' [''system:masters''] (ECDSA P256 3 4))"

abbreviation mem_serving :: http_request where
  "mem_serving \<equiv> mem_request ''/v1-rke2/serving-kubelet.crt'' (mem_csr ''admin'' [''system:masters''] (ECDSA P256 3 4))"

abbreviation mem_proxy :: http_request where
  "mem_proxy \<equiv> mem_request ''/v1-rke2/client-kube-proxy.crt'' (mem_csr ''admin'' [''system:masters''] (ECDSA P256 3 4))"

lemma certKind_kubelet: "certKind mem_kubelet = ''client-kubelet''"
  by (simp add: certKind_def mem_request_def) code_simp

lemma certKind_serving: "certKind mem_serving = ''serving-kubelet''"
  by (simp add: certKind_def mem_request_def) code_simp

lemma certKind_proxy: "certKind mem_proxy = ''client-kube-proxy''"
  by (simp add: certKind_def mem_request_def) code_simp

lemma trimSpace_Nil [simp]: "trimSpace [] = []"
  by code_simp

lemma mem_header: "header_Get (mem_request path body) hdrNodeName = ''worker-1''"
  "header_Get (mem_request path body) hdrNodePassword = ''0123456789''" "header_Get (mem_request path body) hdrNodeIP = []"
  by (simp_all add: mem_request_def header_Get_def hdrNodeName_def hdrNodePassword_def hdrNodeIP_def)

lemma mem_checks:
  assumes "\<not> sv_serviceErr s"
  shows "nodeChecks mem_deps s kind (mem_request path body) = Inr []"
  using assms by (simp add: nodeChecks_def nodeSANs_def servingSANIPs_def mem_header
      validateNodeName_def mem_deps_def hasPrefix_def ValidatePassword_def minPassword_def maxPassword_def)

lemma mem_kubelet_csr:
  "readCSR (mem_request path (mem_csr ''admin'' [''system:masters''] (ECDSA P256 3 4))) =
     Inr (mem_csr ''admin'' [''system:masters''] (ECDSA P256 3 4))"
  by (simp add: readCSR_def readLimited_def mem_request_def maxCSRBytes_def mem_csr_def list_field_def field_def
      key_fields_def curve_field_def dec_of_nat.simps)

lemma mem_CheckCSR: "CheckCSR mem_host (mem_csr ''admin'' [''system:masters''] (ECDSA P256 3 4)) = None"
  by (simp add: CheckCSR_def parseCSR_def checkPublicKey_def)

lemma mem_Sign:
  assumes "m_clock w = day + 1"
  shows "\<exists>out na w'. Sign mem_platform mem_host mem_ca (mem_csr ''admin'' [''system:masters''] (ECDSA P256 3 4)) req w =
    (Inr (out, na), w')"
  using assms by (simp add: mem_ca_def Sign_def parseCSR_def checkPublicKey_def notAfter_def leafTemplate_def
      mem_create_def truncSecond_def time_simps Let_def)

text \<open>A request for a node certificate against the empty cluster is granted.\<close>

lemma mem_issued:
  assumes "\<not> sv_serviceErr s" "sv_ca s = mem_ca" "sv_servingCA s = None"
    and "node_scoped (mem_request path (mem_csr ''admin'' [''system:masters''] (ECDSA P256 3 4)))"
  shows "\<exists>resp w'. handleCert mem_deps s (mem_request path (mem_csr ''admin'' [''system:masters''] (ECDSA P256 3 4)))
      (mem_empty\<lparr>m_clock := day\<rparr>) = (Reply resp, s, w') \<and> resp_code resp = 200"
proof -
  let ?r = "mem_request path (mem_csr ''admin'' [''system:masters''] (ECDSA P256 3 4))" and ?w = "mem_empty\<lparr>m_clock := day + 1\<rparr>"
  obtain w1 where e: "CheckAndSet 2 mem_platform pad_key ''worker-1'' ''0123456789'' ?w = Some (Inr True, w1)"
    and cl: "m_clock w1 = day + 1"
    using mem_enrols [of ?w "''worker-1''" 1 "''0123456789''"]
    by (fastforce simp: numeral_2_eq_2 mem_secrets_def mem_nodes_def mem_empty_def)
  obtain req where q: "certRequest mem_deps s ?r ?w = (Inr req, w1)"
    using e assms(4) mem_checks [OF assms(1)]
    by (simp add: certRequest_def node_scoped_def nodePassword_def storeCheckAndSet_def mem_header Let_def)
  obtain out na w2 where "Sign mem_platform mem_host mem_ca (mem_csr ''admin'' [''system:masters''] (ECDSA P256 3 4)) req w1 =
      (Inr (out, na), w2)" using mem_Sign [OF cl] by blast
  then have "\<exists>resp w2. signCert mem_deps s ?r (mem_csr ''admin'' [''system:masters''] (ECDSA P256 3 4)) req w1 = (Reply resp, w2) \<and>
      resp_code resp = 200"
    using assms(2,3) by (simp add: signCert_def certSigner_def)
  moreover have "rq_Method ?r = ''POST''" by (simp add: mem_request_def)
  ultimately show ?thesis
    using mem_kubelet_csr mem_CheckCSR q by (auto simp: handleCert_def)
qed

lemma mem_server_ok:
  "\<not> sv_serviceErr (newServer mem_config mem_ca)" "sv_ca (newServer mem_config mem_ca) = mem_ca"
  "sv_servingCA (newServer mem_config mem_ca) = None"
  by (simp_all add: newServer_def mem_config_def parseCIDRs_def Let_def)

section \<open>The guarantees at concrete requests\<close>

theorem issuance_sound_witness:
  "\<exists>resp w' out cert. handleCert mem_deps (newServer mem_config mem_ca) mem_kubelet (mem_empty\<lparr>m_clock := day\<rparr>) =
       (Reply resp, newServer mem_config mem_ca, w') \<and> resp_code resp = 200 \<and> resp_body resp = Text out \<and>
     mem_parse (fst (unfield out)) = Inr cert \<and>
     Subject cert = \<lparr>CommonName = ''system:node:worker-1'', Organization = [''system:nodes'']\<rparr>"
proof -
  obtain resp w' where h: "handleCert mem_deps (newServer mem_config mem_ca) mem_kubelet (mem_empty\<lparr>m_clock := day\<rparr>) =
      (Reply resp, newServer mem_config mem_ca, w')" "resp_code resp = 200"
    using mem_issued [OF mem_server_ok] certKind_kubelet unfolding node_scoped_def by blast
  have "x509_lib (d_host mem_deps)" using mem_x509.x509_lib_axioms by simp
  from issuance_sound [OF this h] obtain out cert req where
    o: "resp_body resp = Text out" "mem_parse (fst (unfield out)) = Inr cert"
      "identity mem_deps (newServer mem_config mem_ca) mem_kubelet req"
      "Subject cert = \<lparr>CommonName = rq_CommonName req, Organization = rq_Organization req\<rparr>"
    by auto
  then have "req = kubeletRequest ''worker-1''" by (simp add: identity_def certKind_kubelet mem_header Let_def)
  then show ?thesis using h o by (auto simp: kubeletRequest_def)
qed

theorem refused_without_effect_witness:
  "\<exists>resp. handleCert mem_deps (newServer mem_config mem_ca) (mem_request ''/v1-rke2/client-kubelet.crt'' ''1'') mem_empty =
     (Reply resp, newServer mem_config mem_ca, mem_empty\<lparr>m_clock := 1\<rparr>) \<and> resp_code resp = 400"
proof -
  let ?r = "mem_request ''/v1-rke2/client-kubelet.crt'' ''1''"
  obtain rep s' w' where h: "handleCert mem_deps (newServer mem_config mem_ca) ?r mem_empty = (rep, s', w')"
    by (cases "handleCert mem_deps (newServer mem_config mem_ca) ?r mem_empty")
  have "mem_parse_csr ''1'' = Inl ''malformed certificate request''" by code_simp
  then have "CheckCSR mem_host ''1'' \<noteq> None" by (simp add: CheckCSR_def parseCSR_def)
  then obtain resp where r: "rep = Reply resp" "resp_code resp = 400" "w' \<noteq> mem_empty"
    using h by (auto simp: handleCert_def readCSR_def readLimited_def mem_request_def maxCSRBytes_def http_Error_def
        StatusBadRequest_def mem_empty_def)
  then show ?thesis
    using refused_without_effect [OF h [unfolded r(1)]] h by (simp add: mem_empty_def)
qed

theorem unauthenticated_refused_witness:
  "\<exists>s'. serve True mem_deps (newServer mem_config mem_ca) mem_kubelet mem_empty =
     (http_Error (Say ''unauthorized'') 401, s', mem_empty\<lparr>m_clock := 1\<rparr>) \<and>
     s' = (newServer mem_config mem_ca)\<lparr>sv_authWarn := sv_authWarn s'\<rparr>"
proof -
  let ?s = "newServer mem_config mem_ca"
  have na: "\<not> authorized ?s mem_kubelet" by (simp add: authorized_def BasicAuth_def header_Get_def mem_request_def)
  have p: "rq_Path mem_kubelet = ''/v1-rke2/client-kubelet.crt''" by (simp add: mem_request_def)
  have c: "cleanPath ''/v1-rke2/client-kubelet.crt'' = ''/v1-rke2/client-kubelet.crt''" by code_simp
  obtain rep s' w' where h: "serve True mem_deps ?s mem_kubelet mem_empty = (rep, s', w')"
    by (cases "serve True mem_deps ?s mem_kubelet mem_empty")
  have "rep = http_Error (Say ''unauthorized'') 401" "w' \<noteq> mem_empty"
    using h na c p by (auto simp: serve_def Routes_def hasPrefix_def auth_def StatusUnauthorized_def mem_empty_def)
  then show ?thesis
    using unauthenticated_refused [OF na _ _ h] h p by (simp add: mem_empty_def)
qed

theorem null_template_breaks_config_witness:
  "let s = newServer (mem_config\<lparr>cfg_AgentConfigRaw := ''null''\<rparr>) mem_ca in
   \<exists>s'. handleConfig mem_deps s mem_kubelet mem_empty = (Panicked, s', mem_empty) \<and>
     handleConfig mem_deps s' mem_kubelet mem_empty = (http_OK ''application/json'' (Text (''null'' @ [CHR 0x0A])), s', mem_empty)"
proof -
  let ?s = "newServer (mem_config\<lparr>cfg_AgentConfigRaw := ''null''\<rparr>) mem_ca"
  have s: "cfg_AgentConfigRaw (sv_cfg ?s) = ''null''" "\<not> sv_once ?s" "sv_agent ?s = None"
    by (simp_all add: newServer_def mem_config_def Let_def)
  show ?thesis using null_template_breaks_config [OF s, of mem_deps mem_kubelet mem_empty mem_kubelet mem_empty] by (simp add: Let_def)
qed

end
