(* ===== verification/Discovery.thy ===== *)
theory Discovery
  imports Supervisor Certs "HOL-Library.List_Lexorder" "HOL-Library.Char_ord"
begin

text \<open>
  Model of src/internal/apiservers/discovery.go: the list of control-plane endpoints the shim
  advertises, refreshed from the Ready control-plane Nodes. sort.Strings orders by bytes, which is
  the lexicographic order on lists of \<open>char\<close>.
\<close>

section \<open>Listing\<close>

definition controlPlaneLabel :: string where "controlPlaneLabel = ''node-role.kubernetes.io/control-plane''"
definition refreshEvery :: duration where "refreshEvery = 2 * minute"

datatype discover_error = ErrListNodes api_error | ErrNoneReady

definition isReady :: "node \<Rightarrow> bool" where
  "isReady n = (case find (\<lambda>(t, _). t = ''Ready'') (node_conditions n) of
     Some (_, status) \<Rightarrow> status = ''True''
   | None \<Rightarrow> False)"

text \<open>The inner loop: the first usable internal address, skipping unusable ones.\<close>

fun firstAddress :: "strmap \<Rightarrow> ip option" where
  "firstAddress [] = None"
| "firstAddress ((type, address) # as) =
     (if type \<noteq> ''InternalIP'' then firstAddress as
      else case parseIP address of
             None \<Rightarrow> firstAddress as
           | Some ip \<Rightarrow> if isLoopback ip \<or> isUnspecified ip then firstAddress as else Some ip)"

definition endpoint :: "int \<Rightarrow> ip \<Rightarrow> string" where
  "endpoint port ip = joinHostPort (ip_String ip) (itoa port)"

definition nodeEndpoint :: "int \<Rightarrow> node \<Rightarrow> string option" where
  "nodeEndpoint port n = (if isReady n then map_option (endpoint port) (firstAddress (node_addresses n)) else None)"

definition List :: "'w platform \<Rightarrow> int \<Rightarrow> 'w \<Rightarrow> (discover_error, string list) result \<times> 'w" where
  "List pf port w =
     (case listNodes pf controlPlaneLabel w of
        (Inl e, w1) \<Rightarrow> (Inl (ErrListNodes e), w1)
      | (Inr nodes, w1) \<Rightarrow>
          (let out = sort (List.map_filter (nodeEndpoint port) nodes) in
           if out = [] then (Inl ErrNoneReady, w1) else (Inr out, w1)))"

text \<open>Run with the supervisor's SetAPIServers as its callback: apply once, then on every tick.\<close>

definition applyList :: "'w platform \<Rightarrow> int \<Rightarrow> server \<Rightarrow> 'w \<Rightarrow> server \<times> 'w" where
  "applyList pf port s w =
     (case List pf port w of
        (Inl _, w1) \<Rightarrow> (s, w1)
      | (Inr l, w1) \<Rightarrow> (SetAPIServers l s, w1))"

fun discoverLoop :: "'w platform \<Rightarrow> int \<Rightarrow> run_event list \<Rightarrow> server \<Rightarrow> 'w \<Rightarrow> server \<times> 'w" where
  "discoverLoop pf port [] s w = (s, w)"
| "discoverLoop pf port (Stop # _) s w = (s, w)"
| "discoverLoop pf port (Tick # es) s w = (case applyList pf port s w of (s', w') \<Rightarrow> discoverLoop pf port es s' w')"

definition discoverRun :: "'w platform \<Rightarrow> int \<Rightarrow> run_event list \<Rightarrow> server \<Rightarrow> 'w \<Rightarrow> server \<times> 'w" where
  "discoverRun pf port es s w = (case applyList pf port s w of (s', w') \<Rightarrow> discoverLoop pf port es s' w')"

section \<open>Lemmas\<close>

lemma firstAddress_Some:
  "firstAddress as = Some ip \<Longrightarrow> length ip = 16 \<and> \<not> isLoopback ip \<and> \<not> isUnspecified ip \<and>
     (\<exists>a. (''InternalIP'', a) \<in> set as \<and> parseIP a = Some ip)"
  by (induction as rule: firstAddress.induct) (auto split: if_splits option.splits dest: parseIP_length)

lemma firstAddress_None:
  "firstAddress as = None \<longleftrightarrow>
     (\<forall>a ip. (''InternalIP'', a) \<in> set as \<longrightarrow> parseIP a = Some ip \<longrightarrow> isLoopback ip \<or> isUnspecified ip)"
  by (induction as rule: firstAddress.induct) (auto split: if_splits option.splits)

lemma List_Inr:
  "List pf port w = (Inr out, w') \<longleftrightarrow>
     (\<exists>nodes. listNodes pf controlPlaneLabel w = (Inr nodes, w') \<and> out \<noteq> [] \<and>
        out = sort (List.map_filter (nodeEndpoint port) nodes))"
  by (auto simp: List_def Let_def split: prod.splits sum.splits if_splits)

lemma set_map_filter: "set (List.map_filter f xs) = {y. \<exists>x \<in> set xs. f x = Some y}"
  by (induction xs) (auto simp: map_filter_simps split: option.splits)

lemma map_filter_Nil: "List.map_filter f xs = [] \<longleftrightarrow> \<not> (\<exists>x \<in> set xs. f x \<noteq> None)"
  by (induction xs) (auto simp: map_filter_simps split: option.splits)

lemma sort_Nil: "sort xs = [] \<longleftrightarrow> xs = []"
  by (metis set_empty set_sort)

text \<open>What the apiServerIPs of the supervisor make of an advertised endpoint.\<close>

lemma apiServerIPs_endpoint:
  assumes "sv_apiServers s = Some l" "endpoint port ip \<in> set l" "length ip = 16"
  shows "ip \<in> set (apiServerIPs s)"
proof -
  have "splitHostPort (endpoint port ip) = Some (ip_String ip, itoa port)"
    using endpoint_roundtrip [OF assms(3)] by (simp add: endpoint_def)
  then show ?thesis
    using assms parseIP_String_16 [OF assms(3)]
    by (auto simp: apiServerIPs_def set_map_filter intro!: bexI [of _ "endpoint port ip"])
qed

lemma applyList_servers:
  "applyList pf port s w = (s', w') \<Longrightarrow>
     s = s'\<lparr>sv_apiServers := sv_apiServers s\<rparr> \<and>
     (sv_apiServers s' = sv_apiServers s \<or> (\<exists>l. List pf port w = (Inr l, w') \<and> sv_apiServers s' = Some l))"
  by (auto simp: applyList_def SetAPIServers_def equal_iff split: prod.splits sum.splits if_splits option.splits)

lemma List_not_empty: "List pf port w = (Inr l, w') \<Longrightarrow> l \<noteq> []"
  by (auto simp: List_Inr)

definition advertises :: "server \<Rightarrow> bool" where
  "advertises s \<longleftrightarrow> (\<exists>l. sv_apiServers s = Some l \<and> l \<noteq> [])"

lemma applyList_advertises: "applyList pf port s w = (s', w') \<Longrightarrow> advertises s \<Longrightarrow> advertises s'"
  using applyList_servers [of pf port s w s' w'] List_not_empty [of pf port w] by (auto simp: advertises_def)

lemma discoverLoop_advertises: "discoverLoop pf port es s w = (s', w') \<Longrightarrow> advertises s \<Longrightarrow> advertises s'"
proof (induction es arbitrary: s w)
  case (Cons e es)
  obtain s1 w1 where a: "applyList pf port s w = (s1, w1)" by (cases "applyList pf port s w")
  show ?case
    using Cons applyList_advertises [OF a] a by (cases e) auto
qed simp

section \<open>What discovery guarantees\<close>

text \<open>
  (C31) A listing is complete and exact: it is sorted, holds one endpoint for each control-plane
  Node that is Ready and has a usable internal address and none for the others, and is never
  empty; without any such Node it is an error.
\<close>

theorem List_exact:
  assumes "listNodes pf controlPlaneLabel w = (Inr nodes, w')"
  shows "(if \<exists>n \<in> set nodes. nodeEndpoint port n \<noteq> None
      then \<exists>out. List pf port w = (Inr out, w') \<and> sorted out \<and> out \<noteq> [] \<and>
        mset out = mset (List.map_filter (nodeEndpoint port) nodes)
      else List pf port w = (Inl ErrNoneReady, w')) \<and>
    (\<forall>n. nodeEndpoint port n \<noteq> None \<longleftrightarrow> isReady n \<and>
       (\<exists>a ip. (''InternalIP'', a) \<in> set (node_addresses n) \<and> parseIP a = Some ip \<and> \<not> isLoopback ip \<and> \<not> isUnspecified ip))"
proof -
  have ne: "List.map_filter (nodeEndpoint port) nodes = [] \<longleftrightarrow> \<not> (\<exists>n \<in> set nodes. nodeEndpoint port n \<noteq> None)"
    by (rule map_filter_Nil)
  have "nodeEndpoint port n \<noteq> None \<longleftrightarrow> isReady n \<and> firstAddress (node_addresses n) \<noteq> None" for n
    by (simp add: nodeEndpoint_def)
  then have "nodeEndpoint port n \<noteq> None \<longleftrightarrow> isReady n \<and>
       (\<exists>a ip. (''InternalIP'', a) \<in> set (node_addresses n) \<and> parseIP a = Some ip \<and> \<not> isLoopback ip \<and> \<not> isUnspecified ip)" for n
    unfolding firstAddress_None by blast
  moreover have "if \<exists>n \<in> set nodes. nodeEndpoint port n \<noteq> None
      then \<exists>out. List pf port w = (Inr out, w') \<and> sorted out \<and> out \<noteq> [] \<and>
        mset out = mset (List.map_filter (nodeEndpoint port) nodes)
      else List pf port w = (Inl ErrNoneReady, w')"
    using assms ne sort_Nil by (simp add: List_def Let_def) auto
  ultimately show ?thesis by blast
qed

text \<open>
  A refresh that fails keeps the previous list: once endpoints are advertised, no run of
  Run empties the list, and it changes nothing else of the server.
\<close>

lemma discoverRun_keeps_advertising:
  assumes "discoverRun pf port es s w = (s', w')" and "sv_apiServers s = Some l" and "l \<noteq> []"
  shows "\<exists>l'. sv_apiServers s' = Some l' \<and> l' \<noteq> []"
proof -
  obtain s1 w1 where a: "applyList pf port s w = (s1, w1)" by (cases "applyList pf port s w")
  have "advertises s" using assms(2,3) by (simp add: advertises_def)
  then show ?thesis
    using assms(1) a applyList_advertises [OF a] discoverLoop_advertises [of pf port es s1 w1]
    by (auto simp: discoverRun_def advertises_def)
qed

section \<open>The guarantees at concrete clusters\<close>

definition mem_cp :: node where
  "mem_cp = \<lparr>node_name = ''cp-1'', node_labels = [(controlPlaneLabel, [])],
     node_addresses = [(''Hostname'', ''cp-1''), (''InternalIP'', ''127.0.0.1''), (''InternalIP'', ''10.0.0.1'')],
     node_conditions = [(''Ready'', ''True'')]\<rparr>"

definition mem_cluster :: mem where
  "mem_cluster = mem_empty\<lparr>m_nodes := [(''cp-1'', mem_cp)]\<rparr>"

lemma mem_cluster_nodes: "listNodes mem_platform controlPlaneLabel mem_cluster = (Inr [mem_cp], mem_cluster)"
  by (simp add: mem_platform_def mem_cluster_def mem_cp_def)

lemma mem_cp_addresses:
  "firstAddress [(''Hostname'', ''cp-1''), (''InternalIP'', ''127.0.0.1''), (''InternalIP'', ''10.0.0.1'')] =
     Some (v4InV6Prefix @ [10, 0, 0, 1])"
proof -
  have "parseIP ''127.0.0.1'' = Some (v4InV6Prefix @ [127, 0, 0, 1])" "parseIP ''10.0.0.1'' = Some (v4InV6Prefix @ [10, 0, 0, 1])"
    by (simp_all add: go_simps)
  moreover have "isLoopback (v4InV6Prefix @ [127, 0, 0, 1])" "\<not> isLoopback (v4InV6Prefix @ [10, 0, 0, 1])"
    by (simp_all add: isLoopback_def to4_def)
  moreover have "\<not> isUnspecified (v4InV6Prefix @ [10, 0, 0, 1])"
    by (auto simp: isUnspecified_def ip_Equal_def v4InV6Prefix_def dest: arg_cong [of _ _ last])
  ultimately show ?thesis by simp
qed

lemma mem_cp_endpoint: "nodeEndpoint 6443 mem_cp = Some ''10.0.0.1:6443''"
proof -
  have "digit_char 0 = CHR ''0''" "digit_char 1 = CHR ''1''" "digit_char 3 = CHR ''3''" "digit_char 4 = CHR ''4''"
    "digit_char 6 = CHR ''6''"
    by code_simp+
  then have "ip_String (v4InV6Prefix @ [10, 0, 0, 1]) = ''10.0.0.1''" "itoa 6443 = ''6443''"
    by (simp_all add: ip_String_def to4_def string4_def itoa_def dec_of_nat.simps)
  then show ?thesis
    by (simp add: nodeEndpoint_def mem_cp_def isReady_def mem_cp_addresses endpoint_def joinHostPort_def del: firstAddress.simps)
qed

theorem List_exact_witness:
  "List mem_platform 6443 mem_cluster = (Inr [''10.0.0.1:6443''], mem_cluster)"
proof -
  have "\<exists>n \<in> set [mem_cp]. nodeEndpoint 6443 n \<noteq> None" by (simp add: mem_cp_endpoint)
  then obtain out where o: "List mem_platform 6443 mem_cluster = (Inr out, mem_cluster)"
    "mset out = mset (List.map_filter (nodeEndpoint 6443) [mem_cp])"
    using conjunct1 [OF List_exact [OF mem_cluster_nodes, of 6443]] by (auto simp only: if_True)
  then show ?thesis by (simp add: map_filter_simps mem_cp_endpoint)
qed

end
