(* ===== verification/Go_Time.thy ===== *)
theory Go_Time
  imports Kube
begin

text \<open>
  The part of Go's package time that the program uses on calendar text: the proleptic Gregorian
  calendar, Format and Parse with the layout RFC3339. A time is nanoseconds since 1 January of
  year 1 UTC. Parse first tries the strict RFC 3339 reader and, when that refuses, the general
  layout reader, which also takes a one-digit hour, a comma before the fraction and zone offsets
  of 24 hours or 60 minutes.
\<close>

section \<open>The calendar\<close>

definition isLeap :: "int \<Rightarrow> bool" where
  "isLeap y \<longleftrightarrow> y mod 4 = 0 \<and> (y mod 100 \<noteq> 0 \<or> y mod 400 = 0)"

definition daysIn :: "int \<Rightarrow> int \<Rightarrow> int" where
  "daysIn m y =
     (if m = 2 then (if isLeap y then 29 else 28) else if m = 4 \<or> m = 6 \<or> m = 9 \<or> m = 11 then 30 else 31)"

text \<open>Days from 1 January of year 1 to 1 January of year \<open>y\<close>, and from there to the first of a month.\<close>

definition daysBeforeYear :: "int \<Rightarrow> int" where
  "daysBeforeYear y = 365 * (y - 1) + (y - 1) div 4 - (y - 1) div 100 + (y - 1) div 400"

definition daysBeforeMonth :: "int \<Rightarrow> int \<Rightarrow> int" where
  "daysBeforeMonth m y = sum_list (map (\<lambda>k. daysIn k y) [1..m - 1])"

definition dateDays :: "int \<Rightarrow> int \<Rightarrow> int \<Rightarrow> int" where
  "dateDays y m d = daysBeforeYear y + daysBeforeMonth m y + d - 1"

text \<open>The year a day falls in: the mean year length gives it up to one.\<close>

definition yearOf :: "int \<Rightarrow> int" where
  "yearOf n =
     (let y = 400 * n div 146097 + 1 in
      if daysBeforeYear (y + 1) \<le> n then y + 1 else if n < daysBeforeYear y then y - 1 else y)"

definition monthOf :: "int \<Rightarrow> int \<Rightarrow> int" where
  "monthOf y r = (case find (\<lambda>m. r < daysBeforeMonth (m + 1) y) [1..12] of Some m \<Rightarrow> m | None \<Rightarrow> 12)"

definition civil :: "int \<Rightarrow> int \<times> int \<times> int" where
  "civil n =
     (let y = yearOf n; r = n - daysBeforeYear y; m = monthOf y r in (y, m, r - daysBeforeMonth m y + 1))"

section \<open>Writing\<close>

definition appendInt :: "int \<Rightarrow> nat \<Rightarrow> string" where
  "appendInt x w = (if x < 0 then CHR ''-'' # dec_padded w (nat (- x)) else dec_padded w (nat x))"

text \<open>\<open>t.UTC().Format(time.RFC3339)\<close>\<close>

definition formatRFC3339 :: "time \<Rightarrow> string" where
  "formatRFC3339 t =
     (let (y, m, d) = civil (t div day); s = t mod day div second in
      appendInt y 4 @ ''-'' @ appendInt m 2 @ ''-'' @ appendInt d 2 @ ''T'' @
      appendInt (s div 3600) 2 @ '':'' @ appendInt (s div 60 mod 60) 2 @ '':'' @ appendInt (s mod 60) 2 @ ''Z'')"

section \<open>Reading\<close>

definition goDate :: "int \<Rightarrow> int \<Rightarrow> int \<Rightarrow> int \<Rightarrow> int \<Rightarrow> int \<Rightarrow> int \<Rightarrow> time" where
  "goDate y m d h mi s ns = (((dateDays y m d * 24 + h) * 60 + mi) * 60 + s) * second + ns"

definition slice :: "nat \<Rightarrow> nat \<Rightarrow> string \<Rightarrow> string" where
  "slice a b s = take (b - a) (drop a s)"

definition parseUint :: "string \<Rightarrow> int \<Rightarrow> int \<Rightarrow> int option" where
  "parseUint s lo hi =
     (if list_all is_digit s then
        let x = int (dec_value s) in if x < lo \<or> hi < x then None else Some x
      else None)"

text \<open>The digits of a fraction: at most nine count, fewer are scaled up.\<close>

definition nanoseconds :: "string \<Rightarrow> int" where
  "nanoseconds ds = (let k = take 9 ds in int (dec_value k) * 10 ^ (9 - length k))"

text \<open>A fraction after the seconds, introduced by one of \<open>seps\<close>, and what follows it.\<close>

definition fraction :: "char list \<Rightarrow> string \<Rightarrow> int \<times> string" where
  "fraction seps s =
     (if length s \<ge> 2 \<and> List.member seps (s ! 0) \<and> is_digit (s ! 1)
      then (nanoseconds (takeWhile is_digit (tl s)), dropWhile is_digit (tl s))
      else (0, s))"

definition strictZone :: "string \<Rightarrow> int option" where
  "strictZone z =
     (if z = ''Z'' then Some 0
      else if length z \<noteq> 6 then None
      else case (parseUint (slice 1 3 z) 0 23, parseUint (slice 4 6 z) 0 59) of
             (Some hr, Some mm) \<Rightarrow>
               if (z ! 0 = CHR ''-'' \<or> z ! 0 = CHR ''+'') \<and> z ! 3 = CHR '':'' then
                 let off = (hr * 60 + mm) * 60 in Some (if z ! 0 = CHR ''-'' then - off else off)
               else None
           | _ \<Rightarrow> None)"

definition parseRFC3339 :: "string \<Rightarrow> time option" where
  "parseRFC3339 s =
     (if length s < 19 then None
      else case (parseUint (slice 0 4 s) 0 9999, parseUint (slice 5 7 s) 1 12) of
        (Some y, Some m) \<Rightarrow>
          (case (parseUint (slice 8 10 s) 1 (daysIn m y), parseUint (slice 11 13 s) 0 23,
                 parseUint (slice 14 16 s) 0 59, parseUint (slice 17 19 s) 0 59) of
             (Some d, Some h, Some mi, Some sec) \<Rightarrow>
               if s ! 4 = CHR ''-'' \<and> s ! 7 = CHR ''-'' \<and> s ! 10 = CHR ''T'' \<and> s ! 13 = CHR '':'' \<and> s ! 16 = CHR '':'' then
                 (case fraction ''.'' (drop 19 s) of
                    (ns, z) \<Rightarrow> map_option (\<lambda>off. goDate y m d h mi sec ns - off * second) (strictZone z))
               else None
           | _ \<Rightarrow> None)
      | _ \<Rightarrow> None)"

text \<open>The general reader, for the layout 2006-01-02T15:04:05Z07:00.\<close>

definition isDigitAt :: "string \<Rightarrow> nat \<Rightarrow> bool" where
  "isDigitAt s i \<longleftrightarrow> i < length s \<and> is_digit (s ! i)"

definition getnum :: "bool \<Rightarrow> string \<Rightarrow> (int \<times> string) option" where
  "getnum fixed s =
     (if \<not> isDigitAt s 0 then None
      else if \<not> isDigitAt s 1 then (if fixed then None else Some (int (dec_value (take 1 s)), drop 1 s))
      else Some (int (dec_value (take 2 s)), drop 2 s))"

fun lit :: "char \<Rightarrow> string \<Rightarrow> string option" where
  "lit c (x # s) = (if x = c then Some s else None)"
| "lit c [] = None"

definition layoutYear :: "string \<Rightarrow> (int \<times> string) option" where
  "layoutYear s = (if length s < 4 \<or> \<not> list_all is_digit (take 4 s) then None else Some (int (dec_value (take 4 s)), drop 4 s))"

definition layoutZone :: "string \<Rightarrow> int option" where
  "layoutZone z =
     (case z of
        [] \<Rightarrow> None
      | c # r \<Rightarrow>
          if c = CHR ''Z'' then (if r = [] then Some 0 else None)
          else if length z < 6 \<or> z ! 3 \<noteq> CHR '':'' then None
          else case (getnum True (slice 1 3 z), getnum True (slice 4 6 z)) of
                 (Some (hr, _), Some (mm, _)) \<Rightarrow>
                   if hr \<le> 24 \<and> mm \<le> 60 \<and> (c = CHR ''+'' \<or> c = CHR ''-'') \<and> drop 6 z = [] then
                     let off = (hr * 60 + mm) * 60 in Some (if c = CHR ''-'' then - off else off)
                   else None
               | _ \<Rightarrow> None)"

definition parseLayout :: "string \<Rightarrow> time option" where
  "parseLayout s =
     Option.bind (layoutYear s) (\<lambda>(y, s).
     Option.bind (lit (CHR ''-'') s) (\<lambda>s.
     Option.bind (getnum True s) (\<lambda>(m, s).
     Option.bind (lit (CHR ''-'') s) (\<lambda>s.
     Option.bind (getnum True s) (\<lambda>(d, s).
     Option.bind (lit (CHR ''T'') s) (\<lambda>s.
     Option.bind (getnum False s) (\<lambda>(h, s).
     Option.bind (lit (CHR '':'') s) (\<lambda>s.
     Option.bind (getnum True s) (\<lambda>(mi, s).
     Option.bind (lit (CHR '':'') s) (\<lambda>s.
     Option.bind (getnum True s) (\<lambda>(sec, s).
       (case fraction ''.,'' s of
          (ns, z) \<Rightarrow>
            Option.bind (layoutZone z) (\<lambda>off.
              if 1 \<le> m \<and> m \<le> 12 \<and> h < 24 \<and> mi < 60 \<and> sec < 60 \<and> 1 \<le> d \<and> d \<le> daysIn m y
              then Some (goDate y m d h mi sec ns - off * second) else None)))))))))))))"

text \<open>\<open>time.Parse(time.RFC3339, s)\<close>\<close>

definition timeParse :: "string \<Rightarrow> time option" where
  "timeParse s = (case parseRFC3339 s of Some t \<Rightarrow> Some t | None \<Rightarrow> parseLayout s)"

section \<open>Lemmas on the calendar\<close>

lemma div_bounds: "0 < k \<Longrightarrow> k * (n div k) \<le> n \<and> n \<le> k * (n div k) + k - 1" for k n :: int
  using pos_mod_bound [of k n] pos_mod_sign [of k n] mult_div_mod_eq [of k n] by linarith

lemma daysBeforeYear_bounds:
  "146097 * (y - 1) - 699 \<le> 400 * daysBeforeYear y" "400 * daysBeforeYear y \<le> 146097 * (y - 1) + 396"
proof -
  define a b c where abc: "a = (y - 1) div 4" "b = (y - 1) div 100" "c = (y - 1) div 400"
  have "daysBeforeYear y = 365 * (y - 1) + a - b + c" by (simp add: daysBeforeYear_def abc)
  moreover have "4 * a \<le> y - 1" "y - 1 \<le> 4 * a + 3" "100 * b \<le> y - 1" "y - 1 \<le> 100 * b + 99"
    "400 * c \<le> y - 1" "y - 1 \<le> 400 * c + 399"
    using div_bounds [of 4 "y - 1"] div_bounds [of 100 "y - 1"] div_bounds [of 400 "y - 1"] by (simp_all add: abc)
  ultimately show "146097 * (y - 1) - 699 \<le> 400 * daysBeforeYear y" "400 * daysBeforeYear y \<le> 146097 * (y - 1) + 396"
    by (simp_all add: right_diff_distrib)
qed

lemma yearOf_correct: "daysBeforeYear (yearOf n) \<le> n \<and> n < daysBeforeYear (yearOf n + 1)"
proof -
  define y where y: "y = 400 * n div 146097 + 1"
  have "146097 * (y - 1) \<le> 400 * n" "400 * n \<le> 146097 * (y - 1) + 146096"
    using div_bounds [of 146097 "400 * n"] by (simp_all add: y)
  then have "daysBeforeYear (y - 1) \<le> n" "n < daysBeforeYear (y + 2)"
    using daysBeforeYear_bounds(2) [of "y - 1"] daysBeforeYear_bounds(1) [of "y + 2"]
    by (simp_all add: right_diff_distrib distrib_left)
  then show ?thesis by (auto simp: yearOf_def y [symmetric] Let_def add.assoc)
qed

lemma div_pred:
  fixes y k :: int
  assumes "0 < k"
  shows "y div k = (y - 1) div k + (if y mod k = 0 then 1 else 0)"
proof (cases "y mod k = 0")
  case True
  then have "y - 1 = k * (y div k - 1) + (k - 1)" using mult_div_mod_eq [of k y] by (simp add: algebra_simps)
  then have "(y - 1) div k = y div k - 1" using assms int_div_pos_eq [of "y - 1" k "y div k - 1" "k - 1"] by simp
  then show ?thesis using True by simp
next
  case False
  have "y - 1 = k * (y div k) + (y mod k - 1)" using mult_div_mod_eq [of k y] by simp
  moreover have "0 \<le> y mod k" "y mod k < k" using assms by simp_all
  ultimately have "(y - 1) div k = y div k"
    using False int_div_pos_eq [of "y - 1" k "y div k" "y mod k - 1"] by simp
  then show ?thesis using False by simp
qed

lemma year_length: "daysBeforeYear (y + 1) = daysBeforeYear y + (if isLeap y then 366 else 365)"
proof -
  have "y mod 400 = 0 \<Longrightarrow> y mod 100 = 0" "y mod 100 = 0 \<Longrightarrow> y mod 4 = 0"
    using mod_mod_cancel [of 100 400 y] mod_mod_cancel [of 4 100 y] by simp_all
  moreover have "365 * y + q4 - q100 + q400 = 365 * (y - 1) + p4 - p100 + p400 + (if c4 \<and> (\<not> c100 \<or> c400) then 366 else 365)"
    if "q4 = p4 + (if c4 then 1 else 0)" "q100 = p100 + (if c100 then 1 else 0)" "q400 = p400 + (if c400 then 1 else 0)"
      "c400 \<Longrightarrow> c100" "c100 \<Longrightarrow> c4" for q4 p4 q100 p100 q400 p400 :: int and c4 c100 c400
    using that by (cases c4; cases c100; cases c400) simp_all
  ultimately show ?thesis
    using div_pred [of 4 y] div_pred [of 100 y] div_pred [of 400 y]
    unfolding daysBeforeYear_def isLeap_def add_diff_cancel_right' by (simp only: simp_thms)
qed

lemma daysBeforeMonth_next: "1 \<le> m \<Longrightarrow> daysBeforeMonth (m + 1) y = daysBeforeMonth m y + daysIn m y"
  using upto_rec2 [of 1 m] by (simp add: daysBeforeMonth_def)

lemma daysBeforeMonth_1 [simp]: "daysBeforeMonth 1 y = 0"
  by (simp add: daysBeforeMonth_def)

lemma months_of_year: "daysBeforeMonth 13 y = (if isLeap y then 366 else 365)"
proof -
  have "[1..12] = [1, 2, 3, 4, 5, 6, 7, 8, 9, 10, 11, 12 :: int]" by code_simp
  then show ?thesis by (simp add: daysBeforeMonth_def daysIn_def)
qed

text \<open>\<open>upto\<close> lists are searched in order: the hit is the first one.\<close>

lemma find_upto:
  "find P [i..j] = Some m \<Longrightarrow> i \<le> m \<and> m \<le> j \<and> P m \<and> (\<forall>k. i \<le> k \<and> k < m \<longrightarrow> \<not> P k)"
proof (induction i j rule: upto.induct)
  case (1 i j)
  show ?case
  proof (cases "i \<le> j")
    case False
    then show ?thesis using "1.prems" by simp
  next
    case True
    have u: "[i..j] = i # [i + 1..j]" using True by (rule upto_rec1)
    show ?thesis
    proof (cases "P i")
      case hit: True
      then show ?thesis using "1.prems" True by (auto simp: u)
    next
      case miss: False
      then have "find P [i + 1..j] = Some m" using "1.prems" by (simp add: u)
      note IH = "1.IH" [OF True this]
      have "\<not> P k" if "i \<le> k" "k < m" for k using IH miss that by (cases "k = i") auto
      then show ?thesis using IH by simp
    qed
  qed
qed

lemma monthOf_correct:
  assumes "0 \<le> r" "r < daysBeforeMonth 13 y"
  shows "1 \<le> monthOf y r \<and> monthOf y r \<le> 12 \<and> daysBeforeMonth (monthOf y r) y \<le> r \<and> r < daysBeforeMonth (monthOf y r + 1) y"
proof -
  let ?P = "\<lambda>m. r < daysBeforeMonth (m + 1) y"
  have "find ?P [1..12] \<noteq> None" using assms(2) by (auto simp: find_None_iff intro!: bexI [of _ 12])
  then obtain m where f: "find ?P [1..12] = Some m" by auto
  note m = find_upto [OF f]
  have "daysBeforeMonth m y \<le> r"
  proof (cases "m = 1")
    case False
    then have "1 \<le> m - 1 \<and> m - 1 < m" using m by simp
    then have "\<not> ?P (m - 1)" using m by blast
    then show ?thesis by simp
  qed (use assms(1) in simp)
  then show ?thesis using f m by (simp add: monthOf_def)
qed

lemma civil_correct:
  assumes "civil n = (y, m, d)"
  shows "y = yearOf n \<and> 1 \<le> m \<and> m \<le> 12 \<and> 1 \<le> d \<and> d \<le> daysIn m y \<and> dateDays y m d = n"
proof -
  let ?r = "n - daysBeforeYear y"
  have c: "y = yearOf n" "m = monthOf y ?r" "d = ?r - daysBeforeMonth m y + 1"
    using assms by (auto simp: civil_def Let_def)
  have "0 \<le> ?r" "?r < daysBeforeMonth 13 y"
    using yearOf_correct [of n] year_length [of y] by (simp_all add: c(1) months_of_year)
  note mo = monthOf_correct [OF this, folded c(2)]
  then show ?thesis using c daysBeforeMonth_next [of m y] by (simp add: dateDays_def)
qed

lemma daysBeforeYear_mono: "y \<le> z \<Longrightarrow> daysBeforeYear y \<le> daysBeforeYear z"
proof (induction z rule: int_ge_induct)
  case (step i)
  then show ?case using year_length [of i] by simp
qed simp

lemma year_4_digits:
  assumes "0 \<le> n" "n < 3652059"
  shows "1 \<le> yearOf n \<and> yearOf n \<le> 9999"
proof -
  have "daysBeforeYear 1 = 0" "daysBeforeYear 10000 = 3652059" by (simp_all add: daysBeforeYear_def)
  then show ?thesis
    using assms yearOf_correct [of n] daysBeforeYear_mono [of "yearOf n + 1" 1] daysBeforeYear_mono [of 10000 "yearOf n"]
    by linarith
qed

section \<open>Lemmas on the text\<close>

lemma dec_padded_digits: "c \<in> set (dec_padded w n) \<Longrightarrow> is_digit c"
  by (auto simp: dec_padded_def is_digit_def dest: dec_of_nat_digits)

lemma length_dec_padded: "n < 10 ^ w \<Longrightarrow> 0 < w \<Longrightarrow> length (dec_padded w n) = w"
  using length_dec_of_nat [of n w] by (simp add: dec_padded_def)

lemma appendInt_text:
  assumes "0 \<le> x" "x < 10 ^ w" "0 < w"
  shows "length (appendInt x w) = w \<and> parseUint (appendInt x w) lo hi = (if x < lo \<or> hi < x then None else Some x)"
proof -
  have "nat x < 10 ^ w" using assms by (simp add: nat_less_iff)
  then show ?thesis
    using assms length_dec_padded [of "nat x" w] dec_padded_digits [of _ w "nat x"]
    by (simp add: appendInt_def parseUint_def list_all_iff Let_def)
qed

lemma length_2: "length xs = 2 \<Longrightarrow> \<exists>a b. xs = [a, b]"
  by (auto simp: length_Suc_conv numeral_2_eq_2)

lemma length_4: "length xs = 4 \<Longrightarrow> \<exists>a b c d. xs = [a, b, c, d]"
  by (auto simp: length_Suc_conv eval_nat_numeral)

text \<open>A text with the right fields and separators is read as the date it shows.\<close>

lemma parseRFC3339_fields:
  assumes "length ys = 4" "length ms = 2" "length ds = 2" "length hs = 2" "length is = 2" "length ss = 2"
    and "parseUint ys 0 9999 = Some y" "parseUint ms 1 12 = Some m" "parseUint ds 1 (daysIn m y) = Some d"
    and "parseUint hs 0 23 = Some h" "parseUint is 0 59 = Some mi" "parseUint ss 0 59 = Some s"
  shows "parseRFC3339 (ys @ ''-'' @ ms @ ''-'' @ ds @ ''T'' @ hs @ '':'' @ is @ '':'' @ ss @ ''Z'') = Some (goDate y m d h mi s 0)"
proof -
  obtain y1 y2 y3 y4 where y: "ys = [y1, y2, y3, y4]" using length_4 [OF assms(1)] by blast
  obtain m1 m2 d1 d2 h1 h2 i1 i2 s1 s2
    where x: "ms = [m1, m2]" "ds = [d1, d2]" "hs = [h1, h2]" "is = [i1, i2]" "ss = [s1, s2]"
    using assms(2-6) length_2 by metis
  show ?thesis
    using assms(7-12) by (simp add: y x parseRFC3339_def slice_def fraction_def strictZone_def)
qed

lemma time_of_day: "t div day * day + t mod day div second * second = t - t mod second"
proof -
  have "t mod day mod second = t mod second" by (rule mod_mod_cancel) (simp add: time_simps)
  then have "t mod day div second * second = t mod day - t mod second"
    using minus_mod_eq_div_mult [of "t mod day" second] by simp
  then show ?thesis using div_mult_mod_eq [of t day] by linarith
qed

lemma clock_of_seconds: "(s div 3600 * 60 + s div 60 mod 60) * 60 + s mod 60 = s" for s :: int
proof -
  have "s div 3600 = s div 60 div 60" using zdiv_zmult2_eq [of 60 s 60] by simp
  then have "s div 3600 * 60 + s div 60 mod 60 = s div 60" by simp
  then show ?thesis by simp
qed

lemma day_pos: "0 < day" "day = 86400 * second" "0 < second"
  by (simp_all add: time_simps)

lemma quotient_range:
  fixes t k u :: int
  assumes "0 < u" "0 \<le> t" "t < k * u"
  shows "0 \<le> t div u \<and> t div u < k"
proof -
  have "u * (t div u) \<le> t" using div_bounds [OF assms(1)] by blast
  then have "u * (t div u) < u * k" using assms(3) by (simp add: mult.commute)
  then show ?thesis using assms(1,2) by (simp add: pos_imp_zdiv_nonneg_iff)
qed

lemma seconds_of_day: "0 \<le> t mod day div second \<and> t mod day div second < 86400"
  using pos_mod_sign [OF day_pos(1), of t] pos_mod_bound [OF day_pos(1), of t] day_pos(2)
  by (intro quotient_range [OF day_pos(3)]) simp_all

lemma clock_ranges:
  fixes s :: int
  assumes "0 \<le> s" "s < 86400"
  shows "0 \<le> s div 3600" "s div 3600 < 24" "0 \<le> s div 60 mod 60" "s div 60 mod 60 < 60" "0 \<le> s mod 60" "s mod 60 < 60"
  using quotient_range [of 3600 s 24] assms by simp_all

lemma two_digits:
  assumes "lo \<le> x" "x \<le> hi" "0 \<le> x" "x < 100"
  shows "length (appendInt x 2) = 2" "parseUint (appendInt x 2) lo hi = Some x"
  using appendInt_text [of x 2 lo hi] assms by simp_all

text \<open>What Format writes for the years 1 to 9999, Parse reads back, cut to whole seconds.\<close>

lemma formatRFC3339_parse:
  assumes "0 \<le> t" "t < 3652059 * day"
  shows "timeParse (formatRFC3339 t) = Some (t - t mod second)"
proof -
  obtain y m d where c: "civil (t div day) = (y, m, d)" by (cases "civil (t div day)")
  define s where s: "s = t mod day div second"
  have n: "0 \<le> t div day" "t div day < 3652059" using quotient_range [OF day_pos(1) assms] by blast+
  have v: "1 \<le> y" "y \<le> 9999" "1 \<le> m" "m \<le> 12" "1 \<le> d" "d \<le> daysIn m y" "dateDays y m d = t div day"
    using civil_correct [OF c] year_4_digits [OF n] by auto
  have "daysIn m y \<le> 31" by (simp add: daysIn_def)
  then have d: "d < 100" using v(6) by linarith
  have "0 \<le> s" "s < 86400" using seconds_of_day [of t] unfolding s by blast+
  note h = clock_ranges [OF this]
  define hh mm ss where hms: "hh = s div 3600" "mm = s div 60 mod 60" "ss = s mod 60"
  have r: "0 \<le> hh" "hh < 24" "0 \<le> mm" "mm < 60" "0 \<le> ss" "ss < 60" unfolding hms by (fact h)+
  have "length (appendInt y 4) = 4" "parseUint (appendInt y 4) 0 9999 = Some y"
    using appendInt_text [of y 4 0 9999] v(1,2) by simp_all
  moreover have "length (appendInt m 2) = 2" "parseUint (appendInt m 2) 1 12 = Some m"
    using two_digits [of 1 m 12] v(3,4) by simp_all
  moreover have "length (appendInt d 2) = 2" "parseUint (appendInt d 2) 1 (daysIn m y) = Some d"
    using two_digits [of 1 d "daysIn m y"] v(5,6) d by simp_all
  moreover have "length (appendInt hh 2) = 2" "parseUint (appendInt hh 2) 0 23 = Some hh"
    using two_digits [of 0 hh 23] r(1,2) by simp_all
  moreover have "length (appendInt mm 2) = 2" "parseUint (appendInt mm 2) 0 59 = Some mm"
    using two_digits [of 0 mm 59] r(3,4) by simp_all
  moreover have "length (appendInt ss 2) = 2" "parseUint (appendInt ss 2) 0 59 = Some ss"
    using two_digits [of 0 ss 59] r(5,6) by simp_all
  ultimately have "parseRFC3339 (formatRFC3339 t) = Some (goDate y m d hh mm ss 0)"
    unfolding formatRFC3339_def c s [symmetric] Let_def prod.case hms [symmetric] by - (rule parseRFC3339_fields)
  moreover have "(hh * 60 + mm) * 60 + ss = s" unfolding hms by (rule clock_of_seconds)
  then have "goDate y m d hh mm ss 0 = (t div day * 86400 + s) * second"
    using v(7) by (simp add: goDate_def)
  moreover have "x * 86400 * second = x * day" for x by (simp add: day_pos(2))
  then have "(t div day * 86400 + s) * second = t - t mod second"
    using time_of_day [of t, folded s] by (simp only: distrib_right)
  ultimately show ?thesis by (simp add: timeParse_def)
qed

end
