(* ===== verification/Sha256.thy ===== *)
theory Sha256
  imports Prelude
begin

text \<open>
  SHA-256 (FIPS 180-4), which src/internal/expiry/tracker.go calls through crypto/sha256 to name an
  Event whose plain name would not be valid. Words are 32 bits wide; the message is padded to whole
  blocks of 64 bytes and folded through the compression function.
\<close>

section \<open>Words and constants\<close>

type_synonym word32 = "32 word"

definition rotr :: "nat \<Rightarrow> word32 \<Rightarrow> word32" where
  "rotr n x = drop_bit n x OR push_bit (32 - n) x"

text \<open>
  The constants as the standard defines them: the first 32 bits of the fractional parts of the
  cube roots of the first 64 primes and of the square roots of the first eight. \<open>root_bits e n\<close>
  finds the integer root of \<open>n\<close> bit by bit, from the highest of the given number of bits. Below
  19 * 19 a number without a prime factor of at most 17 is prime.
\<close>

definition small_primes :: "int list" where
  "small_primes = filter (\<lambda>p. list_all (\<lambda>d. p = d \<or> p mod d \<noteq> 0) [2, 3, 5, 7, 11, 13, 17]) [2..311]"

primrec root_bits :: "nat \<Rightarrow> int \<Rightarrow> nat \<Rightarrow> int \<Rightarrow> int" where
  "root_bits e n 0 acc = acc"
| "root_bits e n (Suc k) acc = root_bits e n k (if (acc + 2 ^ k) ^ e \<le> n then acc + 2 ^ k else acc)"

definition sha_K :: "word32 list" where
  "sha_K = map (\<lambda>p. word_of_int (root_bits 3 (p * 2 ^ 96) 35 0)) small_primes"

definition sha_H0 :: "word32 list" where
  "sha_H0 = map (\<lambda>p. word_of_int (root_bits 2 (p * 2 ^ 64) 35 0)) (take 8 small_primes)"

lemma root_bits_correct:
  "acc ^ e \<le> n \<Longrightarrow> n < (acc + 2 ^ k) ^ e \<Longrightarrow>
     root_bits e n k acc ^ e \<le> n \<and> n < (root_bits e n k acc + 1) ^ e"
proof (induction k arbitrary: acc)
  case (Suc k)
  show ?case
  proof (cases "(acc + 2 ^ k) ^ e \<le> n")
    case True
    have "acc + 2 ^ k + 2 ^ k = acc + 2 ^ Suc k" by simp
    then have "n < (acc + 2 ^ k + 2 ^ k) ^ e" using Suc.prems(2) by metis
    then show ?thesis using Suc.IH [OF True] True by simp
  next
    case False
    then show ?thesis using Suc.IH [OF Suc.prems(1)] by simp
  qed
qed simp

section \<open>Padding\<close>

fun nat_be_bytes :: "nat \<Rightarrow> nat \<Rightarrow> string" where
  "nat_be_bytes 0 x = []"
| "nat_be_bytes (Suc n) x = nat_be_bytes n (x div 256) @ [char_of (x mod 256)]"

definition sha_pad :: "string \<Rightarrow> string" where
  "sha_pad msg =
     (let n = length msg in
      msg @ [CHR 0x80] @ replicate ((119 - n mod 64) mod 64) (CHR 0x00) @ nat_be_bytes 8 (8 * n mod 2 ^ 64))"

definition word_be :: "string \<Rightarrow> word32" where
  "word_be cs = foldl (\<lambda>acc c. acc * 256 + word_of_nat (of_char c)) 0 cs"

definition chunks_of :: "nat \<Rightarrow> 'a list \<Rightarrow> 'a list list" where
  "chunks_of k xs = map (\<lambda>i. take k (drop (i * k) xs)) [0..<length xs div k]"

section \<open>Compression\<close>

definition sha_schedule_step :: "word32 list \<Rightarrow> word32 list" where
  "sha_schedule_step w =
     (let n = length w; a = w ! (n - 15); b = w ! (n - 2);
          s0 = rotr 7 a XOR rotr 18 a XOR drop_bit 3 a;
          s1 = rotr 17 b XOR rotr 19 b XOR drop_bit 10 b in
      w @ [w ! (n - 16) + s0 + w ! (n - 7) + s1])"

definition sha_schedule :: "string \<Rightarrow> word32 list" where
  "sha_schedule block = (sha_schedule_step ^^ 48) (map word_be (chunks_of 4 block))"

fun sha_round :: "word32 list \<Rightarrow> word32 \<times> word32 \<Rightarrow> word32 list" where
  "sha_round [a, b, c, d, e, f, g, h] (k, w) =
     (let s1 = rotr 6 e XOR rotr 11 e XOR rotr 25 e;
          ch = (e AND f) XOR (NOT e AND g);
          t1 = h + s1 + ch + k + w;
          s0 = rotr 2 a XOR rotr 13 a XOR rotr 22 a;
          maj = (a AND b) XOR (a AND c) XOR (b AND c) in
      [t1 + s0 + maj, a, b, c, d + t1, e, f, g])"
| "sha_round v kw = v"

definition sha_block :: "word32 list \<Rightarrow> string \<Rightarrow> word32 list" where
  "sha_block hs block = map2 (+) hs (foldl sha_round hs (zip sha_K (sha_schedule block)))"

definition sha256 :: "string \<Rightarrow> string" where
  "sha256 msg = concat (map (\<lambda>w. nat_be_bytes 4 (unat w)) (foldl sha_block sha_H0 (chunks_of 64 (sha_pad msg))))"

section \<open>Lemmas\<close>

lemma length_nat_be_bytes [simp]: "length (nat_be_bytes n x) = n"
  by (induction n arbitrary: x) simp_all

lemma length_sha_round [simp]: "length (sha_round v kw) = length v"
  by (induction v kw rule: sha_round.induct) (simp_all add: Let_def)

lemma length_sha_rounds [simp]: "length (foldl sha_round v kws) = length v"
  by (induction kws arbitrary: v) simp_all

lemma length_sha_blocks: "length (foldl sha_block hs bs) = length hs"
  by (induction bs arbitrary: hs) (simp_all add: sha_block_def)

lemma small_primes_enough: "length small_primes = 64"
  by (simp add: small_primes_def upto_rec1)

lemma length_sha_H0: "length sha_H0 = 8"
  using small_primes_enough by (simp add: sha_H0_def)

lemma length_sha256: "length (sha256 msg) = 32"
proof -
  have "length (concat (map (\<lambda>w. nat_be_bytes 4 (unat w)) ws)) = 4 * length ws" for ws :: "word32 list"
    by (induction ws) simp_all
  moreover have "length (foldl sha_block sha_H0 bs) = 8" for bs by (simp add: length_sha_blocks length_sha_H0)
  ultimately show ?thesis by (simp add: sha256_def)
qed

end
