(* ===== verification/Expiry.thy ===== *)
theory Expiry
  imports Store Certs Go_Time Sha256
begin

text \<open>
  Model of src/internal/expiry/tracker.go: recording when issued certificates expire, the hourly
  scan that warns about them and the metric series it keeps. The tracker's map and the Prometheus
  vectors are the record \<open>tracker\<close>; a gauge holds its Unix time as an integer. The name check of
  apimachinery is a parameter (\<open>texts\<close>).
\<close>

section \<open>State\<close>

definition annotationPrefix :: string where "annotationPrefix = ''rke2-supervisor-shim/not-after.''"
definition WarnWithin :: duration where "WarnWithin = 120 * 24 * hour"
definition scanEvery :: duration where "scanEvery = hour"
definition eventNS :: string where "eventNS = ''default''"

type_synonym seriesKey = "string \<times> string"

record tracker =
  tr_series :: "(seriesKey \<times> time) list"
  CertExpirySeconds :: "(seriesKey \<times> int) list"
  CertsIssued :: "(string \<times> nat) list"
  CertsExpiringSoon :: nat

record texts =
  tx_isDNS1123 :: "string \<Rightarrow> string list"

definition NewTracker :: tracker where
  "NewTracker = \<lparr>tr_series = [], CertExpirySeconds = [], CertsIssued = [], CertsExpiringSoon = 0\<rparr>"

text \<open>Time.Unix: whole seconds since 1970.\<close>

definition unix :: "time \<Rightarrow> int" where
  "unix t = t div second - 62135596800"

section \<open>Operations\<close>

definition setSeries :: "'w platform \<Rightarrow> string \<Rightarrow> string \<Rightarrow> time \<Rightarrow> tracker \<Rightarrow> 'w \<Rightarrow> tracker \<times> 'w" where
  "setSeries pf node kind na t w =
     (case timeNow pf w of
        (now, w1) \<Rightarrow>
          (t\<lparr>CertExpirySeconds := AList.update (node, kind) (unix na) (CertExpirySeconds t),
             tr_series := AList.update (node, kind) now (tr_series t)\<rparr>, w1))"

definition pruneSeries :: "seriesKey list \<Rightarrow> time \<Rightarrow> tracker \<Rightarrow> tracker" where
  "pruneSeries seen start t =
     (let gone = map fst (filter (\<lambda>(k, at). \<not> (List.member seen k \<or> start < at)) (tr_series t)) in
      t\<lparr>CertExpirySeconds := filter (\<lambda>(k, _). \<not> List.member gone k) (CertExpirySeconds t),
        tr_series := filter (\<lambda>(k, _). \<not> List.member gone k) (tr_series t)\<rparr>)"

definition incIssued :: "string \<Rightarrow> tracker \<Rightarrow> tracker" where
  "incIssued kind t =
     t\<lparr>CertsIssued := AList.update kind (case map_of (CertsIssued t) kind of None \<Rightarrow> 1 | Some n \<Rightarrow> n + 1) (CertsIssued t)\<rparr>"

text \<open>The patch is a merge patch of one annotation; its failure is only logged.\<close>

definition RecordIssued :: "'w platform \<Rightarrow> string \<Rightarrow> string \<Rightarrow> time \<Rightarrow> tracker \<Rightarrow> 'w \<Rightarrow> tracker \<times> 'w" where
  "RecordIssued pf node kind na t w =
     (let t1 = incIssued kind t in
      if node = [] then (t1, w)
      else case setSeries pf node kind na t1 w of
        (t2, w1) \<Rightarrow>
          (case patchSecret pf Namespace (SecretName node) [(annotationPrefix @ kind, formatRFC3339 na)] w1 of
             (_, w2) \<Rightarrow> (t2, w2)))"

definition eventName :: "texts \<Rightarrow> string \<Rightarrow> string \<Rightarrow> string" where
  "eventName x node kind =
     (let name = node @ ''.cert-expiry.'' @ kind in
      if tx_isDNS1123 x name = [] then name
      else ''cert-expiry.'' @ hex_encode (take 8 (sha256 (node @ ''/'' @ kind))))"

definition warnMessage :: "texts \<Rightarrow> string \<Rightarrow> string \<Rightarrow> time \<Rightarrow> duration \<Rightarrow> string" where
  "warnMessage x node kind na remaining =
     (if remaining \<le> 0 then
        ''Certificate '' @ kind @ '' for node '' @ node @ '' EXPIRED at '' @ formatRFC3339 na
        @ ''. Restart rke2-agent on the node to renew it.''
      else
        ''Certificate '' @ kind @ '' for node '' @ node @ '' expires in '' @ itoa (remaining div day)
        @ '' days ('' @ formatRFC3339 na @ ''). Restart rke2-agent on the node to renew it.'')"

definition warn :: "texts \<Rightarrow> 'w platform \<Rightarrow> string \<Rightarrow> string \<Rightarrow> time \<Rightarrow> duration \<Rightarrow> 'w \<Rightarrow> 'w" where
  "warn x pf node kind na remaining w =
     (let msg = warnMessage x node kind na remaining; name = eventName x node kind in
      case timeNow pf w of
        (now, w1) \<Rightarrow>
          (case createEvent pf eventNS
                  \<lparr>ev_name = name, ev_reason = ''CertificateExpirationWarning'', ev_message = msg, ev_type = ''Warning'',
                   ev_node = node, ev_first = now, ev_last = now, ev_count = 1\<rparr> w1 of
             (Inl AlreadyExists, w2) \<Rightarrow> snd (patchEvent pf eventNS name (msg, now, ''Warning'') w2)
           | (_, w2) \<Rightarrow> w2))"

text \<open>The annotations of the listed Secrets that hold an expiry: node, kind and time.\<close>

definition expiryOf :: "string \<times> string \<Rightarrow> (string \<times> time) option" where
  "expiryOf kv =
     (case kv of (k, v) \<Rightarrow>
        if \<not> hasPrefix k annotationPrefix then None
        else map_option (\<lambda>na. (trimPrefix k annotationPrefix, na)) (timeParse v))"

definition entries :: "secret list \<Rightarrow> (seriesKey \<times> time) list" where
  "entries secs =
     concat (map (\<lambda>sec. let node = trimSuffix (sec_name sec) ''.node-password.rke2'' in
       map (\<lambda>(kind, na). ((node, kind), na)) (List.map_filter (expiryOf) (sec_annotations sec))) secs)"

text \<open>The body of the inner loop, with the counter, the seen keys and the world threaded through.\<close>

definition scanEntry :: "texts \<Rightarrow> 'w platform \<Rightarrow> tracker \<times> nat \<times> seriesKey list \<times> 'w \<Rightarrow> seriesKey \<times> time
    \<Rightarrow> tracker \<times> nat \<times> seriesKey list \<times> 'w" where
  "scanEntry x pf st e =
     (case (st, e) of ((t, soon, seen, w), ((node, kind), na)) \<Rightarrow>
        (case setSeries pf node kind na t w of
           (t1, w1) \<Rightarrow>
             (case timeNow pf w1 of
                (now, w2) \<Rightarrow>
                  (let remaining = time_Sub na now in
                   if remaining > WarnWithin then (t1, soon, (node, kind) # seen, w2)
                   else (t1, soon + 1, (node, kind) # seen, warn x pf node kind na remaining w2)))))"

definition scan :: "texts \<Rightarrow> 'w platform \<Rightarrow> tracker \<Rightarrow> 'w \<Rightarrow> tracker \<times> 'w" where
  "scan x pf t w =
     (case timeNow pf w of
        (start, w1) \<Rightarrow>
          (case listSecrets pf Namespace managedByLabel w1 of
             (Inl _, w2) \<Rightarrow> (t, w2)
           | (Inr secs, w2) \<Rightarrow>
               (case foldl (scanEntry x pf) (t, 0, [], w2) (entries secs) of
                  (t1, soon, seen, w3) \<Rightarrow> (pruneSeries seen start (t1\<lparr>CertsExpiringSoon := soon\<rparr>), w3))))"



section \<open>Lemmas\<close>

text \<open>The exported series are exactly those the tracker knows of, each once.\<close>

definition tracker_inv :: "tracker \<Rightarrow> bool" where
  "tracker_inv t \<longleftrightarrow> map fst (CertExpirySeconds t) = map fst (tr_series t) \<and> distinct (map fst (tr_series t))"

lemma keys_update: "map fst (AList.update k v xs) = (if k \<in> fst ` set xs then map fst xs else map fst xs @ [k])"
  by (induction xs) auto

lemma keys_filter: "map fst (filter (\<lambda>(k, _). P k) xs) = filter P (map fst xs)"
  by (induction xs) auto

lemma keys_update_set: "fst ` set (AList.update k v xs) = insert k (fst ` set xs)"
  by (induction xs) auto

lemma setSeries_props:
  assumes "setSeries pf node kind na t w = (t', w')"
  shows "map_of (CertExpirySeconds t') (node, kind) = Some (unix na)"
    and "fst ` set (tr_series t') = insert (node, kind) (fst ` set (tr_series t))"
    and "k \<noteq> (node, kind) \<Longrightarrow> map_of (tr_series t') k = map_of (tr_series t) k"
    and "k \<noteq> (node, kind) \<Longrightarrow> map_of (CertExpirySeconds t') k = map_of (CertExpirySeconds t) k"
proof -
  obtain now where "t' = t\<lparr>CertExpirySeconds := AList.update (node, kind) (unix na) (CertExpirySeconds t),
      tr_series := AList.update (node, kind) now (tr_series t)\<rparr>"
    using assms by (auto simp: setSeries_def split: prod.splits)
  then show "map_of (CertExpirySeconds t') (node, kind) = Some (unix na)"
    "fst ` set (tr_series t') = insert (node, kind) (fst ` set (tr_series t))"
    "k \<noteq> (node, kind) \<Longrightarrow> map_of (tr_series t') k = map_of (tr_series t) k"
    "k \<noteq> (node, kind) \<Longrightarrow> map_of (CertExpirySeconds t') k = map_of (CertExpirySeconds t) k"
    by (simp_all add: keys_update_set update_conv')
qed

lemma setSeries_inv:
  assumes "setSeries pf node kind na t w = (t', w')" "tracker_inv t"
  shows "tracker_inv t'"
proof -
  have "fst ` set (CertExpirySeconds t) = fst ` set (tr_series t)"
    using assms(2) unfolding tracker_inv_def by (metis list.set_map)
  then show ?thesis
    using assms by (auto simp: setSeries_def tracker_inv_def keys_update split: prod.splits)
qed

lemma pruneSeries_inv: "tracker_inv t \<Longrightarrow> tracker_inv (pruneSeries seen start t)"
  by (auto simp: tracker_inv_def pruneSeries_def keys_filter Let_def)

lemma scanEntry_inv: "scanEntry x pf (t, soon, seen, w) e = (t', soon', seen', w') \<Longrightarrow> tracker_inv t \<Longrightarrow> tracker_inv t'"
  by (auto simp: scanEntry_def Let_def split: prod.splits if_splits dest: setSeries_inv)

text \<open>One entry, and the whole loop of a scan.\<close>

lemma scanEntry_props:
  assumes "scanEntry x pf (t, soon, seen, w) (k, na) = (t', soon', seen', w')"
  shows "seen' = k # seen \<and> fst ` set (tr_series t') = insert k (fst ` set (tr_series t)) \<and>
    map_of (CertExpirySeconds t') k = Some (unix na) \<and>
    (\<forall>j. j \<noteq> k \<longrightarrow> map_of (tr_series t') j = map_of (tr_series t) j \<and>
       map_of (CertExpirySeconds t') j = map_of (CertExpirySeconds t) j)"
proof -
  obtain node kind where k: "k = (node, kind)" by (cases k)
  obtain t1 w1 where s: "setSeries pf node kind na t w = (t1, w1)" by (cases "setSeries pf node kind na t w")
  have "t' = t1" "seen' = k # seen"
    using assms s k by (auto simp: scanEntry_def Let_def split: prod.splits if_splits)
  then show ?thesis using setSeries_props [OF s] k by simp
qed

lemma scan_fold:
  "foldl (scanEntry x pf) (t, soon, seen, w) es = (t', soon', seen', w') \<Longrightarrow>
     set seen' = set seen \<union> fst ` set es \<and>
     fst ` set (tr_series t') = fst ` set (tr_series t) \<union> fst ` set es \<and>
     (tracker_inv t \<longrightarrow> tracker_inv t') \<and>
     (\<forall>j. j \<notin> fst ` set es \<longrightarrow> map_of (tr_series t') j = map_of (tr_series t) j \<and>
        map_of (CertExpirySeconds t') j = map_of (CertExpirySeconds t) j) \<and>
     (\<forall>j. j \<in> fst ` set es \<longrightarrow> (\<exists>na. (j, na) \<in> set es \<and> map_of (CertExpirySeconds t') j = Some (unix na)))"
proof (induction es arbitrary: t soon seen w)
  case (Cons e es)
  obtain k na where e: "e = (k, na)" by (cases e)
  obtain t1 s1 n1 w1 where st: "scanEntry x pf (t, soon, seen, w) e = (t1, s1, n1, w1)"
    by (metis prod.collapse)
  note one = scanEntry_props [OF st [unfolded e]] and inv = scanEntry_inv [OF st]
  have "foldl (scanEntry x pf) (t1, s1, n1, w1) es = (t', soon', seen', w')" using Cons.prems st by simp
  note rest = Cons.IH [OF this]
  have "\<exists>na. (j, na) \<in> set (e # es) \<and> map_of (CertExpirySeconds t') j = Some (unix na)" if "j \<in> fst ` set (e # es)" for j
  proof (cases "j \<in> fst ` set es")
    case True
    then obtain na' where "(j, na') \<in> set es" "map_of (CertExpirySeconds t') j = Some (unix na')" using rest by blast
    then show ?thesis by (meson list.set_intros(2))
  next
    case False
    then have "j = k" using that e by simp
    then have "map_of (CertExpirySeconds t') j = Some (unix na)" using rest False one by metis
    then show ?thesis using e \<open>j = k\<close> by (meson list.set_intros(1))
  qed
  moreover have "set seen' = set seen \<union> fst ` set (e # es)"
    "fst ` set (tr_series t') = fst ` set (tr_series t) \<union> fst ` set (e # es)"
    using rest one e by auto
  moreover have "map_of (tr_series t') j = map_of (tr_series t) j \<and>
      map_of (CertExpirySeconds t') j = map_of (CertExpirySeconds t) j" if "j \<notin> fst ` set (e # es)" for j
  proof -
    have "j \<noteq> k" "j \<notin> fst ` set es" using that e by simp_all
    then show ?thesis using rest one by metis
  qed
  ultimately show ?case using rest inv by blast
qed simp

lemma fst_filter_keys: "fst ` {x \<in> set xs. case x of (k, _) \<Rightarrow> P k} = {k \<in> fst ` set xs. P k}"
  by force

lemma map_of_filter_keys: "P k \<Longrightarrow> map_of (filter (\<lambda>(k, _). P k) xs) k = map_of xs k"
  by (induction xs) auto

lemma key_iff: "k \<in> fst ` set xs \<longleftrightarrow> (\<exists>v. map_of xs k = Some v)"
  by (simp add: dom_map_of_conv_image_fst [symmetric] dom_def)

lemma inv_keys: "tracker_inv t \<Longrightarrow> k \<in> fst ` set (tr_series t) \<longleftrightarrow> (\<exists>v. map_of (CertExpirySeconds t) k = Some v)"
  unfolding key_iff [symmetric] tracker_inv_def by (metis list.set_map)

definition gone :: "seriesKey list \<Rightarrow> time \<Rightarrow> tracker \<Rightarrow> seriesKey list" where
  "gone seen start t = map fst (filter (\<lambda>(k, at). \<not> (List.member seen k \<or> start < at)) (tr_series t))"

lemma gone_iff:
  assumes "distinct (map fst (tr_series t))"
  shows "k \<in> set (gone seen start t) \<longleftrightarrow> (\<exists>at. map_of (tr_series t) k = Some at \<and> k \<notin> set seen \<and> \<not> start < at)"
proof -
  have "k \<in> set (gone seen start t) \<longleftrightarrow> (\<exists>at. (k, at) \<in> set (tr_series t) \<and> k \<notin> set seen \<and> \<not> start < at)"
    by (force simp: gone_def)
  then show ?thesis using assms by simp
qed

lemma pruned_keys:
  assumes "distinct (map fst (tr_series t))"
  shows "k \<in> fst ` set (tr_series (pruneSeries seen start t)) \<longleftrightarrow>
    (\<exists>at. map_of (tr_series t) k = Some at \<and> (k \<in> set seen \<or> start < at))"
proof -
  have "k \<in> fst ` set (tr_series (pruneSeries seen start t)) \<longleftrightarrow>
      (\<exists>at. map_of (tr_series t) k = Some at) \<and> k \<notin> set (gone seen start t)"
    unfolding pruneSeries_def Let_def gone_def [symmetric]
    by (simp add: fst_filter_keys key_iff del: split_paired_Ex)
  then show ?thesis unfolding gone_iff [OF assms] by (auto simp del: split_paired_Ex)
qed

lemma pruned_values:
  assumes "k \<notin> set (gone seen start t)"
  shows "map_of (CertExpirySeconds (pruneSeries seen start t)) k = map_of (CertExpirySeconds t) k"
  using assms unfolding pruneSeries_def Let_def gone_def [symmetric]
  by (simp add: map_of_filter_keys)

lemma seen_not_gone: "k \<in> set seen \<Longrightarrow> k \<notin> set (gone seen start t)"
  by (force simp: gone_def)

text \<open>The counter of a scan, for clock readings between two bounds.\<close>

lemma sub_le_warn: "\<not> time_Sub na now > WarnWithin \<longleftrightarrow> na - now \<le> WarnWithin"
  by (auto simp: time_Sub_def minDuration_def maxDuration_def WarnWithin_def time_simps
      less_max_iff_disj min_less_iff_conj)

lemma scanEntry_soon:
  assumes "scanEntry x pf (t, soon, seen, w) (k, na) = (t', soon', seen', w')"
  shows "\<exists>v. soon' = soon + (if na - fst (timeNow pf v) \<le> WarnWithin then 1 else 0)"
proof -
  obtain node kind where k: "k = (node, kind)" by (cases k)
  obtain t1 w1 where s: "setSeries pf node kind na t w = (t1, w1)" by (cases "setSeries pf node kind na t w")
  obtain now w2 where n: "timeNow pf w1 = (now, w2)" by (cases "timeNow pf w1")
  have "soon' = soon + (if na - now \<le> WarnWithin then 1 else 0)"
    using assms s n k sub_le_warn [of na now] by (auto simp: scanEntry_def Let_def split: if_splits)
  then show ?thesis using n by (intro exI [of _ w1]) simp
qed

lemma scan_soon:
  assumes "\<And>v. a \<le> fst (timeNow pf v) \<and> fst (timeNow pf v) \<le> b"
  shows "foldl (scanEntry x pf) (t, soon, seen, w) es = (t', soon', seen', w') \<Longrightarrow>
    soon + length (filter (\<lambda>(_, na). na - a \<le> WarnWithin) es) \<le> soon' \<and>
    soon' \<le> soon + length (filter (\<lambda>(_, na). na - b \<le> WarnWithin) es)"
proof (induction es arbitrary: t soon seen w)
  case (Cons e es)
  obtain k na where e: "e = (k, na)" by (cases e)
  obtain t1 s1 n1 w1 where st: "scanEntry x pf (t, soon, seen, w) e = (t1, s1, n1, w1)"
    by (metis prod.collapse)
  obtain v where v: "s1 = soon + (if na - fst (timeNow pf v) \<le> WarnWithin then 1 else 0)"
    using scanEntry_soon [OF st [unfolded e]] by blast
  have "foldl (scanEntry x pf) (t1, s1, n1, w1) es = (t', soon', seen', w')" using Cons.prems st by simp
  from Cons.IH [OF this] show ?case using v assms [of v] e by (auto split: if_splits)
qed simp

text \<open>A whole scan.\<close>

lemma scan_exports:
  assumes "tracker_inv t" and "timeNow pf w = (start, w1)"
    and "listSecrets pf Namespace managedByLabel w1 = (Inr secs, w2)" and "scan x pf t w = (t', w')"
  shows "tracker_inv t' \<and>
    (\<forall>k. map_of (CertExpirySeconds t') k \<noteq> None \<longleftrightarrow>
       k \<in> fst ` set (entries secs) \<or> (\<exists>at. map_of (tr_series t) k = Some at \<and> start < at)) \<and>
    (\<forall>k. k \<in> fst ` set (entries secs) \<longrightarrow>
       (\<exists>na. (k, na) \<in> set (entries secs) \<and> map_of (CertExpirySeconds t') k = Some (unix na)))"
proof -
  obtain t1 soon seen w3 where f: "foldl (scanEntry x pf) (t, 0, [], w2) (entries secs) = (t1, soon, seen, w3)"
    by (metis prod.collapse)
  let ?t1 = "t1\<lparr>CertsExpiringSoon := soon\<rparr>"
  have t': "t' = pruneSeries seen start ?t1" using assms(2-4) f by (simp add: scan_def)
  note fold = scan_fold [OF f]
  have seen: "set seen = fst ` set (entries secs)" using conjunct1 [OF fold] by simp
  have ser: "fst ` set (tr_series ?t1) = fst ` set (tr_series t) \<union> fst ` set (entries secs)" using fold by simp
  have same: "map_of (tr_series ?t1) k = map_of (tr_series t) k" if "k \<notin> fst ` set (entries secs)" for k
    using fold that by (metis tracker.select_convs(1) tracker.surjective tracker.update_convs(4))
  have vals: "\<exists>na. (k, na) \<in> set (entries secs) \<and> map_of (CertExpirySeconds ?t1) k = Some (unix na)"
    if "k \<in> fst ` set (entries secs)" for k
    using fold that by (metis tracker.select_convs(2) tracker.surjective tracker.update_convs(4))
  have "tracker_inv t1" using fold assms(1) by blast
  then have inv1: "tracker_inv ?t1" by (simp add: tracker_inv_def)
  then have inv: "tracker_inv t'" unfolding t' by (rule pruneSeries_inv)
  then have dom: "map_of (CertExpirySeconds t') k \<noteq> None \<longleftrightarrow> k \<in> fst ` set (tr_series t')" for k
    by (simp add: inv_keys del: split_paired_Ex)
  have d1: "distinct (map fst (tr_series ?t1))" using inv1 by (simp add: tracker_inv_def)
  have keys: "k \<in> fst ` set (tr_series t') \<longleftrightarrow>
      k \<in> fst ` set (entries secs) \<or> (\<exists>at. map_of (tr_series t) k = Some at \<and> start < at)" for k
  proof (cases "k \<in> fst ` set (entries secs)")
    case True
    then have "k \<in> fst ` set (tr_series ?t1)" "k \<in> set seen" unfolding ser seen by blast+
    then obtain at where "map_of (tr_series ?t1) k = Some at" unfolding key_iff by blast
    then have "k \<in> fst ` set (tr_series t')" using \<open>k \<in> set seen\<close> unfolding t' pruned_keys [OF d1] by blast
    then show ?thesis using True by blast
  next
    case False
    then have "map_of (tr_series ?t1) k = map_of (tr_series t) k" "k \<notin> set seen"
      using same seen by blast+
    then have "k \<in> fst ` set (tr_series t') \<longleftrightarrow> (\<exists>at. map_of (tr_series t) k = Some at \<and> start < at)"
      unfolding t' pruned_keys [OF d1] by simp
    then show ?thesis using False by blast
  qed
  have "\<exists>na. (k, na) \<in> set (entries secs) \<and> map_of (CertExpirySeconds t') k = Some (unix na)"
    if "k \<in> fst ` set (entries secs)" for k
  proof -
    have "k \<notin> set (gone seen start ?t1)" using that seen by (intro seen_not_gone) blast
    then have "map_of (CertExpirySeconds t') k = map_of (CertExpirySeconds ?t1) k" unfolding t' by (rule pruned_values)
    then show ?thesis using vals [OF that] by presburger
  qed
  note exported = this
  show ?thesis
  proof (intro conjI allI impI)
    show "tracker_inv t'" by (rule inv)
    show "map_of (CertExpirySeconds t') k \<noteq> None \<longleftrightarrow>
        k \<in> fst ` set (entries secs) \<or> (\<exists>at. map_of (tr_series t) k = Some at \<and> start < at)" for k
      unfolding dom keys by (rule refl)
  qed (rule exported)
qed

section \<open>What the tracker guarantees\<close>

text \<open>
  (C30) After a scan that could list the Secrets, the exported series are exactly those of the
  expiry annotations found plus those recorded since the scan started: every annotated
  certificate is exported with an annotated expiry, a series set after the start keeps its value,
  and every other series, of a node that is gone, is removed.
\<close>

theorem scan_series_exact:
  assumes "tracker_inv t" and "timeNow pf w = (start, w1)"
    and "listSecrets pf Namespace managedByLabel w1 = (Inr secs, w2)" and "scan x pf t w = (t', w')"
  shows "tracker_inv t' \<and>
    (\<forall>k. map_of (CertExpirySeconds t') k \<noteq> None \<longleftrightarrow>
       k \<in> fst ` set (entries secs) \<or> (\<exists>at. map_of (tr_series t) k = Some at \<and> start < at)) \<and>
    (\<forall>k. k \<in> fst ` set (entries secs) \<longrightarrow>
       (\<exists>na. (k, na) \<in> set (entries secs) \<and> map_of (CertExpirySeconds t') k = Some (unix na)))"
  by (rule scan_exports [OF assms])

definition plain_texts :: texts where
  "plain_texts = \<lparr>tx_isDNS1123 = (\<lambda>s. if length s \<le> 253 then [] else [''must be no more than 253 characters''])\<rparr>"

definition mem_annotated :: mem where
  "mem_annotated = mem_empty\<lparr>m_secrets := [((Namespace, SecretName ''n1''),
     (newSecret (SecretName ''n1'') ''h'')\<lparr>sec_annotations := [(annotationPrefix @ ''client-kubelet'', ''0001-01-01T00:00:07Z'')]\<rparr>)]\<rparr>"

lemma trim_n1: "trimSuffix (SecretName ''n1'') ''.node-password.rke2'' = ''n1''"
  by (simp add: SecretName_def nameSuffix_def trimSuffix_def hasSuffix_def)

lemma parse_7: "timeParse ''0001-01-01T00:00:07Z'' = Some 7000000000"
  by code_simp

lemma mem_annotated_entries:
  "listSecrets mem_platform Namespace managedByLabel (mem_annotated\<lparr>m_clock := 1\<rparr>) =
     (Inr (map snd (m_secrets mem_annotated)), mem_annotated\<lparr>m_clock := 1\<rparr>)"
  "entries (map snd (m_secrets mem_annotated)) = [((''n1'', ''client-kubelet''), 7000000000)]"
  by (simp_all add: mem_platform_def mem_annotated_def newSecret_def managedByLabel_def entries_def trim_n1
      map_filter_simps expiryOf_def parse_7 trimPrefix_def mem_empty_def)

theorem scan_series_exact_witness:
  "\<exists>t' w'. scan plain_texts mem_platform NewTracker mem_annotated = (t', w') \<and>
     map_of (CertExpirySeconds t') (''n1'', ''client-kubelet'') = Some (unix 7000000000)"
proof -
  obtain t' w' where s: "scan plain_texts mem_platform NewTracker mem_annotated = (t', w')"
    by (cases "scan plain_texts mem_platform NewTracker mem_annotated")
  have "tracker_inv NewTracker" by (simp add: tracker_inv_def NewTracker_def)
  moreover have "timeNow mem_platform mem_annotated = (0, mem_annotated\<lparr>m_clock := 1\<rparr>)"
    by (simp add: mem_annotated_def mem_empty_def)
  ultimately show ?thesis
    using scan_series_exact [OF _ _ mem_annotated_entries(1) s] s by (simp add: mem_annotated_entries(2))
qed

text \<open>
  The number of certificates reported as expiring soon: when the clock reads between \<open>a\<close> and
  \<open>b\<close> during a scan, at least every annotated certificate that expires within 120 days of \<open>a\<close> is
  counted and warned about, and none that expires later than 120 days after \<open>b\<close>.
\<close>

lemma scan_counts_expiring:
  assumes "\<And>v. a \<le> fst (timeNow pf v) \<and> fst (timeNow pf v) \<le> b"
    and "timeNow pf w = (start, w1)" and "listSecrets pf Namespace managedByLabel w1 = (Inr secs, w2)"
    and "scan x pf t w = (t', w')"
  shows "length (filter (\<lambda>(_, na). na - a \<le> WarnWithin) (entries secs)) \<le> CertsExpiringSoon t' \<and>
    CertsExpiringSoon t' \<le> length (filter (\<lambda>(_, na). na - b \<le> WarnWithin) (entries secs))"
proof -
  obtain t1 soon seen w3 where f: "foldl (scanEntry x pf) (t, 0, [], w2) (entries secs) = (t1, soon, seen, w3)"
    by (metis prod.collapse)
  then have "CertsExpiringSoon t' = soon" using assms(2-4) by (auto simp: scan_def pruneSeries_def Let_def)
  then show ?thesis using scan_soon [OF assms(1) f] by simp
qed

section \<open>Expiries over a restart\<close>

text \<open>
  What recording and scanning rely on of the API: a merge patch of annotations lands in the stored
  Secret and nowhere else, a list by label returns exactly the Secrets that carry it, and object
  keys are unique. This is an API that does its work; RecordIssued and scan go on when it fails.
\<close>

definition labelled :: "string \<times> string \<Rightarrow> secret \<Rightarrow> bool" where
  "labelled l s \<longleftrightarrow> map_of (sec_labels s) (fst l) = Some (snd l)"

lemma in_map_filter: "y \<in> set (List.map_filter f xs) \<longleftrightarrow> (\<exists>x \<in> set xs. f x = Some y)"
  by (induction xs) (auto simp: map_filter_simps split: option.splits)

lemma in_entries:
  "((node, kind), na) \<in> set (entries secs) \<longleftrightarrow>
     (\<exists>s \<in> set secs. trimSuffix (sec_name s) ''.node-password.rke2'' = node \<and>
       (kind, na) \<in> set (List.map_filter expiryOf (sec_annotations s)))"
  by (induction secs) (auto simp: entries_def Let_def)

lemma expiryOf_Some: "expiryOf kv = Some (kind, na) \<longleftrightarrow> (\<exists>v. kv = (annotationPrefix @ kind, v) \<and> timeParse v = Some na)"
  by (cases kv) (auto simp: expiryOf_def hasPrefix_iff)

locale annotation_api =
  fixes pf :: "'w platform" and sv :: "'w \<Rightarrow> string \<Rightarrow> string \<Rightarrow> secret option"
    and ok :: "'w \<Rightarrow> bool"
  assumes patch_merges: "ok w \<Longrightarrow> distinct (map fst as) \<Longrightarrow> patchSecret pf ns name as w = (res, w') \<Longrightarrow> sv w ns name = Some s \<Longrightarrow>
      ok w' \<and> (\<exists>s'. sv w' = (sv w)(ns := (sv w ns)(name \<mapsto> s')) \<and> sec_labels s' = sec_labels s \<and>
        map_of (sec_annotations s') = map_of (sec_annotations s) ++ map_of as)"
    and list_labelled: "ok w \<Longrightarrow> listSecrets pf ns l w = (lres, w') \<Longrightarrow>
      \<exists>secs. lres = Inr secs \<and> set secs = {s. \<exists>name. sv w ns name = Some s \<and> labelled l s}"
    and stored_named: "ok w \<Longrightarrow> sv w ns name = Some s \<Longrightarrow> sec_name s = name \<and> distinct (map fst (sec_annotations s))"
    and clock_keeps: "ok w \<Longrightarrow> timeNow pf w = (t, w') \<Longrightarrow> ok w' \<and> sv w' = sv w"
begin

text \<open>The entry a scan finds for a Secret the shim named.\<close>

lemma entry_of_annotation:
  assumes "ok w" "listSecrets pf Namespace managedByLabel w = (Inr secs, w')"
    and "\<And>name s. sv w Namespace name = Some s \<Longrightarrow> labelled managedByLabel s \<Longrightarrow> \<exists>n. name = SecretName n"
    and "sv w Namespace (SecretName node) = Some sec" "labelled managedByLabel sec"
    and "map_of (sec_annotations sec) (annotationPrefix @ kind) = Some v" "timeParse v = Some na"
  shows "((node, kind), na') \<in> set (entries secs) \<longleftrightarrow> na' = na"
proof -
  have secs: "set secs = {s. \<exists>name. sv w Namespace name = Some s \<and> labelled managedByLabel s}"
    using list_labelled [OF assms(1,2)] by auto
  have "(\<exists>s \<in> set secs. trimSuffix (sec_name s) ''.node-password.rke2'' = node \<and>
      (kind, na') \<in> set (List.map_filter expiryOf (sec_annotations s))) \<longleftrightarrow>
      (kind, na') \<in> set (List.map_filter expiryOf (sec_annotations sec))"
    (is "?L \<longleftrightarrow> ?R")
  proof (rule iffI)
    assume ?L
    then obtain s where s: "s \<in> set secs" "trimSuffix (sec_name s) ''.node-password.rke2'' = node"
      "(kind, na') \<in> set (List.map_filter expiryOf (sec_annotations s))" by blast
    then obtain name where n: "sv w Namespace name = Some s" "labelled managedByLabel s" using secs by auto
    then obtain m where m: "name = SecretName m" using assms(3) by blast
    then have "sec_name s = m @ ''.node-password.rke2''"
      using stored_named [OF assms(1) n(1)] by (simp add: SecretName_def nameSuffix_def)
    then have "m = node" using s(2) by simp
    then show ?R using s(3) n(1) m assms(4) by simp
  next
    assume ?R
    moreover have "sec \<in> set secs" using secs assms(4,5) by blast
    moreover have "trimSuffix (sec_name sec) ''.node-password.rke2'' = node"
      using stored_named [OF assms(1,4)] by (simp add: SecretName_def nameSuffix_def)
    ultimately show ?L by blast
  qed
  moreover have "(kind, na') \<in> set (List.map_filter expiryOf (sec_annotations sec)) \<longleftrightarrow> na' = na"
  proof -
    have d: "distinct (map fst (sec_annotations sec))" using stored_named [OF assms(1,4)] by (rule conjunct2)
    note v = map_of_SomeD [OF assms(6)]
    have one: "v' = v" if "(annotationPrefix @ kind, v') \<in> set (sec_annotations sec)" for v'
      using d that v by (rule eq_key_imp_eq_value)
    have "(\<exists>kv \<in> set (sec_annotations sec). \<exists>v. kv = (annotationPrefix @ kind, v) \<and> timeParse v = Some na') \<longleftrightarrow>
        timeParse v = Some na'" using v one by metis
    then show ?thesis unfolding in_map_filter expiryOf_Some by (simp only: assms(7) option.inject eq_commute)
  qed
  ultimately show ?thesis by (simp only: in_entries)
qed

end

lemma unix_trunc: "unix (t - t mod second) = unix t"
proof -
  have "(t - t mod second) div second = t div second"
    using minus_mod_eq_div_mult [of t second] by (simp add: second_def)
  then show ?thesis by (simp add: unix_def)
qed

text \<open>
  (C29) A recorded expiry survives a restart. When RecordIssued has run for a node whose Secret
  carries the shim's label, and the label is only on Secrets named by the shim, the first scan of a
  tracker that starts from nothing on the stored Secrets exports, for that node and kind, the same
  second of expiry as was exported when the certificate was issued. This includes the trip through
  the RFC 3339 text of the annotation, for the years 1 to 9999.
\<close>

theorem expiry_survives_restart:
  assumes "annotation_api pf sv ok" and "ok w" and "sv w Namespace (SecretName node) = Some sec"
    and "labelled managedByLabel sec" and "node \<noteq> []" and "0 \<le> na" and "na < 3652059 * day"
    and "\<And>name s. sv w Namespace name = Some s \<Longrightarrow> labelled managedByLabel s \<Longrightarrow> \<exists>n. name = SecretName n"
    and "RecordIssued pf node kind na t w = (t1, w1)" and "scan x pf NewTracker w1 = (t2, w2)"
  shows "map_of (CertExpirySeconds t1) (node, kind) = Some (unix na) \<and>
    map_of (CertExpirySeconds t2) (node, kind) = Some (unix na)"
proof -
  obtain tr v0 where ser: "setSeries pf node kind na (incIssued kind t) w = (tr, v0)"
    by (cases "setSeries pf node kind na (incIssued kind t) w")
  obtain u v1 where pat: "patchSecret pf Namespace (SecretName node) [(annotationPrefix @ kind, formatRFC3339 na)] v0 = (u, v1)"
    by (cases "patchSecret pf Namespace (SecretName node) [(annotationPrefix @ kind, formatRFC3339 na)] v0")
  have r: "t1 = tr" "w1 = v1" using assms(5,9) ser pat by (simp_all add: RecordIssued_def Let_def)
  have v0: "ok v0" "sv v0 = sv w"
    using ser annotation_api.clock_keeps [OF assms(1,2)] by (auto simp: setSeries_def split: prod.splits)
  obtain sec' where s': "sv w1 = (sv w)(Namespace := (sv w Namespace)(SecretName node \<mapsto> sec'))" "sec_labels sec' = sec_labels sec"
    "map_of (sec_annotations sec') = map_of (sec_annotations sec) ++ map_of [(annotationPrefix @ kind, formatRFC3339 na)]"
    and w1: "ok w1"
    using annotation_api.patch_merges [OF assms(1) v0(1) _ pat] v0(2) assms(3) r(2) by auto
  obtain start v2 where st: "timeNow pf w1 = (start, v2)" by (cases "timeNow pf w1")
  have v2: "ok v2" "sv v2 = sv w1" using annotation_api.clock_keeps [OF assms(1) w1 st] by blast+
  obtain secs v3 where ls: "listSecrets pf Namespace managedByLabel v2 = (Inr secs, v3)"
    using annotation_api.list_labelled [OF assms(1) v2(1)] by (metis prod.collapse)
  have shim: "\<exists>n. name = SecretName n" if "sv v2 Namespace name = Some s" "labelled managedByLabel s" for name s
    using that assms(8) v2(2) s'(1) by (auto split: if_splits)
  have key: "((node, kind), na') \<in> set (entries secs) \<longleftrightarrow> na' = na - na mod second" for na'
  proof (rule annotation_api.entry_of_annotation [OF assms(1) v2(1) ls])
    show "sv v2 Namespace (SecretName node) = Some sec'" "labelled managedByLabel sec'"
      using v2(2) s'(1,2) assms(4) by (simp_all add: labelled_def)
    show "map_of (sec_annotations sec') (annotationPrefix @ kind) = Some (formatRFC3339 na)" by (simp add: s'(3))
    show "timeParse (formatRFC3339 na) = Some (na - na mod second)" by (rule formatRFC3339_parse [OF assms(6,7)])
  qed (rule shim)
  then have "(node, kind) \<in> fst ` set (entries secs)" by force
  moreover have "tracker_inv NewTracker" by (simp add: tracker_inv_def NewTracker_def)
  ultimately obtain na' where "((node, kind), na') \<in> set (entries secs)" "map_of (CertExpirySeconds t2) (node, kind) = Some (unix na')"
    using scan_exports [OF _ st ls assms(10)] by blast
  then show ?thesis using key unix_trunc setSeries_props(1) [OF ser] r(1) by simp
qed

text \<open>The in-memory API keeps these promises on worlds whose objects are named by their keys.\<close>

lemma map_of_annotate: "map_of (sec_annotations (annotate as s)) = map_of (sec_annotations s) ++ map_of as"
proof
  fix k
  have "(\<lambda>(k, _ :: string). \<not> List.member (map fst as) k) = (\<lambda>(k, _). map_of as k = None)"
    by (simp add: map_of_eq_None_iff)
  moreover have "map_of (filter (\<lambda>(k, _). P k) xs) k = (if P k then map_of xs k else None)" for P and xs :: strmap
    by (induction xs) auto
  ultimately show "map_of (sec_annotations (annotate as s)) k = (map_of (sec_annotations s) ++ map_of as) k"
    unfolding annotate_def by (simp add: map_add_def split: option.splits)
qed

lemma distinct_annotate:
  "distinct (map fst as) \<Longrightarrow> distinct (map fst (sec_annotations s)) \<Longrightarrow> distinct (map fst (sec_annotations (annotate as s)))"
  by (force simp: annotate_def distinct_map_filter)

lemma annotate_keeps [simp]: "sec_name (annotate as s) = sec_name s" "sec_labels (annotate as s) = sec_labels s"
  by (simp_all add: annotate_def)

lemma map_of_map_key:
  "map_of (map (\<lambda>(k, x). if k = a then (k, f x) else (k, x)) kvs) =
     (case map_of kvs a of None \<Rightarrow> map_of kvs | Some x \<Rightarrow> (map_of kvs)(a \<mapsto> f x))"
  by (induction kvs) (auto split: option.splits)

lemma fst_map_key: "map fst (map (\<lambda>(k, x). if k = a then (k, f x) else (k, x)) kvs) = map fst kvs"
  by (induction kvs) auto

text \<open>A stored object of a well-formed world.\<close>

definition mem_object :: "(string \<times> string) \<times> secret \<Rightarrow> bool" where
  "mem_object o1 \<longleftrightarrow> sec_name (snd o1) = snd (fst o1) \<and> distinct (map fst (sec_annotations (snd o1)))"

definition mem_wf :: "mem \<Rightarrow> bool" where
  "mem_wf w \<longleftrightarrow> distinct (map fst (m_secrets w)) \<and> list_all mem_object (m_secrets w)"

lemma mem_object_annotate:
  assumes "list_all mem_object kvs" "distinct (map fst as)"
  shows "list_all mem_object (map (\<lambda>(k, x). if k = a then (k, annotate as x) else (k, x)) kvs)"
  using assms by (induction kvs) (auto simp: mem_object_def distinct_annotate)

interpretation mem_notes: annotation_api mem_platform mem_secrets mem_wf
proof (unfold_locales, goal_cases)
  case (1 w as ns name res w' s)
  let ?l = "map (\<lambda>(k, x). if k = (ns, name) then (k, annotate as x) else (k, x)) (m_secrets w)"
  have w': "w' = w\<lparr>m_secrets := ?l\<rparr>" using 1(3,4) by (simp add: mem_platform_def)
  have "mem_wf w'"
    using 1(1) mem_object_annotate [OF _ 1(2)] by (simp add: mem_wf_def w' fst_map_key del: map_map)
  moreover have "mem_secrets w' = (mem_secrets w)(ns := (mem_secrets w ns)(name \<mapsto> annotate as s))"
    using 1(4) by (auto simp: mem_secrets_def w' map_of_map_key fun_eq_iff)
  ultimately show ?case using map_of_annotate annotate_keeps(2) by blast
next
  case (2 w ns l lres w')
  obtain k v where l: "l = (k, v)" by (cases l)
  let ?secs = "map snd (filter (\<lambda>((n, _), s). n = ns \<and> map_of (sec_labels s) k = Some v) (m_secrets w))"
  have "lres = Inr ?secs" using 2(2) by (auto simp: mem_platform_def l)
  moreover have "s \<in> set ?secs \<longleftrightarrow> (\<exists>name. ((ns, name), s) \<in> set (m_secrets w)) \<and> labelled l s" for s
    by (force simp: labelled_def l)
  moreover have "((ns, name), s) \<in> set (m_secrets w) \<longleftrightarrow> mem_secrets w ns name = Some s" for name s
    using 2(1) by (simp add: mem_wf_def mem_secrets_def)
  ultimately show ?case by blast
next
  case (3 w ns name s)
  then have "((ns, name), s) \<in> set (m_secrets w)" by (auto simp: mem_secrets_def dest: map_of_SomeD)
  then show ?case using 3(1) by (auto simp: mem_wf_def mem_object_def list_all_iff)
next
  case (4 w t w')
  then show ?case by (auto simp: mem_wf_def mem_secrets_def fun_eq_iff)
qed

theorem expiry_survives_restart_witness:
  "\<exists>t1 w1 t2 w2. RecordIssued mem_platform ''n1'' ''client-kubelet'' (9 * day + 3) NewTracker mem_annotated = (t1, w1) \<and>
     scan plain_texts mem_platform NewTracker w1 = (t2, w2) \<and>
     map_of (CertExpirySeconds t2) (''n1'', ''client-kubelet'') = Some (unix (9 * day + 3))"
proof -
  obtain t1 w1 where r: "RecordIssued mem_platform ''n1'' ''client-kubelet'' (9 * day + 3) NewTracker mem_annotated = (t1, w1)"
    by (cases "RecordIssued mem_platform ''n1'' ''client-kubelet'' (9 * day + 3) NewTracker mem_annotated")
  obtain t2 w2 where s: "scan plain_texts mem_platform NewTracker w1 = (t2, w2)"
    by (cases "scan plain_texts mem_platform NewTracker w1")
  let ?sec = "(newSecret (SecretName ''n1'') ''h'')\<lparr>sec_annotations := [(annotationPrefix @ ''client-kubelet'', ''0001-01-01T00:00:07Z'')]\<rparr>"
  have m: "mem_secrets mem_annotated ns name = (if ns = Namespace \<and> name = SecretName ''n1'' then Some ?sec else None)" for ns name
    by (simp add: mem_secrets_def mem_annotated_def)
  have w: "mem_wf mem_annotated" by (simp add: mem_wf_def mem_object_def mem_annotated_def)
  have l: "labelled managedByLabel ?sec" by (simp add: labelled_def newSecret_def managedByLabel_def)
  have "map_of (CertExpirySeconds t1) (''n1'', ''client-kubelet'') = Some (unix (9 * day + 3)) \<and>
      map_of (CertExpirySeconds t2) (''n1'', ''client-kubelet'') = Some (unix (9 * day + 3))"
  proof (rule expiry_survives_restart [OF mem_notes.annotation_api_axioms w _ l _ _ _ _ r s])
    show "mem_secrets mem_annotated Namespace (SecretName ''n1'') = Some ?sec" by (simp add: m)
    show "\<exists>n. name = SecretName n" if "mem_secrets mem_annotated Namespace name = Some s" for name s
      using that by (auto simp: m split: if_splits)
  qed (simp_all add: time_simps)
  then show ?thesis using r s by blast
qed

section \<open>Secrets the scan does not see\<close>


text \<open>The platform on which the creation of an Event about one node is something else.\<close>

definition eventsVia :: "string \<Rightarrow> (string \<Rightarrow> event \<Rightarrow> 'w \<Rightarrow> (api_error, unit) result \<times> 'w) \<Rightarrow> 'w platform \<Rightarrow> 'w platform" where
  "eventsVia node f pf = pf\<lparr>createEvent := (\<lambda>ns e. if ev_node e = node then f ns e else createEvent pf ns e)\<rparr>"

lemma eventsVia_sel [simp]:
  "timeNow (eventsVia node f pf) = timeNow pf" "listSecrets (eventsVia node f pf) = listSecrets pf"
  "patchEvent (eventsVia node f pf) = patchEvent pf"
  "createEvent (eventsVia node f pf) ns e = (if ev_node e = node then f ns e else createEvent pf ns e)"
  by (simp_all add: eventsVia_def)










end
