(* ===== verification/Cidr_Text.thy ===== *)
theory Cidr_Text
  imports Go_Net
begin

text \<open>
  The text of an address or network that parses has no white space and no comma, so what main
  checks with ParseCIDR is what the supervisor's parseCIDRs reads.
\<close>

definition cidr_char :: "char \<Rightarrow> bool" where
  "cidr_char c \<longleftrightarrow> is_hex c \<or> c = CHR '':'' \<or> c = CHR ''.'' \<or> c = CHR ''/''"

lemma digit_hex: "is_digit c \<Longrightarrow> is_hex c"
  by (simp add: is_digit_def is_hex_def hex_value_def)

lemma those_Some: "those xs = Some ys \<Longrightarrow> x \<in> set xs \<Longrightarrow> x \<noteq> None"
  by (induction xs arbitrary: ys) (auto split: option.splits)

lemma in_join: "c \<in> set (join [sep] ws) \<Longrightarrow> c = sep \<or> (\<exists>w \<in> set ws. c \<in> set w)"
  by (induction "[sep]" ws rule: join.induct) auto

lemma parseIPv4_chars:
  assumes "parseIPv4 s = Some b" "c \<in> set s"
  shows "is_digit c \<or> c = CHR ''.''"
proof -
  have "those (map parse_octet (split (CHR ''.'') s)) = Some b" using assms(1) by (auto simp: parseIPv4_def Let_def split: if_splits)
  note all = this
  have d: "list_all is_digit w" if "w \<in> set (split (CHR ''.'') s)" for w
  proof -
    have "parse_octet w \<noteq> None" using those_Some [OF all] that by simp
    then show ?thesis by (auto simp: parse_octet_def split: if_splits)
  qed
  have "c \<in> set (join [CHR ''.''] (split (CHR ''.'') s))" using assms(2) by (simp add: join_split)
  then show ?thesis using in_join d by (fastforce simp: list_all_iff)
qed

lemma v6_loop_chars:
  "v6_loop n ip ell s = Some (ip', ell', []) \<Longrightarrow> c \<in> set s \<Longrightarrow> cidr_char c"
proof (induction n ip ell s rule: v6_loop.induct)
  case (1 ip ell s)
  then show ?case by simp
next
  case (2 n ip ell s)
  have s: "c \<in> set (takeWhile is_hex s) \<or> c \<in> set (dropWhile is_hex s)"
    using 2(4) by (metis Un_iff set_append takeWhile_dropWhile_id)
  have h: "c \<in> set (takeWhile is_hex s) \<Longrightarrow> cidr_char c" by (auto dest: set_takeWhileD simp: cidr_char_def)
  have v4: "parseIPv4 s = Some b \<Longrightarrow> cidr_char c" for b
    using parseIPv4_chars [of s b c] 2(4) by (auto simp: cidr_char_def digit_hex)
  show ?case
    using 2(3) 2(1,2) s h v4
    by (simp only: v6_loop.simps Let_def)
      (auto split: if_splits list.splits option.splits simp: cidr_char_def)
qed
lemma no_space_chars: "r \<in> set space_runes \<Longrightarrow> c \<in> set r \<Longrightarrow> \<not> cidr_char c"
  by (auto simp: space_runes_def cidr_char_def is_hex_def hex_value_def)

lemma parseAddr_chars:
  assumes "parseAddr s = Some a" "c \<in> set s"
  shows "cidr_char c"
proof -
  consider b where "parseIPv4 s = Some b" | b where "parseIPv6 s = Some b"
    using assms(1) by (auto simp: parseAddr_def split: option.splits if_splits)
  then show ?thesis
  proof cases
    case 1
    then show ?thesis using parseIPv4_chars [OF 1 assms(2)] by (auto simp: cidr_char_def digit_hex)
  next
    case 2
    have fin: "v6_finish (i, e, r) = Some b \<Longrightarrow> r = []" for i e r by (simp add: v6_finish_def split: if_splits)
    show ?thesis
    proof (cases "hasPrefix s ''::''")
      case True
      then obtain t where t: "s = ''::'' @ t" by (auto simp: hasPrefix_iff)
      have "c \<in> set t \<Longrightarrow> cidr_char c"
        using 2 t by (cases "t = []") (auto simp: parseIPv6_def bind_eq_Some_conv hasPrefix_def split: if_splits dest!: fin dest: v6_loop_chars)
      then show ?thesis using assms(2) t by (auto simp: cidr_char_def)
    next
      case False
      then show ?thesis
        using 2 assms(2) by (auto simp: parseIPv6_def bind_eq_Some_conv split: if_splits dest!: fin dest: v6_loop_chars)
    qed
  qed
qed

lemma parseCIDR_chars:
  assumes "parseCIDR s = Some x"
  shows "\<forall>c \<in> set s. cidr_char c" "s \<noteq> []"
proof -
  obtain a m ad where "cutAt (CHR ''/'') s = Some (a, m)" "parseAddr a = Some ad" "list_all is_digit m"
    using assms by (auto simp: parseCIDR_def split: option.splits prod.splits if_splits)
  then show "\<forall>c \<in> set s. cidr_char c" "s \<noteq> []"
    using parseAddr_chars by (auto simp: cutAt_Some cidr_char_def list_all_iff digit_hex)
qed

lemma no_space_left:
  assumes "\<forall>c \<in> set s. cidr_char c"
  shows "space_len space_runes s = 0" "space_len (map rev space_runes) (rev s) = 0"
proof -
  have ne: "r \<noteq> []" if "r \<in> set space_runes" for r using that by (auto simp: space_runes_def)
  have "hd r \<noteq> hd s" if "r \<in> set space_runes" "s \<noteq> []" for r
    using no_space_chars [OF that(1), of "hd r"] ne [OF that(1)] assms that(2) by (metis hd_in_set)
  then show "space_len space_runes s = 0" using ne by (intro space_len_Nil_rune) auto
  have "hd (rev r) \<noteq> hd (rev s)" if "r \<in> set space_runes" "s \<noteq> []" for r
    using no_space_chars [OF that(1), of "hd (rev r)"] ne [OF that(1)] assms that(2)
    by (metis Nil_is_rev_conv hd_in_set set_rev)
  then show "space_len (map rev space_runes) (rev s) = 0" using ne by (intro space_len_Nil_rune) auto
qed

lemma parseCIDR_trimmed:
  assumes "parseCIDR s = Some x"
  shows "trimSpace s = s" "split (CHR '','') s = [s]"
proof -
  note c = parseCIDR_chars [OF assms]
  show "trimSpace s = s" using no_space_left [OF c(1)] by (simp add: trimSpace_def trim_left_id)
  have "CHR '','' \<notin> set s" using c(1) by (auto simp: cidr_char_def is_hex_def hex_value_def)
  then show "split (CHR '','') s = [s]" by (rule split_no_sep)
qed

end
