(* ===== verification/Go_Duration.thy ===== *)
theory Go_Duration
  imports Go_Float
begin

text \<open>
  Go's time.Duration as text: ParseDuration with its arithmetic in float64, Duration.String,
  Duration.Round, and the fixed-point form fmt prints a float64 in. Durations are int64
  nanoseconds. What String writes ParseDuration reads back.
\<close>

section \<open>Arithmetic on non-negative numbers\<close>

text \<open>A non-negative float64 is its mantissa and exponent; None would be infinite.\<close>

type_synonym ufloat = "(int \<times> int) option"

definition f_ratio :: "int \<times> int \<Rightarrow> int \<times> int" where
  "f_ratio x = (case x of (m, e) \<Rightarrow> if e \<ge> 0 then (m * 2 ^ nat e, 1) else (m, 2 ^ nat (- e)))"

definition f_of_nat :: "nat \<Rightarrow> ufloat" where
  "f_of_nat n = roundRat (int n) 1"

definition f_mult :: "ufloat \<Rightarrow> ufloat \<Rightarrow> ufloat" where
  "f_mult x y =
     (case (x, y) of
        (Some x, Some y) \<Rightarrow> (case (f_ratio x, f_ratio y) of ((a, b), (c, d)) \<Rightarrow> roundRat (a * c) (b * d))
      | _ \<Rightarrow> None)"

definition f_divide :: "ufloat \<Rightarrow> ufloat \<Rightarrow> ufloat" where
  "f_divide x y =
     (case (x, y) of
        (Some x, Some y) \<Rightarrow>
          (case (f_ratio x, f_ratio y) of ((a, b), (c, d)) \<Rightarrow> if c = 0 then None else roundRat (a * d) (b * c))
      | _ \<Rightarrow> None)"

definition f_add :: "ufloat \<Rightarrow> ufloat \<Rightarrow> ufloat" where
  "f_add x y =
     (case (x, y) of
        (Some x, Some y) \<Rightarrow> (case (f_ratio x, f_ratio y) of ((a, b), (c, d)) \<Rightarrow> roundRat (a * d + c * b) (b * d))
      | _ \<Rightarrow> None)"

text \<open>Conversion to an integer truncates.\<close>

definition f_trunc :: "ufloat \<Rightarrow> nat" where
  "f_trunc x = (case x of None \<Rightarrow> 0 | Some x \<Rightarrow> (case f_ratio x of (a, b) \<Rightarrow> nat (a div b)))"

section \<open>ParseDuration\<close>

text \<open>leadingInt: the digits at the front, None when they exceed 1<<63.\<close>

fun leadingInt :: "nat \<Rightarrow> string \<Rightarrow> (nat \<times> string) option" where
  "leadingInt x [] = Some (x, [])"
| "leadingInt x (c # s) =
     (if \<not> is_digit c then Some (x, c # s)
      else if x > 2 ^ 63 div 10 then None
      else let y = x * 10 + digit_value c in if y > 2 ^ 63 then None else leadingInt y s)"

text \<open>leadingFraction: digits beyond the precision are skipped. The scale is a power of ten below 1e22, exact in float64.\<close>

fun leadingFraction :: "bool \<Rightarrow> nat \<Rightarrow> nat \<Rightarrow> string \<Rightarrow> nat \<times> nat \<times> string" where
  "leadingFraction over x scale [] = (x, scale, [])"
| "leadingFraction over x scale (c # s) =
     (if \<not> is_digit c then (x, scale, c # s)
      else if over then leadingFraction True x scale s
      else if x > (2 ^ 63 - 1) div 10 then leadingFraction True x scale s
      else let y = x * 10 + digit_value c in
        if y > 2 ^ 63 then leadingFraction True x scale s else leadingFraction False y (scale * 10) s)"

definition microSign :: string where "microSign = [CHR 0xC2, CHR 0xB5]"
definition greekMu :: string where "greekMu = [CHR 0xCE, CHR 0xBC]"

definition unitMap :: "(string \<times> nat) list" where
  "unitMap =
     [(''ns'', 1), (''us'', 1000), (microSign @ ''s'', 1000), (greekMu @ ''s'', 1000), (''ms'', 1000000),
      (''s'', 1000000000), (''m'', 60000000000), (''h'', 3600000000000)]"

definition unitChar :: "char \<Rightarrow> bool" where
  "unitChar c \<longleftrightarrow> c \<noteq> CHR ''.'' \<and> \<not> is_digit c"

text \<open>The optional fraction: its digits, their scale, what follows, and whether there were any.\<close>

definition fractionPart :: "string \<Rightarrow> nat \<times> nat \<times> string \<times> bool" where
  "fractionPart s =
     (if s \<noteq> [] \<and> hd s = CHR ''.''
      then (case leadingFraction False 0 1 (tl s) of (f, scale, r) \<Rightarrow> (f, scale, r, length r \<noteq> length (tl s)))
      else (0, 1, s, False))"

text \<open>One number with its unit, as nanoseconds, and what follows it.\<close>

definition durationPart :: "string \<Rightarrow> (nat \<times> string) option" where
  "durationPart s =
     (if s = [] \<or> unitChar (hd s) then None
      else case leadingInt 0 s of
        None \<Rightarrow> None
      | Some (v, s1) \<Rightarrow>
     (case fractionPart s1 of (f, scale, s2, post) \<Rightarrow>
      let pre = (length s1 \<noteq> length s); u = takeWhile unitChar s2; r = dropWhile unitChar s2 in
      if \<not> pre \<and> \<not> post then None
      else if u = [] then None
      else case map_of unitMap u of
        None \<Rightarrow> None
      | Some unit \<Rightarrow>
          if v > 2 ^ 63 div unit then None
          else let v' = v * unit + (if f > 0 then f_trunc (f_mult (f_of_nat f) (f_divide (f_of_nat unit) (f_of_nat scale))) else 0) in
            if f > 0 \<and> v' > 2 ^ 63 then None else Some (v', r)))"

lemma leadingInt_length: "leadingInt x s = Some (v, r) \<Longrightarrow> length r \<le> length s"
  by (induction x s rule: leadingInt.induct) (auto simp: Let_def split: if_splits)

lemma leadingFraction_length: "leadingFraction over x scale s = (f, sc, r) \<Longrightarrow> length r \<le> length s"
  by (induction over x scale s rule: leadingFraction.induct) (auto simp: Let_def split: if_splits)

lemma durationPart_shrinks:
  assumes "durationPart s = Some (v, r)" shows "length r < length s"
proof -
  obtain v1 s1 where 1: "leadingInt 0 s = Some (v1, s1)"
    using assms by (auto simp: durationPart_def split: if_splits option.splits)
  obtain f sc s2 post where 2: "fractionPart s1 = (f, sc, s2, post)" by (cases "fractionPart s1")
  have "length s2 \<le> length s1"
    using 2 leadingFraction_length [of False 0 1 "tl s1" f sc s2] by (auto simp: fractionPart_def split: if_splits prod.splits)
  moreover have "r = dropWhile unitChar s2" "takeWhile unitChar s2 \<noteq> []"
    using assms 1 2 by (auto simp: durationPart_def Let_def split: if_splits option.splits)
  moreover have "length (takeWhile unitChar s2) + length (dropWhile unitChar s2) = length s2"
    by (metis length_append takeWhile_dropWhile_id)
  ultimately show ?thesis using leadingInt_length [OF 1] by (cases "takeWhile unitChar s2") auto
qed

text \<open>The sum is a uint64.\<close>

function durationSum :: "nat \<Rightarrow> string \<Rightarrow> nat option" where
  "durationSum d s =
     (if s = [] then Some d
      else case durationPart s of
        None \<Rightarrow> None
      | Some (v, r) \<Rightarrow> let d' = (d + v) mod 2 ^ 64 in if d' > 2 ^ 63 then None else durationSum d' r)"
  by pat_completeness auto
termination
  by (relation "measure (\<lambda>(d, s). length s)") (auto dest: durationPart_shrinks)

declare durationSum.simps [simp del]

definition parseDuration :: "string \<Rightarrow> int option" where
  "parseDuration orig =
     (let (neg, s) = (case orig of
            c # r \<Rightarrow> if c = CHR ''-'' then (True, r) else if c = CHR ''+'' then (False, r) else (False, orig)
          | [] \<Rightarrow> (False, [])) in
      if s = ''0'' then Some 0
      else if s = [] then None
      else case durationSum 0 s of
        None \<Rightarrow> None
      | Some d \<Rightarrow> if neg then Some (- int d) else if d > 2 ^ 63 - 1 then None else Some (int d))"

section \<open>String\<close>

text \<open>fmtFrac: the fraction without trailing zeros, written from its end, and the integer part.\<close>

fun fmtFrac :: "nat \<Rightarrow> nat \<Rightarrow> bool \<Rightarrow> string \<Rightarrow> string \<times> nat" where
  "fmtFrac 0 v print buf = (if print then CHR ''.'' # buf else buf, v)"
| "fmtFrac (Suc i) v print buf =
     (let digit = v mod 10; print' = (print \<or> digit \<noteq> 0) in
      fmtFrac i (v div 10) print' (if print' then digit_char digit # buf else buf))"

definition fmtUnits :: "nat \<Rightarrow> nat \<Rightarrow> string \<Rightarrow> string" where
  "fmtUnits prec u unit = (case fmtFrac prec u False unit of (buf, v) \<Rightarrow> dec_of_nat v @ buf)"

definition fmtClock :: "nat \<Rightarrow> string" where
  "fmtClock u =
     (case fmtFrac 9 u False ''s'' of (buf, secs) \<Rightarrow>
        (let m = secs div 60; h = m div 60 in
         (if h > 0 then dec_of_nat h @ ''h'' else []) @
         (if m > 0 then dec_of_nat (m mod 60) @ ''m'' else []) @ dec_of_nat (secs mod 60) @ buf))"

definition fmtPositive :: "nat \<Rightarrow> string" where
  "fmtPositive u =
     (if u < 1000 then fmtUnits 0 u ''ns''
      else if u < 1000000 then fmtUnits 3 u (microSign @ ''s'')
      else if u < 1000000000 then fmtUnits 6 u ''ms''
      else fmtClock u)"

definition durationString :: "int \<Rightarrow> string" where
  "durationString d = (if d = 0 then ''0s'' else (if d < 0 then ''-'' else []) @ fmtPositive (nat \<bar>d\<bar>))"

section \<open>Round and fixed-point text\<close>

text \<open>Duration.Round: halves away from zero, saturating; a multiple that is not positive changes nothing.\<close>

definition duration_Round :: "int \<Rightarrow> int \<Rightarrow> int" where
  "duration_Round d m =
     (if m \<le> 0 then d
      else let r = \<bar>d\<bar> mod m in
        if d < 0 then (if 2 * r < m then d + r else if d - m + r < - (2 ^ 63) then - (2 ^ 63) else d - m + r)
        else (if 2 * r < m then d - r else if d + m - r > 2 ^ 63 - 1 then 2 ^ 63 - 1 else d + m - r))"

text \<open>fmt's %.1f: the exact value rounded to one decimal, ties to even.\<close>

definition fixed1 :: "ufloat \<Rightarrow> string" where
  "fixed1 x =
     (case x of
        None \<Rightarrow> ''+Inf''
      | Some x \<Rightarrow> (case f_ratio x of (a, b) \<Rightarrow>
          let n = nat (half_even (a * 10) b) in dec_of_nat (n div 10) @ ''.'' @ dec_of_nat (n mod 10)))"

section \<open>Exact arithmetic\<close>

definition f_value :: "int \<times> int \<Rightarrow> real" where
  "f_value x = real_of_int (fst x) * 2 powi snd x"

lemma f_ratio_value:
  assumes "f_ratio x = (a, b)" "0 \<le> fst x"
  shows "0 < b \<and> 0 \<le> a \<and> real_of_int a / real_of_int b = f_value x"
  using assms by (cases x) (auto simp: f_ratio_def f_value_def power_int_def field_simps split: if_splits)

text \<open>Integers below 1<<53 are numbers.\<close>

lemma canonical_of_nat:
  assumes "0 < n" "n < 2 ^ 53"
  shows "\<exists>m e. f_canonical m e \<and> real_of_int m * 2 powi e = real_of_int n"
proof -
  let ?k = "nat (53 - bitlen n)"
  have b: "2 ^ nat (bitlen n - 1) \<le> n" "n < 2 ^ nat (bitlen n)" using bitlen_bounds [OF assms(1)] by auto
  have "2 ^ nat (bitlen n - 1) < (2 :: int) ^ 53" using b(1) assms(2) by linarith
  then have "nat (bitlen n - 1) < 53" by (rule power_less_imp_less_exp [rotated]) simp
  moreover have p: "0 < bitlen n" using assms(1) by (simp add: bitlen_alt_def)
  ultimately have k: "nat (bitlen n - 1) + ?k = 52" "nat (bitlen n) + ?k = 53" "53 - bitlen n \<ge> 0" by auto
  have "2 ^ 52 \<le> n * 2 ^ ?k" using mult_right_mono [OF b(1), of "2 ^ ?k"] k(1) by (simp add: power_add [symmetric])
  moreover have "n * 2 ^ ?k < 2 ^ 53" using mult_strict_right_mono [OF b(2), of "2 ^ ?k"] k(2) by (simp add: power_add [symmetric])
  ultimately have "f_canonical (n * 2 ^ ?k) (bitlen n - 53)" using assms(1) p k(3) by (simp add: f_canonical_def)
  moreover have "real_of_int (n * 2 ^ ?k) * 2 powi (bitlen n - 53) = real_of_int n"
    using k(3) by (simp add: power_int_def field_simps)
  ultimately show ?thesis by blast
qed

lemma roundRat_nat:
  assumes "0 \<le> a" "0 < b" "real_of_int a / real_of_int b = real n" "n < 2 ^ 53"
  shows "\<exists>x. roundRat a b = Some x \<and> 0 \<le> fst x \<and> f_value x = real n"
proof (cases "n = 0")
  case True
  then have "a = 0" using assms(2,3) by simp
  then show ?thesis using True by (simp add: roundRat_def f_value_def)
next
  case False
  have "int n < 2 ^ 53" using assms(4) by simp
  then obtain m e where c: "f_canonical m e" "real_of_int m * 2 powi e = real n" using canonical_of_nat [of "int n"] False by auto
  have "m \<noteq> 0" using c(2) False by auto
  then have "roundRat a b = Some (m, e)" using roundRat_exact [OF assms(1,2) c(1)] assms(3) c(2) by simp
  then show ?thesis using c by (simp add: f_value_def f_canonical_def)
qed

lemma f_of_nat_exact: "n < 2 ^ 53 \<Longrightarrow> \<exists>x. f_of_nat n = Some x \<and> 0 \<le> fst x \<and> f_value x = real n"
  unfolding f_of_nat_def by (rule roundRat_nat) simp_all

lemma f_divide_exact:
  assumes "0 \<le> fst x" "0 \<le> fst y" "f_value x = real k * f_value y" "0 < f_value y" "k < 2 ^ 53"
  shows "\<exists>z. f_divide (Some x) (Some y) = Some z \<and> 0 \<le> fst z \<and> f_value z = real k"
proof -
  obtain a b c d where r: "f_ratio x = (a, b)" "f_ratio y = (c, d)" by (cases "f_ratio x"; cases "f_ratio y")
  note v = f_ratio_value [OF r(1) assms(1)] f_ratio_value [OF r(2) assms(2)]
  have c: "0 < c" using v(2) assms(4) by (auto simp: zero_less_divide_iff dest!: sym [of _ "f_value y"])
  have "real_of_int (a * d) / real_of_int (b * c) = (real_of_int a / real_of_int b) / (real_of_int c / real_of_int d)" by simp
  also have "\<dots> = real k" using v assms(3,4) by simp
  finally have q: "real_of_int (a * d) / real_of_int (b * c) = real k" .
  have "0 \<le> a * d" "0 < b * c" using v c by simp_all
  from roundRat_nat [OF this q assms(5)] show ?thesis using r c by (simp add: f_divide_def)
qed

lemma f_mult_exact:
  assumes "0 \<le> fst x" "0 \<le> fst y" "f_value x * f_value y = real k" "k < 2 ^ 53"
  shows "\<exists>z. f_mult (Some x) (Some y) = Some z \<and> 0 \<le> fst z \<and> f_value z = real k"
proof -
  obtain a b c d where r: "f_ratio x = (a, b)" "f_ratio y = (c, d)" by (cases "f_ratio x"; cases "f_ratio y")
  note v = f_ratio_value [OF r(1) assms(1)] f_ratio_value [OF r(2) assms(2)]
  have "real_of_int (a * c) / real_of_int (b * d) = (real_of_int a / real_of_int b) * (real_of_int c / real_of_int d)" by simp
  also have "\<dots> = real k" using v assms(3) by simp
  finally have q: "real_of_int (a * c) / real_of_int (b * d) = real k" .
  have "0 \<le> a * c" "0 < b * d" using v by simp_all
  from roundRat_nat [OF this q assms(4)] show ?thesis using r by (simp add: f_mult_def)
qed

lemma f_trunc_exact:
  assumes "0 \<le> fst x" "f_value x = real k" shows "f_trunc (Some x) = k"
proof -
  obtain a b where r: "f_ratio x = (a, b)" by (cases "f_ratio x")
  note v = f_ratio_value [OF r assms(1)]
  then have "\<lfloor>real_of_int a / real_of_int b\<rfloor> = int k" using assms(2) by simp
  then have "a div b = int k" by (simp add: floor_divide_of_int_eq)
  then show ?thesis using r by (simp add: f_trunc_def)
qed

text \<open>A fraction of a unit its scale divides is exact.\<close>

lemma fraction_exact:
  assumes "unit = k * scale" "0 < unit" "f * k < 2 ^ 53" "unit < 2 ^ 53"
  shows "f_trunc (f_mult (f_of_nat f) (f_divide (f_of_nat unit) (f_of_nat scale))) = f * k"
proof -
  have pos: "0 < k" "0 < scale" using assms(1,2) by (auto intro: ccontr)
  have "f \<le> f * k" "scale \<le> unit" "k \<le> unit" using pos assms(1) by simp_all
  then have lt: "f < 2 ^ 53" "scale < 2 ^ 53" "k < 2 ^ 53" using assms(3,4) by linarith+
  obtain x where x: "f_of_nat f = Some x" "0 \<le> fst x" "f_value x = real f" using f_of_nat_exact [OF lt(1)] by blast
  obtain y where y: "f_of_nat scale = Some y" "0 \<le> fst y" "f_value y = real scale" using f_of_nat_exact [OF lt(2)] by blast
  obtain u where u: "f_of_nat unit = Some u" "0 \<le> fst u" "f_value u = real unit" using f_of_nat_exact [OF assms(4)] by blast
  obtain q where q: "f_divide (Some u) (Some y) = Some q" "0 \<le> fst q" "f_value q = real k"
    using f_divide_exact [OF u(2) y(2) _ _ lt(3)] u(3) y(3) pos(2) assms(1) by auto
  obtain z where z: "f_mult (Some x) (Some q) = Some z" "0 \<le> fst z" "f_value z = real (f * k)"
    using f_mult_exact [OF x(2) q(2) _ assms(3)] x(3) q(3) by auto
  show ?thesis using f_trunc_exact [OF z(2,3)] by (simp only: x(1) y(1) u(1) q(1) z(1))
qed

section \<open>What String writes is read back\<close>

abbreviation digits_value :: "nat \<Rightarrow> string \<Rightarrow> nat" where
  "digits_value x ds \<equiv> foldl (\<lambda>acc c. acc * 10 + digit_value c) x ds"

lemma leadingInt_digits:
  "list_all is_digit ds \<Longrightarrow> rest = [] \<or> \<not> is_digit (hd rest) \<Longrightarrow> digits_value x ds \<le> 2 ^ 63 \<Longrightarrow>
     leadingInt x (ds @ rest) = Some (digits_value x ds, rest)"
proof (induction ds arbitrary: x)
  case Nil
  then show ?case by (cases rest) auto
next
  case (Cons c ds)
  have y: "x * 10 + digit_value c \<le> 2 ^ 63"
    using Cons.prems(3) foldl_digits_mono [of "x * 10 + digit_value c" ds] by simp
  then have "x \<le> 2 ^ 63 div 10" by (simp add: less_eq_div_iff_mult_less_eq)
  then show ?case using Cons y by (simp add: Let_def not_less)
qed

lemma leadingFraction_digits:
  "list_all is_digit ds \<Longrightarrow> rest = [] \<or> \<not> is_digit (hd rest) \<Longrightarrow> digits_value x ds \<le> 2 ^ 63 - 1 \<Longrightarrow>
     leadingFraction False x scale (ds @ rest) = (digits_value x ds, scale * 10 ^ length ds, rest)"
proof (induction ds arbitrary: x scale)
  case Nil
  then show ?case by (cases rest) auto
next
  case (Cons c ds)
  let ?y = "x * 10 + digit_value c"
  have v: "digits_value ?y ds \<le> 2 ^ 63 - 1" using Cons.prems(3) by simp
  then have y: "?y \<le> 2 ^ 63 - 1" using foldl_digits_mono [of ?y ds] by (rule order_trans [rotated])
  then have "x * 10 \<le> 2 ^ 63 - 1" by linarith
  then have "\<not> (2 ^ 63 - 1) div 10 < x" "\<not> 2 ^ 63 < ?y" using y by linarith+
  moreover have "leadingFraction False ?y (scale * 10) (ds @ rest) = (digits_value ?y ds, scale * 10 * 10 ^ length ds, rest)"
    using Cons.IH [OF _ Cons.prems(2) v] Cons.prems(1) by simp
  ultimately show ?case using Cons.prems(1) by (simp only: append_Cons leadingFraction.simps list.pred_inject(2) Let_def if_False
      not_True_eq_False foldl_Cons length_Cons power_Suc mult.assoc simp_thms)
qed

text \<open>The fraction of a unit, as text: nothing, or a point and digits that make up the nanoseconds.\<close>

definition fraction_text :: "nat \<Rightarrow> string \<Rightarrow> nat \<Rightarrow> bool" where
  "fraction_text unit fr n \<longleftrightarrow>
     fr = [] \<and> n = 0 \<or>
     (\<exists>ds k. fr = CHR ''.'' # ds \<and> ds \<noteq> [] \<and> list_all is_digit ds \<and> unit = k * 10 ^ length ds \<and> n = dec_value ds * k \<and> n < unit)"

lemma fractionPart_text:
  assumes "fraction_text unit fr n" "0 < unit" "unit < 2 ^ 53" "u \<noteq> []" "list_all unitChar u"
  shows "\<exists>f scale post. fractionPart (fr @ u @ rest) = (f, scale, u @ rest, post) \<and>
    (if f > 0 then f_trunc (f_mult (f_of_nat f) (f_divide (f_of_nat unit) (f_of_nat scale))) else 0) = n"
proof -
  obtain c r where u: "u = c # r" "unitChar c" using assms(4,5) by (cases u) auto
  show ?thesis
  proof (cases "fr = []")
    case True
    then show ?thesis using assms(1) u by (auto simp: fraction_text_def fractionPart_def unitChar_def)
  next
    case False
    then obtain ds k where d: "fr = CHR ''.'' # ds" "ds \<noteq> []" "list_all is_digit ds" "unit = k * 10 ^ length ds" "n = dec_value ds * k" "n < unit"
      using assms(1) by (auto simp: fraction_text_def)
    have k: "0 < k" using d(4) assms(2) by (auto intro: ccontr)
    then have "dec_value ds \<le> n" using d(5) by simp
    then have "digits_value 0 ds \<le> 2 ^ 63 - 1" using d(6) assms(3) by (simp add: dec_value_def)
    then have "leadingFraction False 0 1 (ds @ u @ rest) = (dec_value ds, 10 ^ length ds, u @ rest)"
      using leadingFraction_digits [OF d(3), of "u @ rest" 0 1] u by (simp add: unitChar_def dec_value_def)
    moreover have "f_trunc (f_mult (f_of_nat (dec_value ds)) (f_divide (f_of_nat unit) (f_of_nat (10 ^ length ds)))) = n"
      using fraction_exact [OF d(4) assms(2) _ assms(3), of "dec_value ds"] d(5,6) assms(3) by simp
    ultimately show ?thesis using d(1,5) by (auto simp: fractionPart_def)
  qed
qed

lemma durationPart_text:
  assumes "map_of unitMap u = Some unit" "u \<noteq> []" "list_all unitChar u" "rest = [] \<or> \<not> unitChar (hd rest)"
    and "fraction_text unit fr n" "v * unit + n \<le> 2 ^ 63" "0 < unit" "unit < 2 ^ 53"
  shows "durationPart (dec_of_nat v @ fr @ u @ rest) = Some (v * unit + n, rest)"
proof -
  let ?s = "dec_of_nat v @ fr @ u @ rest"
  obtain f scale post where f: "fractionPart (fr @ u @ rest) = (f, scale, u @ rest, post)"
    "(if f > 0 then f_trunc (f_mult (f_of_nat f) (f_divide (f_of_nat unit) (f_of_nat scale))) else 0) = n"
    using fractionPart_text [OF assms(5,7,8,2,3)] by blast
  obtain c r where c: "dec_of_nat v = c # r" "is_digit c"
    using dec_of_nat_all_digits [of v] by (cases "dec_of_nat v") auto
  have "v \<le> v * unit" using assms(7) by simp
  then have v: "digits_value 0 (dec_of_nat v) \<le> 2 ^ 63" using assms(6) dec_value_dec_of_nat [of v] unfolding dec_value_def by linarith
  have h: "\<not> is_digit (hd (fr @ u @ rest))"
    using assms(2,3,5) by (cases u) (auto simp: fraction_text_def unitChar_def is_digit_def)
  have l: "leadingInt 0 ?s = Some (v, fr @ u @ rest)"
    using leadingInt_digits [OF dec_of_nat_all_digits _ v] h dec_value_dec_of_nat [of v] by (simp add: dec_value_def)
  have tw: "takeWhile unitChar (u @ rest) = u" "dropWhile unitChar (u @ rest) = rest"
    using assms(3,4) by (induction u; cases rest; simp)+
  have "v \<le> 2 ^ 63 div unit" using assms(6,7) by (simp add: less_eq_div_iff_mult_less_eq)
  moreover have "hd ?s = c" "?s \<noteq> []" "\<not> unitChar c" "length (fr @ u @ rest) \<noteq> length ?s" using c by (auto simp: unitChar_def)
  ultimately show ?thesis
    using l f tw assms(1,2,6) by (simp add: durationPart_def Let_def not_less)
qed

text \<open>fmtFrac once it prints, and until then.\<close>

lemma fmtFrac_prints:
  "\<exists>ds. fmtFrac i v True buf = (CHR ''.'' # ds @ buf, v div 10 ^ i) \<and> list_all is_digit ds \<and> length ds = i \<and> dec_value ds = v mod 10 ^ i"
proof (induction i arbitrary: v buf)
  case 0
  then show ?case by (simp add: dec_value_def)
next
  case (Suc i)
  let ?c = "digit_char (v mod 10)"
  obtain ds where d: "fmtFrac i (v div 10) True (?c # buf) = (CHR ''.'' # ds @ ?c # buf, v div 10 div 10 ^ i)" "list_all is_digit ds"
    "length ds = i" "dec_value ds = (v div 10) mod 10 ^ i" using Suc.IH by blast
  have "v mod 10 ^ Suc i = (v div 10 mod 10 ^ i) * 10 + v mod 10" by (simp add: mod_mult2_eq)
  then have "dec_value (ds @ [?c]) = v mod 10 ^ Suc i" using d(4) digit_char_props [of "v mod 10"] by (simp add: dec_value_snoc)
  then show ?case
    using d digit_char_props [of "v mod 10"]
    by (intro exI [of _ "ds @ [?c]"]) (simp add: Let_def div_mult2_eq)
qed

lemma fmtFrac_silent:
  "(v mod 10 ^ i = 0 \<and> fmtFrac i v False buf = (buf, v div 10 ^ i)) \<or>
   (\<exists>ds. fmtFrac i v False buf = (CHR ''.'' # ds @ buf, v div 10 ^ i) \<and> ds \<noteq> [] \<and> list_all is_digit ds \<and> length ds \<le> i \<and>
      dec_value ds * 10 ^ (i - length ds) = v mod 10 ^ i)"
proof (induction i arbitrary: v)
  case (Suc i)
  have m: "v mod 10 ^ Suc i = (v div 10 mod 10 ^ i) * 10 + v mod 10" by (simp add: mod_mult2_eq)
  show ?case
  proof (cases "v mod 10 = 0")
    case True
    then have e: "fmtFrac (Suc i) v False buf = fmtFrac i (v div 10) False buf" by simp
    from Suc.IH [of "v div 10"] show ?thesis
    proof (elim disjE exE conjE)
      fix ds assume d: "fmtFrac i (v div 10) False buf = (CHR ''.'' # ds @ buf, v div 10 div 10 ^ i)" "ds \<noteq> []"
        "list_all is_digit ds" "length ds \<le> i" "dec_value ds * 10 ^ (i - length ds) = v div 10 mod 10 ^ i"
      have "dec_value ds * 10 ^ (Suc i - length ds) = v mod 10 ^ Suc i" using d(4,5) m True by (simp add: Suc_diff_le)
      then show ?thesis using d e by (intro disjI2 exI [of _ ds]) (simp add: div_mult2_eq)
    qed (use e m True in \<open>simp add: div_mult2_eq\<close>)
  next
    case False
    let ?c = "digit_char (v mod 10)"
    obtain ds where d: "fmtFrac i (v div 10) True (?c # buf) = (CHR ''.'' # ds @ ?c # buf, v div 10 div 10 ^ i)" "list_all is_digit ds"
      "length ds = i" "dec_value ds = (v div 10) mod 10 ^ i" using fmtFrac_prints by blast
    have "dec_value (ds @ [?c]) = v mod 10 ^ Suc i" using d(4) m digit_char_props [of "v mod 10"] by (simp add: dec_value_snoc)
    then show ?thesis
      using d False digit_char_props [of "v mod 10"]
      by (intro disjI2 exI [of _ "ds @ [?c]"]) (simp add: Let_def div_mult2_eq)
  qed
qed simp

lemma fmtFrac_text:
  assumes "unit = 10 ^ i" shows "\<exists>fr. fmtFrac i v False buf = (fr @ buf, v div unit) \<and> fraction_text unit fr (v mod unit)"
  using fmtFrac_silent [of v i buf]
proof (elim disjE exE conjE)
  fix ds assume d: "fmtFrac i v False buf = (CHR ''.'' # ds @ buf, v div 10 ^ i)" "ds \<noteq> []" "list_all is_digit ds" "length ds \<le> i"
    "dec_value ds * 10 ^ (i - length ds) = v mod 10 ^ i"
  have "unit = 10 ^ (i - length ds) * 10 ^ length ds" using d(4) assms by (simp add: power_add [symmetric])
  then show ?thesis
    using d assms by (intro exI [of _ "CHR ''.'' # ds"]) (auto simp: fraction_text_def)
qed (use assms in \<open>auto simp: fraction_text_def\<close>)

lemma unit_facts:
  "map_of unitMap ''ns'' = Some 1" "map_of unitMap (microSign @ ''s'') = Some 1000" "map_of unitMap ''ms'' = Some 1000000"
  "map_of unitMap ''s'' = Some 1000000000" "map_of unitMap ''m'' = Some 60000000000" "map_of unitMap ''h'' = Some 3600000000000"
  "list_all unitChar ''ns''" "list_all unitChar (microSign @ ''s'')" "list_all unitChar ''ms''" "list_all unitChar ''s''"
  "list_all unitChar ''m''" "list_all unitChar ''h''"
  by (simp_all add: unitMap_def microSign_def greekMu_def unitChar_def is_digit_def)

lemma durationSum_part:
  assumes "durationPart s = Some (v, r)" "d + v \<le> 2 ^ 63"
  shows "durationSum d s = durationSum (d + v) r"
proof -
  have "s \<noteq> []" using assms(1) by (auto simp: durationPart_def)
  moreover have "(d + v) mod 2 ^ 64 = d + v" using assms(2) by simp
  ultimately show ?thesis using assms by (subst durationSum.simps) (simp add: Let_def not_less)
qed

lemma durationSum_Nil [simp]: "durationSum d [] = Some d"
  by (simp add: durationSum.simps)

lemma fmtUnits_read:
  assumes "map_of unitMap u = Some (10 ^ i)" "u \<noteq> []" "list_all unitChar u" "n \<le> 2 ^ 63" "i \<le> 9"
  shows "durationSum 0 (fmtUnits i n u) = Some n"
proof -
  have "(10 :: nat) ^ i \<le> 10 ^ 9" using assms(5) by (intro power_increasing) auto
  then have lt: "(10 :: nat) ^ i < 2 ^ 53" by (rule le_less_trans) simp
  obtain fr where f: "fmtFrac i n False u = (fr @ u, n div 10 ^ i)" "fraction_text (10 ^ i) fr (n mod 10 ^ i)"
    using fmtFrac_text [OF refl] by blast
  have "durationPart (dec_of_nat (n div 10 ^ i) @ fr @ u @ []) = Some (n div 10 ^ i * 10 ^ i + n mod 10 ^ i, [])"
    by (rule durationPart_text [OF assms(1-3) _ f(2)]) (use assms(4) lt in \<open>simp_all only: div_mult_mod_eq zero_less_power zero_less_numeral simp_thms\<close>)
  then have "durationPart (dec_of_nat (n div 10 ^ i) @ fr @ u) = Some (n, [])" by (simp only: div_mult_mod_eq append_Nil2)
  then show ?thesis using durationSum_part [of _ n "[]" 0] f(1) assms(4) by (simp add: fmtUnits_def)
qed

lemma durationSum_whole:
  assumes "map_of unitMap u = Some unit" "u \<noteq> []" "list_all unitChar u" "rest = [] \<or> is_digit (hd rest)"
    and "d + v * unit \<le> 2 ^ 63" "0 < unit" "unit < 2 ^ 53"
  shows "durationSum d (dec_of_nat v @ u @ rest) = durationSum (d + v * unit) rest"
proof -
  have "durationPart (dec_of_nat v @ [] @ u @ rest) = Some (v * unit + 0, rest)"
    by (rule durationPart_text [OF assms(1-3)]) (use assms(4-7) in \<open>auto simp: fraction_text_def unitChar_def\<close>)
  then show ?thesis using durationSum_part [of _ "v * unit" rest d] assms(5) by simp
qed

lemma dec_starts_digit: "is_digit (hd (dec_of_nat v @ s))"
  using dec_of_nat_all_digits [of v] by (cases "dec_of_nat v") auto

lemma clock_sum:
  fixes u :: nat
  assumes "secs = u div g" "m = secs div 60" "h = m div 60"
  shows "u = h * (3600 * g) + (m mod 60 * (60 * g) + (secs mod 60 * g + u mod g))"
proof -
  have "u = secs * g + u mod g" "secs = m * 60 + secs mod 60" "m = h * 60 + m mod 60" unfolding assms by simp_all
  then have "u = ((h * 60 + m mod 60) * 60 + secs mod 60) * g + u mod g" by simp
  then show ?thesis by (simp add: algebra_simps)
qed

lemma fmtClock_read:
  assumes "u \<le> 2 ^ 63" shows "durationSum 0 (fmtClock u) = Some u"
proof -
  define secs m h where "secs = u div 1000000000" and "m = secs div 60" and "h = m div 60"
  define n0 s0 m0 where "n0 = u mod 1000000000" and "s0 = secs mod 60" and "m0 = m mod 60"
  obtain fr where f: "fmtFrac 9 u False ''s'' = (fr @ ''s'', secs)" "fraction_text 1000000000 fr n0"
    using fmtFrac_text [of 1000000000 9 u "''s''"] by (auto simp: secs_def n0_def)
  have u: "u = h * 3600000000000 + (m0 * 60000000000 + (s0 * 1000000000 + n0))"
    using clock_sum [OF secs_def m_def h_def] by (simp add: n0_def s0_def m0_def)
  let ?s = "dec_of_nat s0 @ fr @ ''s''"
  let ?m = "(if m > 0 then dec_of_nat m0 @ ''m'' else []) @ ?s"
  have s: "durationSum d ?s = Some (d + (s0 * 1000000000 + n0))" if "d + (s0 * 1000000000 + n0) \<le> 2 ^ 63" for d
  proof -
    have "durationPart (dec_of_nat s0 @ fr @ ''s'' @ []) = Some (s0 * 1000000000 + n0, [])"
      by (rule durationPart_text [OF unit_facts(4) _ unit_facts(10) _ f(2)]) (use that in simp_all)
    then show ?thesis using durationSum_part [OF _ that, of _ "[]"] by simp
  qed
  have mm: "durationSum d ?m = Some (d + (m0 * 60000000000 + (s0 * 1000000000 + n0)))"
    if "d + (m0 * 60000000000 + (s0 * 1000000000 + n0)) \<le> 2 ^ 63" for d
  proof (cases "m > 0")
    case True
    have "durationSum d (dec_of_nat m0 @ ''m'' @ ?s) = durationSum (d + m0 * 60000000000) ?s"
      by (rule durationSum_whole [OF unit_facts(5) _ unit_facts(11)]) (use that dec_starts_digit in simp_all)
    then show ?thesis using s [of "d + m0 * 60000000000"] that True by (simp add: add.assoc)
  next
    case False
    then show ?thesis using s [of d] that by (simp add: m0_def)
  qed
  have c: "fmtClock u = (if h > 0 then dec_of_nat h @ ''h'' else []) @ ?m"
    using f(1) by (simp add: fmtClock_def Let_def m_def h_def s0_def m0_def)
  show ?thesis
  proof (cases "h > 0")
    case True
    have "is_digit (hd ?m)" using dec_starts_digit [of m0] dec_starts_digit [of s0] by simp
    then have "durationSum 0 (dec_of_nat h @ ''h'' @ ?m) = durationSum (0 + h * 3600000000000) ?m"
      by (intro durationSum_whole [OF unit_facts(6) _ unit_facts(12)]) (use assms u in simp_all)
    then show ?thesis using mm [of "h * 3600000000000"] c True u assms by simp
  next
    case False
    then show ?thesis using mm [of 0] c u assms by simp
  qed
qed

text \<open>Every duration is read back from its text.\<close>

lemma fmtPositive_read: "u \<le> 2 ^ 63 \<Longrightarrow> durationSum 0 (fmtPositive u) = Some u"
  using fmtUnits_read [of "''ns''" 0 u] fmtUnits_read [of "microSign @ ''s''" 3 u] fmtUnits_read [of "''ms''" 6 u] fmtClock_read [of u]
    unit_facts
  by (simp add: fmtPositive_def)

lemma fmtPositive_start: "is_digit (hd (fmtPositive u)) \<and> 2 \<le> length (fmtPositive u)"
proof -
  have "\<exists>v t. fmtPositive u = dec_of_nat v @ t \<and> t \<noteq> []"
  proof -
    have f: "t \<noteq> []" if "fmtFrac i n pr buf = (t, v)" "buf \<noteq> []" for i n pr buf t v
      using that by (induction i n pr buf rule: fmtFrac.induct) (auto simp: Let_def split: if_splits)
    show ?thesis
      unfolding fmtPositive_def fmtUnits_def fmtClock_def Let_def
      by (auto simp: microSign_def split: prod.splits dest: f)
  qed
  then obtain v t where t: "fmtPositive u = dec_of_nat v @ t" "t \<noteq> []" by blast
  have "1 \<le> length (dec_of_nat v)" "1 \<le> length t" using t(2) by (cases "dec_of_nat v", simp_all, cases t, simp_all)
  then show ?thesis using t dec_starts_digit by simp
qed

lemma parseDuration_String:
  assumes "- (2 ^ 63) \<le> d" "d < 2 ^ 63"
  shows "parseDuration (durationString d) = Some d"
proof (cases "d = 0")
  case True
  moreover have zero: "dec_of_nat 0 = ''0''" by code_simp
  have "durationSum 0 ''0s'' = Some 0"
    using durationSum_whole [OF unit_facts(4) _ unit_facts(10), of "[]" 0 0] zero by simp
  ultimately show ?thesis by (simp add: durationString_def parseDuration_def)
next
  case False
  let ?u = "nat \<bar>d\<bar>"
  have "?u \<le> 2 ^ 63" using assms by (simp add: nat_le_iff)
  then have s: "durationSum 0 (fmtPositive ?u) = Some ?u" by (rule fmtPositive_read)
  obtain c r where c: "fmtPositive ?u = c # r" "is_digit c" "r \<noteq> []"
    using fmtPositive_start [of ?u] by (cases "fmtPositive ?u") (auto simp: numeral_2_eq_2 Suc_le_eq)
  have "c \<noteq> CHR ''-''" "c \<noteq> CHR ''+''" using c(2) by (auto simp: is_digit_def)
  moreover have "?u \<le> 2 ^ 63 - 1" if "\<not> d < 0" using assms(2) that by (simp add: nat_le_iff)
  ultimately show ?thesis using s c False by (auto simp: durationString_def parseDuration_def not_less)
qed

end
