(* ===== verification/Go_Flag.thy ===== *)
theory Go_Flag
  imports Go_Duration "HOL-Library.List_Lexorder" "HOL-Library.Char_ord"
begin

text \<open>
  Go's package flag as far as the command uses it: FlagSet.Parse with string, int,
  bool and duration flags, and the numbers and booleans of strconv it accepts (ParseInt in base 0, with the
  prefixes 0x, 0o, 0b and 0 and with underscores, and ParseBool). The variables the flags are bound
  to are the fields of a record of options; what is written to the flag set's output is kept as
  values.
\<close>

section \<open>Numbers and booleans\<close>

definition isLetter :: "char \<Rightarrow> char \<Rightarrow> bool" where
  "isLetter c l \<longleftrightarrow> c = l \<or> (of_char c :: nat) + 32 = of_char l"

definition digitOf :: "char \<Rightarrow> nat option" where
  "digitOf c =
     (let n = of_char c :: nat in
      if is_digit c then Some (n - 48)
      else if 97 \<le> n \<and> n \<le> 122 then Some (n - 87)
      else if 65 \<le> n \<and> n \<le> 90 then Some (n - 55)
      else None)"

fun parseDigits :: "nat \<Rightarrow> string \<Rightarrow> nat \<Rightarrow> nat option" where
  "parseDigits base [] n = Some n"
| "parseDigits base (c # s) n =
     (if c = CHR ''_'' then parseDigits base s n
      else case digitOf c of
        None \<Rightarrow> None
      | Some d \<Rightarrow> if d \<ge> base then None else parseDigits base s (n * base + d))"

text \<open>The base a number of base 0 is written in, and its digits.\<close>

definition numberBase :: "string \<Rightarrow> nat \<times> string" where
  "numberBase s =
     (case s of
        z # c # d # r \<Rightarrow>
          if z \<noteq> CHR ''0'' then (10, s)
          else if isLetter c (CHR ''b'') then (2, d # r)
          else if isLetter c (CHR ''o'') then (8, d # r)
          else if isLetter c (CHR ''x'') then (16, d # r)
          else (8, tl s)
      | z # r \<Rightarrow> if z \<noteq> CHR ''0'' then (10, s) else (8, r)
      | [] \<Rightarrow> (10, []))"

text \<open>
  underscoreOK: an underscore stands between digits, the base prefix counting as one. The state
  is the kind of the previous character; the sign is already cut off.
\<close>

datatype before = Beginning | Digit | Underscore | Other

fun underscoresBetween :: "bool \<Rightarrow> before \<Rightarrow> string \<Rightarrow> bool" where
  "underscoresBetween hex b [] \<longleftrightarrow> b \<noteq> Underscore"
| "underscoresBetween hex b (c # s) \<longleftrightarrow>
     (if is_digit c \<or> hex \<and> (case digitOf c of Some d \<Rightarrow> d < 16 | None \<Rightarrow> False) then underscoresBetween hex Digit s
      else if c = CHR ''_'' then b = Digit \<and> underscoresBetween hex Underscore s
      else b \<noteq> Underscore \<and> underscoresBetween hex Other s)"

definition underscoreOK :: "string \<Rightarrow> bool" where
  "underscoreOK s =
     (case s of
        z # c # r \<Rightarrow>
          if z = CHR ''0'' \<and> (isLetter c (CHR ''b'') \<or> isLetter c (CHR ''o'') \<or> isLetter c (CHR ''x''))
          then underscoresBetween (isLetter c (CHR ''x'')) Digit r
          else underscoresBetween False Beginning s
      | _ \<Rightarrow> underscoresBetween False Beginning s)"

definition parseUint :: "string \<Rightarrow> nat option" where
  "parseUint s =
     (if s = [] then None
      else case numberBase s of (base, ds) \<Rightarrow>
        (case parseDigits base ds 0 of
           None \<Rightarrow> None
         | Some n \<Rightarrow>
             if n \<ge> 2 ^ 64 \<or> CHR ''_'' \<in> set ds \<and> \<not> underscoreOK s then None else Some n))"

definition parseInt :: "string \<Rightarrow> int option" where
  "parseInt s =
     (let (neg, t) = (case s of
            c # r \<Rightarrow> if c = CHR ''+'' then (False, r) else if c = CHR ''-'' then (True, r) else (False, s)
          | [] \<Rightarrow> (False, [])) in
      case parseUint t of
        None \<Rightarrow> None
      | Some n \<Rightarrow>
          if neg then (if n > 2 ^ 63 then None else Some (- int n))
          else if n \<ge> 2 ^ 63 then None else Some (int n))"

definition parseBool :: "string \<Rightarrow> bool option" where
  "parseBool s =
     (if s \<in> {''1'', ''t'', ''T'', ''TRUE'', ''true'', ''True''} then Some True
      else if s \<in> {''0'', ''f'', ''F'', ''FALSE'', ''false'', ''False''} then Some False
      else None)"

definition formatBool :: "bool \<Rightarrow> string" where
  "formatBool b = (if b then ''true'' else ''false'')"

section \<open>Flags\<close>

text \<open>A flag's value: how the variable it is bound to is read and written.\<close>

datatype 'o flag_value =
    StringVar "'o \<Rightarrow> string" "string \<Rightarrow> 'o \<Rightarrow> 'o"
  | IntVar "'o \<Rightarrow> int" "int \<Rightarrow> 'o \<Rightarrow> 'o"
  | BoolVar "'o \<Rightarrow> bool" "bool \<Rightarrow> 'o \<Rightarrow> 'o"
  | DurationVar "'o \<Rightarrow> int" "int \<Rightarrow> 'o \<Rightarrow> 'o"

type_synonym 'o flags = "(string \<times> 'o flag_value) list"

primrec isBoolFlag :: "'o flag_value \<Rightarrow> bool" where
  "isBoolFlag (StringVar g s) \<longleftrightarrow> False"
| "isBoolFlag (IntVar g s) \<longleftrightarrow> False"
| "isBoolFlag (BoolVar g s) \<longleftrightarrow> True"
| "isBoolFlag (DurationVar g s) \<longleftrightarrow> False"

text \<open>Value.String and Value.Set.\<close>

primrec valueString :: "'o flag_value \<Rightarrow> 'o \<Rightarrow> string" where
  "valueString (StringVar g s) opts = g opts"
| "valueString (IntVar g s) opts = itoa (g opts)"
| "valueString (BoolVar g s) opts = formatBool (g opts)"
| "valueString (DurationVar g s) opts = durationString (g opts)"

primrec valueSet :: "'o flag_value \<Rightarrow> string \<Rightarrow> 'o \<Rightarrow> 'o option" where
  "valueSet (StringVar g s) v opts = Some (s v opts)"
| "valueSet (IntVar g s) v opts = map_option (\<lambda>n. s n opts) (parseInt v)"
| "valueSet (BoolVar g s) v opts = map_option (\<lambda>b. s b opts) (parseBool v)"
| "valueSet (DurationVar g s) v opts = map_option (\<lambda>d. s d opts) (parseDuration v)"

section \<open>Parsing a command line\<close>

datatype flag_error =
    ErrHelp
  | BadSyntax string
  | NotDefined string
  | NeedsArgument string
  | InvalidValue string string

text \<open>What one argument is: the end of the flags, malformed, or a flag with or without a value.\<close>

datatype flag_arg = NoFlag | Malformed | FlagArg string "string option"

definition flagArg :: "string \<Rightarrow> flag_arg" where
  "flagArg s =
     (if length s < 2 \<or> hd s \<noteq> CHR ''-'' then NoFlag
      else if s = ''--'' then NoFlag
      else let name = (if s ! 1 = CHR ''-'' then drop 2 s else drop 1 s) in
        (case name of
           [] \<Rightarrow> Malformed
         | c # r \<Rightarrow>
             if c = CHR ''-'' \<or> c = CHR ''='' then Malformed
             else (case cutAt (CHR ''='') r of
                     None \<Rightarrow> FlagArg name None
                   | Some (a, v) \<Rightarrow> FlagArg (c # a) (Some v))))"

definition setFlag :: "'o flag_value \<Rightarrow> string \<Rightarrow> string \<Rightarrow> 'o \<Rightarrow> (flag_error, 'o) result" where
  "setFlag fv name v opts = (case valueSet fv v opts of None \<Rightarrow> Inl (InvalidValue v name) | Some o' \<Rightarrow> Inr o')"

text \<open>parseOne: None when parsing is done, else the arguments left and the options.\<close>

definition parseOne :: "'o flags \<Rightarrow> string list \<Rightarrow> 'o \<Rightarrow> (flag_error, (string list \<times> 'o) option) result" where
  "parseOne fs args opts =
     (case args of
        [] \<Rightarrow> Inr None
      | s # rest \<Rightarrow>
          (case flagArg s of
             NoFlag \<Rightarrow> Inr None
           | Malformed \<Rightarrow> Inl (BadSyntax s)
           | FlagArg name val \<Rightarrow>
               (case map_of fs name of
                  None \<Rightarrow> Inl (if name = ''help'' \<or> name = ''h'' then ErrHelp else NotDefined name)
                | Some fv \<Rightarrow>
                    if isBoolFlag fv then
                      map_sum id (\<lambda>o'. Some (rest, o')) (setFlag fv name (case val of Some v \<Rightarrow> v | None \<Rightarrow> ''true'') opts)
                    else
                      (case val of
                         Some v \<Rightarrow> map_sum id (\<lambda>o'. Some (rest, o')) (setFlag fv name v opts)
                       | None \<Rightarrow>
                           (case rest of
                              [] \<Rightarrow> Inl (NeedsArgument name)
                            | v # rest' \<Rightarrow> map_sum id (\<lambda>o'. Some (rest', o')) (setFlag fv name v opts))))))"

lemma parseOne_shrinks: "parseOne fs args opts = Inr (Some (args', o')) \<Longrightarrow> length args' < length args"
  by (auto simp: parseOne_def map_sum_def split: list.splits flag_arg.splits option.splits if_splits sum.splits)

text \<open>FlagSet.Parse with ContinueOnError.\<close>

function parseFlags :: "'o flags \<Rightarrow> string list \<Rightarrow> 'o \<Rightarrow> (flag_error, 'o) result" where
  "parseFlags fs args opts =
     (case parseOne fs args opts of
        Inl e \<Rightarrow> Inl e
      | Inr None \<Rightarrow> Inr opts
      | Inr (Some (args', o')) \<Rightarrow> parseFlags fs args' o')"
  by pat_completeness auto
termination
  by (relation "measure (\<lambda>(fs, args, opts). length args)") (auto dest: parseOne_shrinks)

declare parseFlags.simps [simp del]

text \<open>
  What Parse writes to the output: nothing when it succeeds, the usage on -help, the error and
  the usage otherwise. The usage has each flag with its default as text, in the order of names.
\<close>

datatype flag_output = ErrorLine flag_error | UsageLine string string

definition usage :: "'o flags \<Rightarrow> 'o \<Rightarrow> flag_output list" where
  "usage fs defaults = map (\<lambda>(name, fv). UsageLine name (valueString fv defaults)) (sort_key fst fs)"

definition parseOutput :: "'o flags \<Rightarrow> string list \<Rightarrow> 'o \<Rightarrow> flag_output list" where
  "parseOutput fs args defaults =
     (case parseFlags fs args defaults of
        Inr _ \<Rightarrow> []
      | Inl ErrHelp \<Rightarrow> usage fs defaults
      | Inl e \<Rightarrow> ErrorLine e # usage fs defaults)"

section \<open>Lemmas\<close>

lemma digitOf_digit: "is_digit c \<Longrightarrow> digitOf c = Some (digit_value c)"
  by (simp add: digitOf_def digit_value_def)

lemma digit_facts: "is_digit c \<Longrightarrow> c \<noteq> CHR ''_'' \<and> c \<noteq> CHR ''+'' \<and> c \<noteq> CHR ''-''"
  by (auto simp: is_digit_def)

lemma parseDigits_decimal:
  "list_all is_digit s \<Longrightarrow> parseDigits 10 s n = Some (foldl (\<lambda>acc c. acc * 10 + digit_value c) n s)"
proof (induction s arbitrary: n)
  case (Cons c s)
  have "c \<noteq> CHR ''_''" "digitOf c = Some (digit_value c)" "digit_value c < 10"
    using Cons.prems digit_facts digitOf_digit digit_char_value by auto
  then show ?case using Cons by simp
qed simp

lemma numberBase_decimal: "s \<noteq> [] \<Longrightarrow> hd s \<noteq> CHR ''0'' \<Longrightarrow> numberBase s = (10, s)"
  by (auto simp: numberBase_def split: list.splits)

lemma parseUint_dec_of_nat: "n < 2 ^ 64 \<Longrightarrow> parseUint (dec_of_nat n) = Some n"
proof (cases "n = 0")
  case True
  moreover have "dec_of_nat 0 = ''0''" by code_simp
  ultimately show ?thesis by (simp add: parseUint_def numberBase_def)
next
  case False
  assume "n < 2 ^ 64"
  moreover have "numberBase (dec_of_nat n) = (10, dec_of_nat n)"
    using False by (simp add: numberBase_decimal hd_dec_of_nat_pos)
  moreover have "parseDigits 10 (dec_of_nat n) 0 = Some n"
    using parseDigits_decimal [OF dec_of_nat_all_digits, of n 0] dec_value_dec_of_nat [of n] by (simp add: dec_value_def)
  moreover have "CHR ''_'' \<notin> set (dec_of_nat n)" using dec_of_nat_digits digit_facts by blast
  ultimately show ?thesis by (simp add: parseUint_def)
qed

lemma parseInt_itoa: "- (2 ^ 63) \<le> n \<Longrightarrow> n < 2 ^ 63 \<Longrightarrow> parseInt (itoa n) = Some n"
proof -
  assume n: "- (2 ^ 63) \<le> n" "n < 2 ^ 63"
  show ?thesis
  proof (cases "n < 0")
    case True
    have "nat (- n) \<le> 2 ^ 63" using n by (simp add: nat_le_iff)
    then show ?thesis using True parseUint_dec_of_nat [of "nat (- n)"] by (simp add: parseInt_def itoa_def)
  next
    case False
    have k: "nat n < 2 ^ 63" using n False by (simp add: nat_less_iff)
    obtain c r where cr: "dec_of_nat (nat n) = c # r" by (cases "dec_of_nat (nat n)") auto
    then have "is_digit c" by (metis dec_of_nat_digits list.set_intros(1))
    then show ?thesis
      using k cr False parseUint_dec_of_nat [of "nat n"] digit_facts [of c] by (simp add: parseInt_def itoa_def)
  qed
qed

lemma itoa_inj: "itoa n = itoa m \<Longrightarrow> n = m"
proof -
  have d: "dec_of_nat k \<noteq> CHR ''-'' # s" for k s
    using dec_of_nat_digits [of "CHR ''-''" k] digit_facts by fastforce
  assume "itoa n = itoa m"
  then show ?thesis
    using d d [symmetric] by (auto simp: itoa_def split: if_splits dest!: arg_cong [where f = dec_value])
qed

lemma parseBool_formatBool [simp]: "parseBool (formatBool b) = Some b"
  by (simp add: parseBool_def formatBool_def)

section \<open>A flag set and the settings it accepts\<close>

text \<open>\<open>--name=value\<close>\<close>

definition setting :: "string \<Rightarrow> string \<Rightarrow> string" where
  "setting name v = ''--'' @ name @ ''='' @ v"

definition flagName :: "string \<Rightarrow> bool" where
  "flagName name \<longleftrightarrow> name \<noteq> [] \<and> hd name \<noteq> CHR ''-'' \<and> CHR ''='' \<notin> set name"

lemma flagArg_setting:
  assumes "flagName name" shows "flagArg (setting name v) = FlagArg name (Some v)"
proof -
  obtain c r where n: "name = c # r" using assms by (cases name) (auto simp: flagName_def)
  then have "cutAt (CHR ''='') (r @ CHR ''='' # v) = Some (r, v)" using assms by (simp add: flagName_def cutAt_Some)
  then show ?thesis using assms n by (auto simp: flagArg_def setting_def flagName_def)
qed

text \<open>Setting flags one after the other; None as soon as a value is refused.\<close>

fun applySettings :: "'o flags \<Rightarrow> (string \<times> string) list \<Rightarrow> 'o \<Rightarrow> 'o option" where
  "applySettings fs [] opts = Some opts"
| "applySettings fs ((name, v) # ss) opts =
     (case map_of fs name of None \<Rightarrow> None
      | Some fv \<Rightarrow> (case valueSet fv v opts of None \<Rightarrow> None | Some o' \<Rightarrow> applySettings fs ss o'))"

text \<open>
  What a table of flags promises to the code that registers it: no name twice (FlagSet.Var
  panics on a redefinition) and every name can be written on a command line.
\<close>

locale flag_set =
  fixes fs :: "'o flags"
  assumes distinct_names: "distinct (map fst fs)" and usable_names: "\<And>name. name \<in> fst ` set fs \<Longrightarrow> flagName name"
begin

lemma parseOne_setting:
  assumes "map_of fs name = Some fv" "valueSet fv v opts = Some o'"
  shows "parseOne fs (setting name v # args) opts = Inr (Some (args, o'))"
proof -
  have "flagName name" using assms(1) usable_names [of name] by (force dest: map_of_SomeD)
  then show ?thesis using assms by (simp add: parseOne_def flagArg_setting setFlag_def)
qed

lemma parse_settings:
  "applySettings fs ss opts = Some o' \<Longrightarrow> parseFlags fs (map (\<lambda>(name, v). setting name v) ss) opts = Inr o'"
proof (induction ss arbitrary: opts)
  case Nil
  then show ?case by (simp add: parseFlags.simps [of fs "[]"] parseOne_def)
next
  case (Cons p ss)
  obtain name v where p: "p = (name, v)" by (cases p)
  then obtain fv o1 where s: "map_of fs name = Some fv" "valueSet fv v opts = Some o1" "applySettings fs ss o1 = Some o'"
    using Cons.prems by (auto split: option.splits)
  show ?case
    using Cons.IH [OF s(3)] parseOne_setting [OF s(1,2), of "map (\<lambda>(name, v). setting name v) ss"] p
    by (simp add: parseFlags.simps [of fs "setting name v # args" for args])
qed

lemma registered: "(name, fv) \<in> set fs \<Longrightarrow> map_of fs name = Some fv"
  using distinct_names by simp

end

text \<open>
  A table whose flags are bound to variables of their own: what a flag shows of admissible options
  is accepted again and shows the same, and setting one flag leaves the others alone.
\<close>

locale flag_table = flag_set fs for fs :: "'o flags" +
  fixes admissible :: "'o \<Rightarrow> bool"
  assumes accepts: "(name, fv) \<in> set fs \<Longrightarrow> admissible src \<Longrightarrow>
      \<exists>o'. valueSet fv (valueString fv src) opts = Some o' \<and> valueString fv o' = valueString fv src"
    and keeps: "(name, fv) \<in> set fs \<Longrightarrow> (name', fv') \<in> set fs \<Longrightarrow> name \<noteq> name' \<Longrightarrow>
      valueSet fv v opts = Some o' \<Longrightarrow> valueString fv' o' = valueString fv' opts"
begin

lemma overrides:
  assumes "admissible src"
  shows "set names \<subseteq> fst ` set fs \<Longrightarrow>
    \<exists>o'. applySettings fs (map (\<lambda>n. (n, valueString (the (map_of fs n)) src)) names) opts = Some o' \<and>
      (\<forall>name fv. (name, fv) \<in> set fs \<longrightarrow>
         valueString fv o' = (if name \<in> set names then valueString fv src else valueString fv opts))"
proof (induction names arbitrary: opts)
  case Nil
  then show ?case by simp
next
  case (Cons n names)
  obtain fv where f: "(n, fv) \<in> set fs" "map_of fs n = Some fv" using Cons.prems registered by force
  obtain o1 where o1: "valueSet fv (valueString fv src) opts = Some o1" "valueString fv o1 = valueString fv src"
    using accepts [OF f(1) assms] by blast
  obtain o' where o': "applySettings fs (map (\<lambda>n. (n, valueString (the (map_of fs n)) src)) names) o1 = Some o'"
    and v: "\<And>name fv. (name, fv) \<in> set fs \<Longrightarrow> valueString fv o' = (if name \<in> set names then valueString fv src else valueString fv o1)"
    using Cons.IH [of o1] Cons.prems by (auto simp del: split_paired_All)
  have "valueString g o' = (if m \<in> set (n # names) then valueString g src else valueString g opts)" if "(m, g) \<in> set fs" for m g
  proof (cases "m = n")
    case True
    then have "g = fv" using registered [OF that] f(2) by simp
    then show ?thesis using v [OF that] o1(2) True by simp
  next
    case False
    then show ?thesis using v [OF that] keeps [OF f(1) that _ o1(1)] by simp
  qed
  then show ?case using o' o1(1) f(2) by auto
qed

end

end
