(* ===== verification/Shim_Main.thy ===== *)
theory Shim_Main
  imports Supervisor Certs Discovery Expiry Cidr_Text Go_Flag
begin

text \<open>
  Model of src/cmd/shim/main.go: options from flags and environment, the join token, and the
  start of the program with its two listeners. client-go's two ways to a client configuration, the
  client built from it and tls.LoadX509KeyPair are parameters (\<open>launcher\<close>). What main starts and leaves running is the
  record \<open>running\<close>; an os.Exit is \<open>Exit\<close> with its code.
\<close>

section \<open>Options\<close>

record options =
  o_listen :: string
  o_caCert :: string
  o_caKey :: string
  o_servingCACert :: string
  o_servingCAKey :: string
  o_tlsCert :: string
  o_tlsKey :: string
  o_extraSANs :: string
  o_metricsAddr :: string
  o_templatePath :: string
  o_kubeconfig :: string
  o_token :: string
  o_tokenFile :: string
  o_apiServersCSV :: string
  o_clusterDNS :: string
  o_clusterDomain :: string
  o_podCIDR :: string
  o_svcCIDR :: string
  o_apiQPS :: int
  o_apiBurst :: int
  o_apiServerPort :: int
  o_enableTunnel :: bool

definition env :: "(string \<Rightarrow> string) \<Rightarrow> string \<Rightarrow> string \<Rightarrow> string" where
  "env ge k def = (if ge k \<noteq> [] then ge k else def)"

text \<open>strconv.Atoi: an optional sign and decimal digits, within the range of a 64-bit int.\<close>

definition atoi :: "string \<Rightarrow> int option" where
  "atoi s =
     (let (neg, ds) = (case s of
            c # r \<Rightarrow> (if c = CHR ''-'' then (True, r) else if c = CHR ''+'' then (False, r) else (False, s))
          | [] \<Rightarrow> (False, [])) in
      if ds = [] \<or> \<not> list_all is_digit ds then None
      else let n = (if neg then - int (dec_value ds) else int (dec_value ds)) in
           if - (2 ^ 63) \<le> n \<and> n < 2 ^ 63 then Some n else None)"

definition envInt :: "(string \<Rightarrow> string) \<Rightarrow> string \<Rightarrow> int \<Rightarrow> int" where
  "envInt ge k def =
     (if ge k \<noteq> [] then (case atoi (ge k) of Some n \<Rightarrow> n | None \<Rightarrow> def) else def)"

text \<open>The options before the command line is looked at: each flag with its default.\<close>

definition defaultOptions :: "(string \<Rightarrow> string) \<Rightarrow> options" where
  "defaultOptions ge =
     \<lparr>o_listen = env ge ''SHIM_LISTEN'' '':9345'',
      o_caCert = env ge ''SHIM_CA_CERT'' ''/pki/cluster-ca.crt'',
      o_caKey = env ge ''SHIM_CA_KEY'' ''/pki/cluster-ca.key'',
      o_servingCACert = env ge ''SHIM_SERVING_CA_CERT'' [],
      o_servingCAKey = env ge ''SHIM_SERVING_CA_KEY'' [],
      o_tlsCert = env ge ''SHIM_TLS_CERT'' [],
      o_tlsKey = env ge ''SHIM_TLS_KEY'' [],
      o_extraSANs = env ge ''SHIM_EXTRA_SANS'' [],
      o_metricsAddr = env ge ''SHIM_METRICS_LISTEN'' '':9346'',
      o_templatePath = env ge ''SHIM_AGENT_CONFIG'' ''/etc/rke2-shim/agent-config.json'',
      o_kubeconfig = env ge ''KUBECONFIG'' [],
      o_token = [],
      o_tokenFile = env ge ''SHIM_TOKEN_FILE'' [],
      o_apiServersCSV = env ge ''SHIM_APISERVERS'' [],
      o_clusterDNS = env ge ''SHIM_CLUSTER_DNS'' ''10.96.0.10'',
      o_clusterDomain = env ge ''SHIM_CLUSTER_DOMAIN'' ''cluster.local'',
      o_podCIDR = env ge ''SHIM_POD_CIDR'' ''10.244.0.0/16'',
      o_svcCIDR = env ge ''SHIM_SVC_CIDR'' ''10.96.0.0/12'',
      o_apiQPS = envInt ge ''SHIM_API_QPS'' 50,
      o_apiBurst = envInt ge ''SHIM_API_BURST'' 100,
      o_apiServerPort = 6443,
      o_enableTunnel = (env ge ''SHIM_TUNNEL'' ''true'' = ''true'')\<rparr>"

text \<open>The flags, in the order they are registered, each bound to its field.\<close>

definition shimFlags :: "options flags" where
  "shimFlags =
     [(''listen'', StringVar o_listen (\<lambda>v. o_listen_update (\<lambda>_. v))),
      (''api-qps'', IntVar o_apiQPS (\<lambda>v. o_apiQPS_update (\<lambda>_. v))),
      (''api-burst'', IntVar o_apiBurst (\<lambda>v. o_apiBurst_update (\<lambda>_. v))),
      (''ca-cert'', StringVar o_caCert (\<lambda>v. o_caCert_update (\<lambda>_. v))),
      (''ca-key'', StringVar o_caKey (\<lambda>v. o_caKey_update (\<lambda>_. v))),
      (''serving-ca-cert'', StringVar o_servingCACert (\<lambda>v. o_servingCACert_update (\<lambda>_. v))),
      (''serving-ca-key'', StringVar o_servingCAKey (\<lambda>v. o_servingCAKey_update (\<lambda>_. v))),
      (''tls-cert'', StringVar o_tlsCert (\<lambda>v. o_tlsCert_update (\<lambda>_. v))),
      (''tls-key'', StringVar o_tlsKey (\<lambda>v. o_tlsKey_update (\<lambda>_. v))),
      (''extra-sans'', StringVar o_extraSANs (\<lambda>v. o_extraSANs_update (\<lambda>_. v))),
      (''metrics-listen'', StringVar o_metricsAddr (\<lambda>v. o_metricsAddr_update (\<lambda>_. v))),
      (''agent-config'', StringVar o_templatePath (\<lambda>v. o_templatePath_update (\<lambda>_. v))),
      (''kubeconfig'', StringVar o_kubeconfig (\<lambda>v. o_kubeconfig_update (\<lambda>_. v))),
      (''token'', StringVar o_token (\<lambda>v. o_token_update (\<lambda>_. v))),
      (''token-file'', StringVar o_tokenFile (\<lambda>v. o_tokenFile_update (\<lambda>_. v))),
      (''apiservers'', StringVar o_apiServersCSV (\<lambda>v. o_apiServersCSV_update (\<lambda>_. v))),
      (''apiserver-port'', IntVar o_apiServerPort (\<lambda>v. o_apiServerPort_update (\<lambda>_. v))),
      (''cluster-dns'', StringVar o_clusterDNS (\<lambda>v. o_clusterDNS_update (\<lambda>_. v))),
      (''cluster-domain'', StringVar o_clusterDomain (\<lambda>v. o_clusterDomain_update (\<lambda>_. v))),
      (''pod-cidr'', StringVar o_podCIDR (\<lambda>v. o_podCIDR_update (\<lambda>_. v))),
      (''service-cidr'', StringVar o_svcCIDR (\<lambda>v. o_svcCIDR_update (\<lambda>_. v))),
      (''tunnel'', BoolVar o_enableTunnel (\<lambda>v. o_enableTunnel_update (\<lambda>_. v)))]"

text \<open>The options, and what is written to the output (the usage, when the flags do not parse).\<close>

definition parseOptions :: "string list \<Rightarrow> (string \<Rightarrow> string) \<Rightarrow> (flag_error, options) result \<times> flag_output list" where
  "parseOptions args ge =
     (parseFlags shimFlags args (defaultOptions ge), parseOutput shimFlags args (defaultOptions ge))"

text \<open>client-go's configuration and client, and the loading of a supplied key pair.\<close>

record 'w launcher =
  l_inClusterConfig :: "'w \<Rightarrow> (string, unit) result \<times> 'w"
  l_buildConfigFromFlags :: "string \<Rightarrow> 'w \<Rightarrow> (string, unit) result \<times> 'w"
  l_newForConfig :: "int \<times> int \<Rightarrow> 'w \<Rightarrow> (string, unit) result \<times> 'w"
  l_loadKeyPair :: "string \<Rightarrow> string \<Rightarrow> 'w \<Rightarrow> (string, string) result \<times> 'w"

section \<open>Helpers\<close>

definition splitCSV :: "string \<Rightarrow> string list" where
  "splitCSV s = filter (\<lambda>p. p \<noteq> []) (map trimSpace (split (CHR '','') s))"

fun partitionSANs :: "string list \<Rightarrow> ip list \<times> string list" where
  "partitionSANs [] = ([], [])"
| "partitionSANs (p # ps) =
     (case partitionSANs ps of (ips, dns) \<Rightarrow>
        (case parseIP p of Some ip \<Rightarrow> (ip # ips, dns) | None \<Rightarrow> (ips, p # dns)))"

definition parseSANs :: "string \<Rightarrow> ip list \<times> string list" where
  "parseSANs csv = partitionSANs (splitCSV csv)"

datatype token_error = ReadTokenFile string | EmptyTokenFile string | NoToken

definition resolveToken :: "'w host \<Rightarrow> options \<Rightarrow> 'w \<Rightarrow> (token_error, string) result \<times> 'w" where
  "resolveToken h opts w =
     (if o_tokenFile opts \<noteq> [] then
        (case readFile h (o_tokenFile opts) w of
           (Inl e, w1) \<Rightarrow> (Inl (ReadTokenFile e), w1)
         | (Inr b, w1) \<Rightarrow>
             (let tok = trimSpace b in
              if tok = [] then (Inl (EmptyTokenFile (o_tokenFile opts)), w1) else (Inr tok, w1)))
      else
        (let tok = trimSpace (if o_token opts = [] then getenv h ''SHIM_TOKEN'' else o_token opts) in
         if tok = [] then (Inl NoToken, w) else (Inr tok, w)))"

text \<open>What the error log of net/http is turned into: debug for TLS handshake noise, else a warning.\<close>

definition serverErrorLevel :: "string \<Rightarrow> string" where
  "serverErrorLevel p = (if contains (trimSpace p) ''TLS handshake error'' then ''DEBUG'' else ''WARN'')"

text \<open>The limits of an http.Server; a timeout of 0 is none.\<close>

record http_server =
  hs_Addr :: string
  hs_ReadHeaderTimeout :: duration
  hs_ReadTimeout :: duration
  hs_WriteTimeout :: duration
  hs_IdleTimeout :: duration
  hs_MaxHeaderBytes :: nat

definition newMainServer :: "string \<Rightarrow> http_server" where
  "newMainServer addr =
     \<lparr>hs_Addr = addr, hs_ReadHeaderTimeout = 15 * second, hs_ReadTimeout = 0, hs_WriteTimeout = 0,
      hs_IdleTimeout = 2 * minute, hs_MaxHeaderBytes = 64 * 2 ^ 10\<rparr>"

text \<open>The metrics listener, unless it is disabled.\<close>

definition newMetricsServer :: "string \<Rightarrow> http_server option" where
  "newMetricsServer addr =
     (if addr = [] then None
      else Some \<lparr>hs_Addr = addr, hs_ReadHeaderTimeout = 5 * second, hs_ReadTimeout = 10 * second,
             hs_WriteTimeout = 30 * second, hs_IdleTimeout = minute, hs_MaxHeaderBytes = 16 * 2 ^ 10\<rparr>)"

text \<open>What it answers; the page of promhttp is a parameter.\<close>

definition metricsServe :: "(http_request \<Rightarrow> reply) \<Rightarrow> http_request \<Rightarrow> reply" where
  "metricsServe page r =
     (if rq_Method r \<noteq> ''CONNECT'' \<and> cleanPath (rq_Path r) \<noteq> rq_Path r then Redirect (cleanPath (rq_Path r))
      else if rq_Path r = ''/metrics'' then page r
      else if rq_Path r = ''/healthz'' then http_OK ''text/plain; charset=utf-8'' (Text ''ok'')
      else http_Error (Say ''404 page not found'') StatusNotFound)"

definition kubeClientConfig :: "'w launcher \<Rightarrow> string \<Rightarrow> 'w \<Rightarrow> (string, unit) result \<times> 'w" where
  "kubeClientConfig l path w = (if path = [] then l_inClusterConfig l w else l_buildConfigFromFlags l path w)"

section \<open>Starting\<close>

record running =
  ru_server :: server
  ru_tracker :: tracker
  ru_discover :: "int option"
  ru_metrics :: "http_server option"
  ru_tunnel :: bool
  ru_manager :: "manager option"
  ru_keyPair :: "string option"
  ru_servingExpiry :: "int option"
  ru_clientCAs :: string
  ru_http :: http_server

datatype startup = Exit nat | Serving running

text \<open>How ListenAndServeTLS ends, which it does only with an error, and what main makes of it.\<close>

datatype serve_end = ErrServerClosed | ServeFailed string

definition serverExited :: "serve_end \<Rightarrow> startup" where
  "serverExited e = (case e of ErrServerClosed \<Rightarrow> Exit 0 | ServeFailed _ \<Rightarrow> Exit 1)"

definition yearTTL :: duration where "yearTTL = 365 * 24 * hour"

definition makeConfig :: "options \<Rightarrow> string \<Rightarrow> string \<Rightarrow> config" where
  "makeConfig opts token tmpl =
     \<lparr>cfg_Token = token, cfg_APIServers = splitCSV (o_apiServersCSV opts), cfg_ClusterDNS = o_clusterDNS opts,
      cfg_ClusterDomain = o_clusterDomain opts, cfg_PodCIDR = o_podCIDR opts, cfg_ServiceCIDR = o_svcCIDR opts,
      cfg_AgentConfigRaw = tmpl\<rparr>"

text \<open>Control planes are discovered, and their endpoints given this port, unless an explicit list was given.\<close>

definition discoverPort :: "options \<Rightarrow> int option" where
  "discoverPort opts = (if o_apiServersCSV opts = [] then Some (o_apiServerPort opts) else None)"

text \<open>The second half of main: the optional serving CA, the background loops, the serving pair.\<close>

definition servingCAStep :: "'w platform \<Rightarrow> 'w host \<Rightarrow> options \<Rightarrow> server \<Rightarrow> 'w \<Rightarrow> server option \<times> 'w" where
  "servingCAStep pf h opts s w =
     (if o_servingCACert opts \<noteq> [] \<and> o_servingCAKey opts \<noteq> [] then
        (case LoadCA pf h (o_servingCACert opts) (o_servingCAKey opts) yearTTL w of
           (Inl _, w1) \<Rightarrow> (None, w1)
         | (Inr sca, w1) \<Rightarrow> (Some (SetServingCA (Some sca) s), w1))
      else (Some s, w))"

definition servingPairStep :: "'w launcher \<Rightarrow> 'w platform \<Rightarrow> 'w host \<Rightarrow> options \<Rightarrow> ca \<Rightarrow> 'w
    \<Rightarrow> (manager option \<times> string option \<times> int option) option \<times> 'w" where
  "servingPairStep l pf h opts ca w =
     (if o_tlsCert opts \<noteq> [] \<and> o_tlsKey opts \<noteq> [] then
        (case l_loadKeyPair l (o_tlsCert opts) (o_tlsKey opts) w of
           (Inl _, w1) \<Rightarrow> (None, w1)
         | (Inr pair, w1) \<Rightarrow> (Some (None, Some pair, None), w1))
      else
        (case parseSANs (o_extraSANs opts) of (ips, dns) \<Rightarrow>
           (case NewManager pf h ca ips dns DefaultTTL w of
              (Inl _, w1) \<Rightarrow> (None, w1)
            | (Inr m, w1) \<Rightarrow> (Some (Some m, None, Some (unix (manager_NotAfter m))), w1))))"

definition start :: "'w launcher \<Rightarrow> 'w deps \<Rightarrow> options \<Rightarrow> 'w \<Rightarrow> startup \<times> 'w" where
  "start l d opts w =
     (let pf = d_pf d; h = d_host d in
      case resolveToken h opts w of
        (Inl _, w1) \<Rightarrow> (Exit 1, w1)
      | (Inr token, w1) \<Rightarrow>
          if parseCIDR (o_podCIDR opts) = None \<or> parseCIDR (o_svcCIDR opts) = None then (Exit 1, w1)
          else
     (case LoadCA pf h (o_caCert opts) (o_caKey opts) yearTTL w1 of
        (Inl _, w2) \<Rightarrow> (Exit 1, w2)
      | (Inr ca, w2) \<Rightarrow>
     (case readFile h (o_templatePath opts) w2 of
        (Inl _, w3) \<Rightarrow> (Exit 1, w3)
      | (Inr tmpl, w3) \<Rightarrow>
          if \<not> jsonValid tmpl then (Exit 1, w3)
          else
     (case kubeClientConfig l (o_kubeconfig opts) w3 of
        (Inl _, w4) \<Rightarrow> (Exit 1, w4)
      | (Inr _, w4) \<Rightarrow>
     (case l_newForConfig l (o_apiQPS opts, o_apiBurst opts) w4 of
        (Inl _, w5) \<Rightarrow> (Exit 1, w5)
      | (Inr _, w5) \<Rightarrow>
     (case servingCAStep pf h opts (newServer (makeConfig opts token tmpl) ca) w5 of
        (None, w6) \<Rightarrow> (Exit 1, w6)
      | (Some s, w6) \<Rightarrow>
     (case servingPairStep l pf h opts ca w6 of
        (None, w7) \<Rightarrow> (Exit 1, w7)
      | (Some (m, pair, expiry), w7) \<Rightarrow>
          (Serving \<lparr>ru_server = s, ru_tracker = NewTracker, ru_discover = discoverPort opts,
                    ru_metrics = newMetricsServer (o_metricsAddr opts), ru_tunnel = o_enableTunnel opts,
                    ru_manager = m, ru_keyPair = pair, ru_servingExpiry = expiry, ru_clientCAs = ca_PEM ca,
                    ru_http = newMainServer (o_listen opts)\<rparr>, w7))))))))"

definition main :: "'w launcher \<Rightarrow> 'w deps \<Rightarrow> string list \<Rightarrow> 'w \<Rightarrow> startup \<times> 'w" where
  "main l d args w =
     (case fst (parseOptions args (getenv (d_host d))) of
        Inl ErrHelp \<Rightarrow> (Exit 0, w)
      | Inl _ \<Rightarrow> (Exit 2, w)
      | Inr opts \<Rightarrow> start l d opts w)"

section \<open>The flags\<close>

text \<open>Options whose numbers are values of a 64-bit int.\<close>

definition int_options :: "options \<Rightarrow> bool" where
  "int_options opts \<longleftrightarrow> (\<forall>n \<in> {o_apiQPS opts, o_apiBurst opts, o_apiServerPort opts}. - (2 ^ 63) \<le> n \<and> n < 2 ^ 63)"

lemma shimFlags_names:
  "distinct (map fst shimFlags)" "\<forall>name \<in> fst ` set shimFlags. flagName name"
  by (simp_all add: shimFlags_def flagName_def)

lemma shimFlags_accepts:
  "int_options src \<Longrightarrow> \<forall>(name, fv) \<in> set shimFlags.
     \<exists>o'. valueSet fv (valueString fv src) opts = Some o' \<and> valueString fv o' = valueString fv src"
  by (simp add: shimFlags_def int_options_def parseInt_itoa)

lemma shimFlags_keeps:
  "\<forall>(name, fv) \<in> set shimFlags. \<forall>(name', fv') \<in> set shimFlags. name \<noteq> name' \<longrightarrow>
     valueSet fv v opts = Some o' \<longrightarrow> valueString fv' o' = valueString fv' opts"
  by (simp add: shimFlags_def) auto

interpretation shim_flags: flag_table shimFlags int_options
proof unfold_locales
  show "distinct (map fst shimFlags)" by (rule shimFlags_names)
  show "flagName name" if "name \<in> fst ` set shimFlags" for name using shimFlags_names(2) that by blast
  show "\<exists>o'. valueSet fv (valueString fv src) opts = Some o' \<and> valueString fv o' = valueString fv src"
    if "(name, fv) \<in> set shimFlags" "int_options src" for name fv src opts
    using shimFlags_accepts [OF that(2), of opts] that(1) by blast
  show "valueString fv' o' = valueString fv' opts"
    if "(name, fv) \<in> set shimFlags" "(name', fv') \<in> set shimFlags" "name \<noteq> name'" "valueSet fv v opts = Some o'"
    for name fv name' fv' v opts o'
    using shimFlags_keeps [of v opts o'] that by blast
qed

text \<open>A flag as it is written for given options.\<close>

definition flagSetting :: "options \<Rightarrow> string \<Rightarrow> string" where
  "flagSetting src name = setting name (valueString (the (map_of shimFlags name)) src)"

lemma map_flagSetting:
  "map (flagSetting src) names =
     map (\<lambda>(name, v). setting name v) (map (\<lambda>n. (n, valueString (the (map_of shimFlags n)) src)) names)"
  by (simp add: flagSetting_def)

text \<open>The options by the names of their flags, each read off its own field and not through the flag table.\<close>

definition optionTexts :: "options \<Rightarrow> (string \<times> string) list" where
  "optionTexts opts =
     [(''listen'', o_listen opts), (''api-qps'', itoa (o_apiQPS opts)), (''api-burst'', itoa (o_apiBurst opts)),
      (''ca-cert'', o_caCert opts), (''ca-key'', o_caKey opts),
      (''serving-ca-cert'', o_servingCACert opts), (''serving-ca-key'', o_servingCAKey opts),
      (''tls-cert'', o_tlsCert opts), (''tls-key'', o_tlsKey opts), (''extra-sans'', o_extraSANs opts),
      (''metrics-listen'', o_metricsAddr opts), (''agent-config'', o_templatePath opts), (''kubeconfig'', o_kubeconfig opts),
      (''token'', o_token opts), (''token-file'', o_tokenFile opts),
      (''apiservers'', o_apiServersCSV opts), (''apiserver-port'', itoa (o_apiServerPort opts)),
      (''cluster-dns'', o_clusterDNS opts), (''cluster-domain'', o_clusterDomain opts),
      (''pod-cidr'', o_podCIDR opts), (''service-cidr'', o_svcCIDR opts), (''tunnel'', formatBool (o_enableTunnel opts))]"

lemma optionTexts_table: "optionTexts opts = map (\<lambda>(name, fv). (name, valueString fv opts)) shimFlags"
  by (simp add: optionTexts_def shimFlags_def)

lemma map_of_optionTexts: "map_of (optionTexts opts) n = map_option (\<lambda>fv. valueString fv opts) (map_of shimFlags n)"
  unfolding optionTexts_table by (simp add: map_of_map)

text \<open>
  (C25) Precedence of the command line. Flags given in any order and any number of times, each with
  the value it has in some options, are accepted; each flag that was given has that value
  afterwards, and each other flag has the value the environment or the built-in default gives it.
  Each flag stands for the option of its name: what is written for it is that option's text, and
  that option is what it sets.
\<close>

theorem command_line_overrides:
  assumes "int_options src" and "set names \<subseteq> fst ` set shimFlags"
  shows "\<exists>opts. parseOptions (map (flagSetting src) names) ge = (Inr opts, []) \<and>
    (\<forall>(name, fv) \<in> set shimFlags. valueString fv opts =
       (if name \<in> set names then valueString fv src else valueString fv (defaultOptions ge))) \<and>
    map (flagSetting src) names = map (\<lambda>n. setting n (the (map_of (optionTexts src) n))) names \<and>
    (\<forall>n. map_of (optionTexts opts) n = map_of (optionTexts (if n \<in> set names then src else defaultOptions ge)) n)"
proof -
  obtain opts where a: "applySettings shimFlags (map (\<lambda>n. (n, valueString (the (map_of shimFlags n)) src)) names) (defaultOptions ge) = Some opts"
    and v: "\<forall>name fv. (name, fv) \<in> set shimFlags \<longrightarrow>
      valueString fv opts = (if name \<in> set names then valueString fv src else valueString fv (defaultOptions ge))"
    using shim_flags.overrides [OF assms] by blast
  from a have p: "parseFlags shimFlags (map (flagSetting src) names) (defaultOptions ge) = Inr opts"
    unfolding map_flagSetting by (rule shim_flags.parse_settings)
  have texts: "map_of (optionTexts opts) n = map_of (optionTexts (if n \<in> set names then src else defaultOptions ge)) n" for n
  proof (cases "map_of shimFlags n")
    case (Some fv)
    from v [rule_format, OF map_of_SomeD [OF this]] show ?thesis by (simp add: map_of_optionTexts Some)
  qed (simp add: map_of_optionTexts)
  have flag: "flagSetting src n = setting n (the (map_of (optionTexts src) n))" if "n \<in> set names" for n
  proof -
    have "n \<in> dom (map_of shimFlags)" using subsetD [OF assms(2) that] by (simp only: dom_map_of_conv_image_fst)
    then obtain fv where "map_of shimFlags n = Some fv" by blast
    then show ?thesis by (simp add: flagSetting_def map_of_optionTexts)
  qed
  have "map (flagSetting src) names = map (\<lambda>n. setting n (the (map_of (optionTexts src) n))) names"
    using flag by (simp cong: map_cong)
  moreover have "parseOptions (map (flagSetting src) names) ge = (Inr opts, [])"
    using p by (simp add: parseOptions_def parseOutput_def)
  ultimately show ?thesis using v texts by (intro exI [of _ opts]) blast
qed

text \<open>
  The join token in the environment never reaches the output, and the options do not depend on
  it: flag defaults are printed in the usage, and the token is not one.
\<close>

lemma token_not_in_usage: "parseOptions args (ge(''SHIM_TOKEN'' := tok)) = parseOptions args ge"
proof -
  let ?ge = "ge(''SHIM_TOKEN'' := tok)"
  have "env ?ge k def = env ge k def" "envInt ?ge k n = envInt ge k n" if "k \<noteq> ''SHIM_TOKEN''" for k def n
    using that by (simp_all add: env_def envInt_def)
  then have "defaultOptions ?ge = defaultOptions ge" unfolding defaultOptions_def by simp
  then show ?thesis by (simp add: parseOptions_def)
qed

text \<open>What is printed is nothing but a complaint about an argument and the defaults.\<close>

lemma parseOptions_output:
  "snd (parseOptions args ge) =
     (case fst (parseOptions args ge) of
        Inr _ \<Rightarrow> []
      | Inl e \<Rightarrow> (if e = ErrHelp then [] else [ErrorLine e]) @ usage shimFlags (defaultOptions ge))"
  by (auto simp: parseOptions_def parseOutput_def split: sum.splits flag_error.splits)

section \<open>Lemmas\<close>

lemma resolveToken_Inr:
  "resolveToken h opts w = (Inr tok, w') \<Longrightarrow> tok \<noteq> []"
  by (auto simp: resolveToken_def Let_def split: if_splits prod.splits sum.splits)

lemma parseCIDRs_single: "parseCIDR s = Some (ip, n) \<Longrightarrow> parseCIDRs s = Some [n]"
  using parseCIDR_trimmed [of s] parseCIDR_chars(2) [of s] by (simp add: parseCIDRs_def Let_def)

lemma newServer_sel:
  "sv_cfg (newServer cfg ca) = cfg" "sv_ca (newServer cfg ca) = ca"
  "sv_serviceErr (newServer cfg ca) \<longleftrightarrow> parseCIDRs (cfg_ServiceCIDR cfg) = None"
  "sv_serviceNets (newServer cfg ca) = (case parseCIDRs (cfg_ServiceCIDR cfg) of Some ns \<Rightarrow> ns | None \<Rightarrow> [])"
  "sv_once (newServer cfg ca) = False" "sv_agent (newServer cfg ca) = None"
  "sv_apiServers (newServer cfg ca) = (if cfg_APIServers cfg = [] then None else Some (cfg_APIServers cfg))"
  by (auto simp: newServer_def SetAPIServers_def Let_def)

lemma SetServingCA_sel [simp]:
  "sv_cfg (SetServingCA c s) = sv_cfg s" "sv_ca (SetServingCA c s) = sv_ca s" "sv_serviceErr (SetServingCA c s) = sv_serviceErr s"
  "sv_serviceNets (SetServingCA c s) = sv_serviceNets s" "sv_once (SetServingCA c s) = sv_once s"
  "sv_agent (SetServingCA c s) = sv_agent s" "sv_apiServers (SetServingCA c s) = sv_apiServers s"
  by (simp_all add: SetServingCA_def)

lemma servingCAStep_Some:
  "servingCAStep pf h opts s w = (Some s', w') \<Longrightarrow> s' = s \<or> (\<exists>c. s' = SetServingCA (Some c) s)"
  by (auto simp: servingCAStep_def split: if_splits prod.splits sum.splits)

lemma start_Serving:
  assumes "start l d opts w = (Serving ru, w')"
  obtains token w1 ca w2 tmpl w3 w5 s w6 where
    "resolveToken (d_host d) opts w = (Inr token, w1)" "parseCIDR (o_podCIDR opts) \<noteq> None" "parseCIDR (o_svcCIDR opts) \<noteq> None"
    "LoadCA (d_pf d) (d_host d) (o_caCert opts) (o_caKey opts) yearTTL w1 = (Inr ca, w2)"
    "readFile (d_host d) (o_templatePath opts) w2 = (Inr tmpl, w3)" "jsonValid tmpl"
    "servingCAStep (d_pf d) (d_host d) opts (newServer (makeConfig opts token tmpl) ca) w5 = (Some s, w6)"
    "ru_server ru = s" "ru_clientCAs ru = ca_PEM ca" "ru_discover ru = discoverPort opts"
proof -
  obtain token w1 where 1: "resolveToken (d_host d) opts w = (Inr token, w1)"
    using assms by (auto simp: start_def Let_def split: prod.splits sum.splits)
  have 2: "parseCIDR (o_podCIDR opts) \<noteq> None" "parseCIDR (o_svcCIDR opts) \<noteq> None"
    using assms 1 by (auto simp: start_def Let_def split: if_splits)
  obtain ca w2 where 3: "LoadCA (d_pf d) (d_host d) (o_caCert opts) (o_caKey opts) yearTTL w1 = (Inr ca, w2)"
    using assms 1 2 by (auto simp: start_def Let_def split: prod.splits sum.splits)
  obtain tmpl w3 where 4: "readFile (d_host d) (o_templatePath opts) w2 = (Inr tmpl, w3)" "jsonValid tmpl"
    using assms 1 2 3 by (auto simp: start_def Let_def split: prod.splits sum.splits if_splits)
  obtain u w4 u' w5 where 5: "kubeClientConfig l (o_kubeconfig opts) w3 = (Inr u, w4)"
    "l_newForConfig l (o_apiQPS opts, o_apiBurst opts) w4 = (Inr u', w5)"
    using assms 1 2 3 4 by (auto simp: start_def Let_def split: prod.splits sum.splits)
  obtain s w6 where 6: "servingCAStep (d_pf d) (d_host d) opts (newServer (makeConfig opts token tmpl) ca) w5 = (Some s, w6)"
    using assms 1 2 3 4 5 by (auto simp: start_def Let_def split: prod.splits option.splits)
  have "ru_server ru = s" "ru_clientCAs ru = ca_PEM ca" "ru_discover ru = discoverPort opts"
    using assms 1 2 3 4 5 6 by (auto simp: start_def Let_def split: prod.splits option.splits)
  then show ?thesis using that 1 2 3 4 6 by blast
qed

section \<open>What starting guarantees\<close>

text \<open>
  The join token is never empty, and comes from the token file when one is named, else from
  the flag, else from the environment, without surrounding white space.
\<close>

lemma resolveToken_exact:
  "resolveToken h opts w = (Inr tok, w') \<longleftrightarrow> tok \<noteq> [] \<and>
     (if o_tokenFile opts \<noteq> []
      then \<exists>b. readFile h (o_tokenFile opts) w = (Inr b, w') \<and> tok = trimSpace b
      else w' = w \<and> tok = trimSpace (if o_token opts \<noteq> [] then o_token opts else getenv h ''SHIM_TOKEN''))"
  by (auto simp: resolveToken_def Let_def split: prod.splits sum.splits)

text \<open>
  A supervisor that starts is configured safely: its token is not empty, so no request with
  an empty password is authorized; the service network is known, so the serving-address check is
  never skipped for lack of one; and it signs with the CA the listener verifies clients against.
\<close>

lemma main_Serving:
  assumes "main l d args w = (Serving ru, w')"
  shows "\<exists>opts. fst (parseOptions args (getenv (d_host d))) = Inr opts \<and>
    cfg_Token (sv_cfg (ru_server ru)) \<noteq> [] \<and>
    (authorized (ru_server ru) r \<longrightarrow> (\<exists>pass. BasicAuth r = Some (''node'', pass) \<and> pass \<noteq> [])) \<and>
    \<not> sv_serviceErr (ru_server ru) \<and>
    (\<exists>ip n. parseCIDR (o_svcCIDR opts) = Some (ip, n) \<and> sv_serviceNets (ru_server ru) = [n]) \<and>
    ru_clientCAs ru = ca_PEM (sv_ca (ru_server ru)) \<and> ru_discover ru = discoverPort opts"
proof -
  obtain opts where po: "fst (parseOptions args (getenv (d_host d))) = Inr opts" and st0: "start l d opts w = (Serving ru, w')"
    using assms by (auto simp: main_def split: sum.splits flag_error.splits)
  obtain token w1 ca w2 tmpl w3 w5 s w6 where st: "resolveToken (d_host d) opts w = (Inr token, w1)"
    "parseCIDR (o_svcCIDR opts) \<noteq> None"
    "servingCAStep (d_pf d) (d_host d) opts (newServer (makeConfig opts token tmpl) ca) w5 = (Some s, w6)"
    "ru_server ru = s" "ru_clientCAs ru = ca_PEM ca" "ru_discover ru = discoverPort opts"
    using start_Serving [OF st0] by metis
  obtain ip n where n: "parseCIDR (o_svcCIDR opts) = Some (ip, n)" using st(2) by auto
  let ?s = "newServer (makeConfig opts token tmpl) ca"
  have s: "sv_cfg s = makeConfig opts token tmpl" "sv_ca s = ca" "sv_serviceErr s = sv_serviceErr ?s"
    "sv_serviceNets s = sv_serviceNets ?s"
    using servingCAStep_Some [OF st(3)] by (auto simp: newServer_sel)
  have tok: "cfg_Token (sv_cfg s) \<noteq> []" using s resolveToken_Inr [OF st(1)] by (simp add: makeConfig_def)
  moreover have "authorized s r \<Longrightarrow> \<exists>pass. BasicAuth r = Some (''node'', pass) \<and> pass \<noteq> []"
    using tok by (auto simp: authorized_def basicUser_def split: option.splits)
  moreover have "\<not> sv_serviceErr s" "sv_serviceNets s = [n]"
    using s parseCIDRs_single [OF n] by (simp_all add: newServer_sel makeConfig_def)
  ultimately show ?thesis using st n s po by simp
qed

text \<open>
  No listener can be held open by a client that sends nothing: both bound the headers and idle
  connections. Only the metrics listener bounds whole requests, which would cut the tunnels of
  the main one. An empty metrics address binds no port at all.
\<close>

lemma listeners_bounded:
  "\<forall>s \<in> insert (newMainServer addr) (set_option (newMetricsServer addr')).
     0 < hs_ReadHeaderTimeout s \<and> 0 < hs_IdleTimeout s \<and> 0 < hs_MaxHeaderBytes s \<and> hs_MaxHeaderBytes s \<le> 64 * 2 ^ 10"
  "hs_ReadTimeout (newMainServer addr) = 0 \<and> hs_WriteTimeout (newMainServer addr) = 0"
  "newMetricsServer addr' = Some m \<Longrightarrow> hs_Addr m \<noteq> [] \<and> 0 < hs_ReadTimeout m \<and> 0 < hs_WriteTimeout m"
  by (auto simp: newMainServer_def newMetricsServer_def time_simps split: if_splits)

text \<open>
  Extra SANs: every non-blank entry ends up either as the address it parses to or, when it
  parses to none, as a DNS name, in order and with nothing lost.
\<close>

lemma parseSANs_partition:
  "parseSANs csv = (List.map_filter parseIP (splitCSV csv), filter (\<lambda>p. parseIP p = None) (splitCSV csv)) \<and>
   length (fst (parseSANs csv)) + length (snd (parseSANs csv)) = length (splitCSV csv) \<and> [] \<notin> set (splitCSV csv)"
proof -
  have "partitionSANs ps = (List.map_filter parseIP ps, filter (\<lambda>p. parseIP p = None) ps)" for ps
    by (induction ps) (auto simp: map_filter_simps split: option.splits)
  moreover have "length (List.map_filter parseIP ps) + length (filter (\<lambda>p. parseIP p = None) ps) = length ps" for ps
    by (induction ps) (auto simp: map_filter_simps split: option.splits)
  moreover have "[] \<notin> set (splitCSV csv)" by (simp add: splitCSV_def)
  ultimately show ?thesis by (simp add: parseSANs_def)
qed

section \<open>A concrete start\<close>

definition mem_ca_cert :: certificate where
  "mem_ca_cert = \<lparr>SerialNumber = 1, Subject = \<lparr>CommonName = ''ca'', Organization = []\<rparr>, NotBefore = 0, NotAfter = 1000 * day,
     KeyUsage = KeyUsageCertSign, ExtKeyUsage = [ExtKeyUsageServerAuth], BasicConstraintsValid = True, IsCA = True,
     DNSNames = [], IPAddresses = [], PublicKey = ECDSA P256 7 9\<rparr>"

definition file_host :: "mem host" where
  "file_host = mem_host\<lparr>readFile := (\<lambda>path w.
     if path = ''/pki/cluster-ca.crt'' then (Inr (field (mem_der mem_ca_cert)), w)
     else if path = ''/pki/cluster-ca.key'' then (Inr (field ''k''), w)
     else if path = ''/etc/rke2-shim/agent-config.json'' then (Inr mem_template, w)
     else (Inl ''no such file'', w))\<rparr>"

definition mem_launcher :: "mem launcher" where
  "mem_launcher = \<lparr>l_inClusterConfig = (\<lambda>w. (Inr (), w)), l_buildConfigFromFlags = (\<lambda>path w. (Inl ''no such file'', w)),
     l_newForConfig = (\<lambda>c w. (Inr (), w)),
     l_loadKeyPair = (\<lambda>c k w. (Inl ''no such file'', w))\<rparr>"

definition mem_options :: options where
  "mem_options = (defaultOptions (\<lambda>_. []))\<lparr>o_token := ''token''\<rparr>"

definition mem_start_deps :: "mem deps" where
  "mem_start_deps = mem_deps\<lparr>d_host := file_host\<rparr>"

lemma file_host_ops [simp]:
  "parseCertificate file_host = mem_parse" "createCertificate file_host t p k s w = (mem_create t k, w)"
  "randInt file_host n w = (Inr 5, w)" "pemDecode file_host text = Some (fst (unfield text))"
  "pemEncode file_host ty b = field b" "generateKey file_host cu w = (Inr mem_signer, w)"
  "marshalECPrivateKey file_host s = Inr (sk_secret s)" "getenv file_host v = []"
  "x509KeyPair file_host ce ke = (if ke = [] then Inl ''no key'' else Inr (fst (unfield ce)))"
  "parseECPrivateKey file_host s' = (if s' = ''k'' then Inr mem_signer else Inl ''malformed key'')"
  by (simp_all add: file_host_def mem_host_def)

lemma mem_token: "trimSpace ''token'' = ''token''"
  by code_simp

lemma mem_LoadCA:
  "\<exists>w'. LoadCA mem_platform file_host ''/pki/cluster-ca.crt'' ''/pki/cluster-ca.key'' yearTTL (mem_empty\<lparr>m_clock := day\<rparr>) =
     (Inr \<lparr>ca_Cert = Some mem_ca_cert, ca_Key = mem_signer, ca_PEM = field (mem_der mem_ca_cert), ca_MaxTTL = yearTTL\<rparr>, w')
     \<and> m_clock w' = day + 1"
proof -
  have p: "mem_parse (mem_der mem_ca_cert) = Inr mem_ca_cert"
    by simp
  have "loadCert file_host (field (mem_der mem_ca_cert)) = Inr mem_ca_cert"
    using p by (simp add: loadCert_def) (simp add: mem_ca_cert_def KeyUsageCertSign_def)
  moreover have "pairCA file_host pem mem_ca_cert (field ''k'') yearTTL day =
      Inr \<lparr>ca_Cert = Some mem_ca_cert, ca_Key = mem_signer, ca_PEM = pem, ca_MaxTTL = yearTTL\<rparr>" for pem
    by (simp add: pairCA_def parseKey_def) (simp add: mem_ca_cert_def mem_signer_def yearTTL_def time_simps)
  ultimately show ?thesis by (simp add: LoadCA_def file_host_def)
qed

lemma mem_starts: "\<exists>ru w'. start mem_launcher mem_start_deps mem_options (mem_empty\<lparr>m_clock := day\<rparr>) = (Serving ru, w')"
proof -
  obtain w2 where ca: "LoadCA mem_platform file_host ''/pki/cluster-ca.crt'' ''/pki/cluster-ca.key'' yearTTL (mem_empty\<lparr>m_clock := day\<rparr>) =
      (Inr \<lparr>ca_Cert = Some mem_ca_cert, ca_Key = mem_signer, ca_PEM = field (mem_der mem_ca_cert), ca_MaxTTL = yearTTL\<rparr>, w2)"
    and cl: "m_clock w2 = day + 1" using mem_LoadCA by blast
  have cidr: "parseCIDR ''10.244.0.0/16'' \<noteq> None" "parseCIDR ''10.96.0.0/12'' \<noteq> None"
    by (simp_all add: parseCIDR_def parseIP_simps ip_Mask_def Let_def)
  have o: "o_tokenFile mem_options = []" "o_token mem_options = ''token''" "o_podCIDR mem_options = ''10.244.0.0/16''"
    "o_svcCIDR mem_options = ''10.96.0.0/12''" "o_caCert mem_options = ''/pki/cluster-ca.crt''"
    "o_caKey mem_options = ''/pki/cluster-ca.key''" "o_templatePath mem_options = ''/etc/rke2-shim/agent-config.json''"
    "o_servingCACert mem_options = []" "o_tlsCert mem_options = []" "o_extraSANs mem_options = []" "o_kubeconfig mem_options = []"
    by (simp_all add: mem_options_def defaultOptions_def env_def)
  obtain m w7 where "NewManager mem_platform file_host \<lparr>ca_Cert = Some mem_ca_cert, ca_Key = mem_signer,
      ca_PEM = field (mem_der mem_ca_cert), ca_MaxTTL = yearTTL\<rparr> [] [] DefaultTTL w2 = (Inr m, w7)"
    using cl by (simp add: NewManager_def issue_def IssueSelf_def Let_def notAfter_def leafTemplate_def mem_ca_cert_def
        mem_create_def truncSecond_def DefaultTTL_def time_simps mem_signer_def)
  moreover have "readFile file_host ''/etc/rke2-shim/agent-config.json'' w2 = (Inr mem_template, w2)" by (simp add: file_host_def)
  moreover have "jsonValid mem_template" by (simp add: jsonValid_def mem_template_parse)
  moreover have "parseSANs [] = ([], [])" by code_simp
  ultimately show ?thesis
    using ca cidr o by (auto simp: start_def resolveToken_def mem_token servingCAStep_def servingPairStep_def
        mem_start_deps_def mem_launcher_def kubeClientConfig_def Let_def)
qed

lemma mem_flags:
  "parseFlags shimFlags [''--token=token''] (defaultOptions (\<lambda>_. [])) = Inr mem_options"
proof -
  have "applySettings shimFlags [(''token'', ''token'')] (defaultOptions (\<lambda>_. [])) = Some mem_options"
    by (simp add: shimFlags_def mem_options_def)
  from shim_flags.parse_settings [OF this] show ?thesis by (simp add: setting_def)
qed

lemma mem_main: "\<exists>ru w'. main mem_launcher mem_start_deps [''--token=token''] (mem_empty\<lparr>m_clock := day\<rparr>) = (Serving ru, w')"
proof -
  have "getenv (d_host mem_start_deps) = (\<lambda>_. [])" by (auto simp: mem_start_deps_def)
  then show ?thesis using mem_starts mem_flags by (simp add: main_def parseOptions_def)
qed

theorem command_line_overrides_witness:
  "\<exists>opts. parseOptions [''--api-qps=7'', ''--listen=:1'', ''--api-qps=7''] (\<lambda>_. []) = (Inr opts, []) \<and>
     o_apiQPS opts = 7 \<and> o_listen opts = '':1'' \<and> o_podCIDR opts = ''10.244.0.0/16''"
proof -
  let ?src = "(defaultOptions (\<lambda>_. []))\<lparr>o_apiQPS := 7, o_listen := '':1''\<rparr>" and ?names = "[''api-qps'', ''listen'', ''api-qps'']"
  have src: "int_options ?src" by (simp add: int_options_def defaultOptions_def envInt_def)
  have "set ?names \<subseteq> fst ` set shimFlags" by (simp add: shimFlags_def)
  note c = command_line_overrides [OF src this, of "\<lambda>_. []"]
  have seven: "itoa 7 = ''7''" by code_simp
  have "map (flagSetting ?src) ?names = [''--api-qps=7'', ''--listen=:1'', ''--api-qps=7'']"
    using seven by (simp add: flagSetting_def setting_def shimFlags_def)
  with c obtain opts where p: "parseOptions [''--api-qps=7'', ''--listen=:1'', ''--api-qps=7''] (\<lambda>_. []) = (Inr opts, [])"
    and v: "\<forall>n. map_of (optionTexts opts) n = map_of (optionTexts (if n \<in> set ?names then ?src else defaultOptions (\<lambda>_. []))) n" by auto
  have "itoa (o_apiQPS opts) = ''7''" "o_listen opts = '':1''" "o_podCIDR opts = ''10.244.0.0/16''"
    using v [rule_format, of "''api-qps''"] v [rule_format, of "''listen''"] v [rule_format, of "''pod-cidr''"] seven
    by (simp_all add: optionTexts_def defaultOptions_def env_def)
  then show ?thesis using p seven itoa_inj by metis
qed

end
