(* ===== verification/Server_State.thy ===== *)
theory Server_State
  imports Supervisor
begin

text \<open>
  The states a supervisor server goes through: built by New, then changed by requests, by the
  discovery loop (SetAPIServers) and by SetServingCA. The well-formedness of the fields is kept by
  all of them, and none changes the configuration, the client CA or the service networks.
\<close>

section \<open>What a request changes\<close>

text \<open>
  A request changes the server in two ways only: a refused one advances the warning limiter, the
  first one for the configuration fires the sync.Once.
\<close>

lemma auth_state:
  assumes "auth h d s r w = (rep, s', w')"
  shows "(\<exists>now. s' = s\<lparr>sv_authWarn := snd (allow (sv_authWarn s) now)\<rparr>) \<or> h d s r w = (rep, s', w')"
  using assms by (auto simp: auth_def split: if_splits prod.splits)

lemma handleConfig_state:
  "handleConfig d s r w = (rep, s', w') \<Longrightarrow> s' = (if sv_once s then s else snd (buildAgentConfig s))"
  by (auto simp: handleConfig_def Let_def split: if_splits prod.splits)

lemma simple_states:
  "handleCACerts d s r w = (rep, s', w') \<Longrightarrow> s' = s" "handleCA d s r w = (rep, s', w') \<Longrightarrow> s' = s"
  "handleReadyz d s r w = (rep, s', w') \<Longrightarrow> s' = s" "handleAPIServers d s r w = (rep, s', w') \<Longrightarrow> s' = s"
  "handleUnknown d s r w = (rep, s', w') \<Longrightarrow> s' = s"
  by (auto simp: handleCACerts_def handleCA_def handleReadyz_def handleAPIServers_def handleUnknown_def Let_def)

definition request_effect :: "server \<Rightarrow> server \<Rightarrow> bool" where
  "request_effect s s' \<longleftrightarrow>
     s' = s \<or> (\<exists>now. s' = s\<lparr>sv_authWarn := snd (allow (sv_authWarn s) now)\<rparr>) \<or>
     (\<not> sv_once s \<and> s' = snd (buildAgentConfig s))"

lemma route_effect:
  assumes "(p, h) \<in> set (Routes tunnel)" "h d s r w = (rep, s', w')"
  shows "request_effect s s'"
  using assms
  by (auto simp: Routes_def request_effect_def split: if_splits
      dest!: auth_state dest: simple_states handleConfig_state handleCert_state)

lemma serve_effect:
  assumes "serve tunnel d s r w = (rep, s', w')"
  shows "request_effect s s'"
  using assms
  by (auto simp: serve_def split: if_splits option.splits dest!: map_of_SomeD auth_state dest: route_effect simple_states)
     (auto simp: request_effect_def dest: simple_states(5))

section \<open>Well-formed servers\<close>

definition wf_server :: "server \<Rightarrow> bool" where
  "wf_server s \<longleftrightarrow>
     sv_serviceErr s = (parseCIDRs (cfg_ServiceCIDR (sv_cfg s)) = None) \<and>
     sv_serviceNets s = (case parseCIDRs (cfg_ServiceCIDR (sv_cfg s)) of Some ns \<Rightarrow> ns | None \<Rightarrow> []) \<and>
     sv_apiServers s \<noteq> Some [] \<and>
     sv_agent s = (if sv_once s then agentConfig (sv_cfg s) else None) \<and>
     ll_every (sv_authWarn s) = minute \<and> sv_csrReadTimeout s = defaultCSRReadTimeout"

inductive server_reach :: "bool \<Rightarrow> 'w deps \<Rightarrow> config \<Rightarrow> ca \<Rightarrow> server \<Rightarrow> bool" for tunnel d cfg ca where
  server_new: "server_reach tunnel d cfg ca (newServer cfg ca)"
| server_request: "server_reach tunnel d cfg ca s \<Longrightarrow> serve tunnel d s r w = (rep, s', w') \<Longrightarrow> server_reach tunnel d cfg ca s'"
| server_discovers: "server_reach tunnel d cfg ca s \<Longrightarrow> server_reach tunnel d cfg ca (SetAPIServers l s)"
| server_serving: "server_reach tunnel d cfg ca s \<Longrightarrow> server_reach tunnel d cfg ca (SetServingCA c s)"

lemma wf_new: "wf_server (newServer cfg ca) \<and> sv_cfg (newServer cfg ca) = cfg \<and> sv_ca (newServer cfg ca) = ca"
  by (auto simp: wf_server_def newServer_def SetAPIServers_def Let_def split: option.splits)

lemma wf_effect:
  assumes "request_effect s s'" "wf_server s"
  shows "wf_server s' \<and> sv_cfg s' = sv_cfg s \<and> sv_ca s' = sv_ca s"
  using assms
  by (auto simp: request_effect_def wf_server_def buildAgentConfig_def allow_def split: option.splits)

lemma wf_set: "wf_server s \<Longrightarrow> wf_server (SetAPIServers l s) \<and> wf_server (SetServingCA c s)"
  by (auto simp: wf_server_def SetAPIServers_def SetServingCA_def split: option.splits)

lemma set_keeps [simp]:
  "sv_cfg (SetAPIServers l s) = sv_cfg s" "sv_ca (SetAPIServers l s) = sv_ca s"
  "sv_cfg (SetServingCA c s) = sv_cfg s" "sv_ca (SetServingCA c s) = sv_ca s"
  by (auto simp: SetAPIServers_def SetServingCA_def split: option.splits)

text \<open>
  Whatever requests a server answers and whatever its discovery loop sets, its configuration and
  client CA are those it was built with, its service networks are the configured ones (with the
  error flag set exactly when they do not parse), the advertised list is never the empty list, and
  the agent configuration is unset before the first request for it and afterwards the one its
  settings determine, so every agent is told the same.
\<close>

lemma server_reach_wf:
  assumes "server_reach tunnel d cfg ca s"
  shows "wf_server s \<and> sv_cfg s = cfg \<and> sv_ca s = ca"
  using assms
proof induction
  case server_new
  then show ?case by (rule wf_new)
next
  case (server_request s r w rep s' w')
  then show ?case using wf_effect [OF serve_effect] by metis
next
  case (server_discovers s l)
  then show ?case using wf_set [of s l] by simp
next
  case (server_serving s c)
  then show ?case using wf_set [of s] by simp
qed

section \<open>The configuration on the wire\<close>

lemma hex_of_byte_ASCII: "list_all (in_range 0 0x7F) (hex_of_byte c)"
proof -
  have "in_range 0 0x7F (hex_char d)" if "d < 16" for d
    using that by (simp add: hex_char_def in_range_def)
  then show ?thesis by (simp add: hex_of_byte_def)
qed

lemma ip_String_ASCII: "list_all (in_range 0 0x7F) (ip_String ip)"
proof -
  have "in_range 0 0x7F c" if "is_hex c \<or> c = CHR '':''" for c using that by (auto simp: is_hex_def hex_value_def in_range_def Let_def split: if_splits)
  then have "list_all (in_range 0 0x7F) (string6 b)" for b using string6_chars by (auto simp: list_all_iff)
  moreover have "in_range 0 0x7F c" if "is_digit c \<or> c = CHR ''.''" for c using that by (auto simp: is_digit_def in_range_def)
  then have "list_all (in_range 0 0x7F) (string4 b)" for b using string4_chars by (auto simp: list_all_iff)
  moreover have "list_all (in_range 0 0x7F) (concat (map (\<lambda>b. hex_of_byte (char_of (unat b))) ip))"
    using hex_of_byte_ASCII by (fastforce simp: list_all_iff)
  ultimately show ?thesis by (simp add: ip_String_def in_range_def split: option.splits)
qed

lemma b64_ASCII: "list_all (in_range 0 0x7F) (b64_std_encode s)"
proof -
  have "in_range 0 0x7F c" if "b64_value c \<noteq> None" for c
    using that by (auto simp: b64_value_def in_range_def Let_def split: if_splits)
  then have "list_all (in_range 0 0x7F) (b64_raw_encode s)" using b64_raw_encode_value by (auto simp: list_all_iff)
  then show ?thesis by (simp add: b64_std_encode_def b64_pad_def Let_def in_range_def)
qed

text \<open>Settings that are text: the strings that go into the configuration as they are.\<close>

definition text_config :: "config \<Rightarrow> bool" where
  "text_config c \<longleftrightarrow> toValidUTF8 (cfg_ClusterDNS c) = cfg_ClusterDNS c \<and> toValidUTF8 (cfg_ClusterDomain c) = cfg_ClusterDomain c"

lemma ipNet_ok: "json_ok (ipNet cidr) \<and> json_depth (ipNet cidr) \<le> 1 \<and> canon (ipNet cidr) = ipNet cidr"
  by (auto simp: ipNet_def toValidUTF8_ASCII ip_String_ASCII b64_ASCII in_range_def split: option.splits)

lemma overrides_ok:
  assumes "text_config c" "(k, v) \<in> set (overrides c)"
  shows "toValidUTF8 k = k \<and> json_ok v \<and> json_depth v \<le> 2 \<and> canon v = v"
proof -
  have d: "json_depth (ipNet x) \<le> 2" for x using ipNet_ok [of x] by linarith
  show ?thesis
    using assms ipNet_ok d by (auto simp: overrides_def text_config_def Let_def toValidUTF8_ASCII in_range_def)
qed

text \<open>A map whose values can be written inside it.\<close>

definition map_ok :: "(string \<times> json) list \<Rightarrow> bool" where
  "map_ok m \<longleftrightarrow> frame_ok 1 (InObj m [])"

lemma map_ok_update: "map_ok m \<Longrightarrow> toValidUTF8 k = k \<Longrightarrow> value_ok 1 v \<Longrightarrow> map_ok (AList.update k v m)"
  by (auto simp: map_ok_def distinct_update intro!: AList_update_ok)

lemma map_ok_updates:
  "map_ok m \<Longrightarrow> (\<And>k v. (k, v) \<in> set kvs \<Longrightarrow> toValidUTF8 k = k \<and> value_ok 1 v) \<Longrightarrow>
   map_ok (foldl (\<lambda>m (k, v). AList.update k v m) m kvs)"
proof (induction kvs arbitrary: m)
  case (Cons p kvs)
  obtain k v where p: "p = (k, v)" by (rule prod.exhaust)
  then have "map_ok (AList.update k v m)" using Cons.prems by (intro map_ok_update) auto
  then have "map_ok (foldl (\<lambda>m (k, v). AList.update k v m) (AList.update k v m) kvs)" using Cons.prems(2) by (intro Cons.IH) auto
  then show ?case using p by simp
qed simp

lemma unmarshalMap_ok:
  assumes "unmarshalMap s = Some m" shows "map_ok m"
proof (cases "jsonParse s = Some (JObj m)")
  case True
  then have j: "json_ok (JObj m)" "json_depth (JObj m) \<le> maxNestingDepth" using jsonParse_ok by blast+
  have "value_ok 1 v" if "(k, v) \<in> set m" for k v
  proof -
    have "json_depth v \<le> foldr (\<lambda>(k, d). max d) (map (map_prod id json_depth) m) 0"
      using that by (intro foldr_max_snd_le [of k]) force
    then show ?thesis using j that by (auto simp: value_ok_def list_all_iff)
  qed
  then show ?thesis using j(1) by (auto simp: map_ok_def list_all_iff)
next
  case False
  then have "m = []" using assms by (auto simp: unmarshalMap_def split: option.splits json.splits if_splits)
  then show ?thesis by (simp add: map_ok_def)
qed

lemma agentConfig_ok:
  assumes "text_config c" "agentConfig c = Some m"
  shows "json_ok (JObj m) \<and> json_depth (JObj m) \<le> maxNestingDepth"
proof -
  obtain t where t: "map_ok t" and m: "m = foldl scrub (foldl (\<lambda>m (k, v). AList.update k v m) t (overrides c)) secretKeysToScrub"
  proof (cases "cfg_AgentConfigRaw c = []")
    case True
    then show ?thesis using that [of "[]"] assms(2) by (simp add: agentConfig_def map_ok_def)
  next
    case False
    then show ?thesis using that assms(2) unmarshalMap_ok by (auto simp: agentConfig_def Let_def)
  qed
  have "toValidUTF8 k = k \<and> value_ok 1 v" if "(k, v) \<in> set (overrides c)" for k v
    using overrides_ok [OF assms(1) that] by (auto simp: value_ok_def maxNestingDepth_def)
  then have o: "map_ok (foldl (\<lambda>m (k, v). AList.update k v m) t (overrides c))" using map_ok_updates [OF t] by blast
  have "map_ok m"
    unfolding m secretKeysToScrub_def
    using map_ok_update [OF o, of "''IPSECPSK''" "JStr []"] o
    by (simp add: scrub_def value_ok_def maxNestingDepth_def toValidUTF8_ASCII in_range_def)
  then show ?thesis using obj_ok [of 0 m "[]"] by (simp add: map_ok_def value_ok_def maxNestingDepth_def)
qed

text \<open>
  (C35) The configuration an agent reads. Whatever the server did before, a request for the agent
  configuration is answered with a text that a JSON reader accepts, and what it reads is: every
  override with the configured value, the captured cluster's secret blanked where the template has
  one, and every other key with the value the template gives it (objects inside with their keys in
  order). The template is any file that parses, and the settings any text.
\<close>

theorem served_config_exact:
  assumes "server_reach tunnel d cfg ca s" and "text_config cfg" and "agentConfig cfg \<noteq> None"
    and "handleConfig d s r w = (rep, s', w')"
  shows "\<exists>t m. rep = http_OK ''application/json'' (Text t) \<and> jsonParse t = Some (JObj m) \<and>
    (\<forall>(k, v) \<in> set (overrides cfg). map_of m k = Some v) \<and>
    map_of m ''IPSECPSK'' \<in> {None, Some (JStr [])} \<and>
    (\<exists>template. (cfg_AgentConfigRaw cfg = [] \<and> template = [] \<or> unmarshalMap (cfg_AgentConfigRaw cfg) = Some template) \<and>
       (\<forall>k. k \<notin> fst ` set (overrides cfg) \<and> k \<noteq> ''IPSECPSK'' \<longrightarrow> map_of m k = map_option canon (map_of template k)))"
proof -
  obtain m where m: "agentConfig cfg = Some m" using assms(3) by auto
  note a = agentConfig_values [OF m] and ok = agentConfig_ok [OF assms(2) m]
  have "sv_cfg s = cfg" "sv_agent s = (if sv_once s then Some m else None)"
    using server_reach_wf [OF assms(1)] m by (auto simp: wf_server_def)
  then have rep: "rep = http_OK ''application/json'' (Text (encodeLine (JObj m)))"
    using assms(4) m by (auto simp: handleConfig_def buildAgentConfig_def jsonMap_def Let_def split: if_splits)
  let ?m = "sort_key fst (map (map_prod id canon) m)"
  have p: "jsonParse (encodeLine (JObj m)) = Some (JObj ?m)" using jsonParse_encode ok by (metis canon.simps(6))
  have l: "map_of ?m k = map_option canon (map_of m k)" for k
    using map_of_canon [of m k] ok by (simp only: json_ok.simps)
  obtain template where t: "cfg_AgentConfigRaw cfg = [] \<and> template = [] \<or> unmarshalMap (cfg_AgentConfigRaw cfg) = Some template"
    and k: "\<forall>k. k \<notin> fst ` set (overrides cfg) \<and> k \<noteq> ''IPSECPSK'' \<longrightarrow> map_of m k = map_of template k"
    using a by blast
  have "\<forall>(k, v) \<in> set (overrides cfg). map_of ?m k = Some v" using a overrides_ok [OF assms(2)] l by fastforce
  moreover have "map_of ?m ''IPSECPSK'' \<in> {None, Some (JStr [])}" using a l by auto
  moreover have "\<forall>k. k \<notin> fst ` set (overrides cfg) \<and> k \<noteq> ''IPSECPSK'' \<longrightarrow> map_of ?m k = map_option canon (map_of template k)"
    using k l by metis
  ultimately show ?thesis using rep p t by blast
qed

theorem served_config_exact_witness:
  "\<exists>s' t m. handleConfig mem_deps (newServer mem_config mem_ca) mem_kubelet mem_empty = (http_OK ''application/json'' (Text t), s', mem_empty) \<and>
     jsonParse t = Some (JObj m) \<and> map_of m ''FlannelBackend'' = Some (JStr ''none'') \<and>
     map_of m ''New'' = Some (JNum (F64 False (2 ^ 52) (- 52)))"
proof -
  let ?s = "newServer mem_config mem_ca"
  have c: "text_config mem_config" by (simp add: text_config_def mem_config_def toValidUTF8_ASCII in_range_def)
  have raw: "cfg_AgentConfigRaw mem_config = mem_template" by (simp add: mem_config_def)
  have ne: "mem_template \<noteq> []" by (simp add: mem_template_def encodeLine_def)
  have g: "agentConfig mem_config \<noteq> None" by (simp add: agentConfig_def raw mem_template_map)
  obtain rep s' w' where h: "handleConfig mem_deps ?s mem_kubelet mem_empty = (rep, s', w')" by (metis prod_cases3)
  have w: "w' = mem_empty" using h by (auto simp: handleConfig_def Let_def split: prod.splits if_splits)
  obtain t m template where r: "rep = http_OK ''application/json'' (Text t)" "jsonParse t = Some (JObj m)"
    "\<forall>(k, v) \<in> set (overrides mem_config). map_of m k = Some v"
    and tp: "mem_template = [] \<and> template = [] \<or> unmarshalMap mem_template = Some template"
    and k: "\<forall>k. k \<notin> fst ` set (overrides mem_config) \<and> k \<noteq> ''IPSECPSK'' \<longrightarrow> map_of m k = map_option canon (map_of template k)"
    using served_config_exact [OF server_new c g h] unfolding raw by blast
  have "(''FlannelBackend'', JStr ''none'') \<in> set (overrides mem_config)" by (simp add: overrides_def Let_def)
  moreover have "''New'' \<notin> fst ` set (overrides mem_config)" by (simp add: overrides_def Let_def)
  moreover have "map_of template ''New'' = Some (JNum (F64 False (2 ^ 52) (- 52)))" using tp ne mem_template_map by auto
  ultimately have "map_of m ''FlannelBackend'' = Some (JStr ''none'')" "map_of m ''New'' = Some (JNum (F64 False (2 ^ 52) (- 52)))"
    using r(3) k by auto
  then show ?thesis using h r(1,2) w by blast
qed

end
