(* ===== verification/Loadgen.thy ===== *)
theory Loadgen
  imports Http Host "HOL-Library.List_Lexorder" "HOL-Library.Char_ord" "HOL-Library.Multiset"
begin

text \<open>
  Model of src/hack/loadgen/main.go, the load generator: the requests a synthetic agent sends, what
  it makes of the answers and the report over all of them. The HTTP client, the clock and the
  X.509 library are the record \<open>agent\<close> of operations on a world. The report is
  a value here; its text and the command line are in theory Load_Text, the goroutines that run the
  bootstraps in theory Load_Run.
\<close>

section \<open>Options, samples and the outside world\<close>

record load_options =
  lg_server :: string
  lg_token :: string
  lg_nodes :: int
  lg_concurrency :: int
  lg_prefix :: string
  lg_withTunnels :: bool
  lg_hold :: duration
  lg_timeout :: duration

definition defaultLoadOptions :: load_options where
  "defaultLoadOptions =
     \<lparr>lg_server = [], lg_token = [], lg_nodes = 50, lg_concurrency = 16, lg_prefix = ''loadgen'',
      lg_withTunnels = False, lg_hold = 0, lg_timeout = 30 * second\<rparr>"

text \<open>One timed request; the error is kept as its text.\<close>

record sample =
  sm_endpoint :: string
  sm_d :: duration
  sm_err :: "string option"

text \<open>
  An answer as the client sees it: the bytes its body delivers, and the bytes behind them in the
  buffer io.ReadAll returns, up to the capacity.
\<close>

record http_response =
  hr_StatusCode :: nat
  hr_Status :: string
  hr_Body :: string
  hr_spare :: string

text \<open>
  \<open>ag_newRequest\<close> is the URL check of http.NewRequest and yields the request's path; \<open>ag_do\<close> is
  Client.Do on a URL and a request; \<open>ag_createCSR\<close> is x509.CreateCertificateRequest for a common
  name and a key.
\<close>

record 'v agent =
  ag_newRequest :: "string \<Rightarrow> (string, string) result"
  ag_do :: "string \<Rightarrow> http_request \<Rightarrow> 'v \<Rightarrow> (string, http_response) result \<times> 'v"
  ag_generateKey :: "curve \<Rightarrow> 'v \<Rightarrow> (string, signer) result \<times> 'v"
  ag_createCSR :: "string \<Rightarrow> signer \<Rightarrow> 'v \<Rightarrow> (string, string) result \<times> 'v"
  ag_now :: "'v \<Rightarrow> time \<times> 'v"

section \<open>Requests\<close>

text \<open>A request either returns, with or without an error, or panics.\<close>

datatype outcome = Done "string option" | Crash

text \<open>
  \<open>bytes.TrimSpace(body)[:min(120, len(body))]\<close>. Slicing is bounded by the capacity, not by the
  length: the slice starts at the first byte that is not white space and may run on over the
  trimmed tail into the rest of the buffer. TrimSpace of blank bytes is nil, of capacity 0.
\<close>

definition clipBody :: "string \<Rightarrow> string \<Rightarrow> string option" where
  "clipBody body spare =
     (let m = min 120 (length body); lead = length body - length (trim_left space_runes body) in
      if trimSpace body = [] then (if m = 0 then Some [] else None)
      else if m \<le> length body - lead + length spare then Some (take m (drop lead (body @ spare))) else None)"

definition do_request :: "'v agent \<Rightarrow> string \<Rightarrow> http_request \<Rightarrow> 'v \<Rightarrow> outcome \<times> 'v" where
  "do_request ag url r v =
     (case ag_do ag url r v of
        (Inl e, v1) \<Rightarrow> (Done (Some e), v1)
      | (Inr resp, v1) \<Rightarrow>
          (let body = take 4096 (hr_Body resp) in
           if hr_StatusCode resp \<ge> 300 then
             (case clipBody body (hr_spare resp) of
                None \<Rightarrow> (Crash, v1)
              | Some text \<Rightarrow> (Done (Some (hr_Status resp @ '': '' @ text)), v1))
           else (Done None, v1)))"

text \<open>Header.Set in a loop over a map with distinct canonical keys.\<close>

definition get :: "load_options \<Rightarrow> 'v agent \<Rightarrow> string \<Rightarrow> string \<Rightarrow> (string \<times> string) list \<Rightarrow> 'v \<Rightarrow> outcome \<times> 'v" where
  "get opt ag path tok hdr v =
     (let url = lg_server opt @ path in
      case ag_newRequest ag url of
        Inl e \<Rightarrow> (Done (Some e), v)
      | Inr p \<Rightarrow>
          (let auth = (if tok \<noteq> [] then [(''Authorization'', basicAuthHeader ''node'' tok)] else []) in
           do_request ag url
             \<lparr>rq_Method = ''GET'', rq_Path = p, rq_Header = auth @ hdr, rq_Body = [], rq_BodyErr = None\<rparr> v))"

definition postCSR :: "load_options \<Rightarrow> 'v agent \<Rightarrow> string \<Rightarrow> string \<Rightarrow> (string \<times> string) list \<Rightarrow> 'v \<Rightarrow> outcome \<times> 'v" where
  "postCSR opt ag path cn hdr v =
     (case ag_generateKey ag P256 v of
        (Inl e, v1) \<Rightarrow> (Done (Some e), v1)
      | (Inr key, v1) \<Rightarrow>
     (case ag_createCSR ag cn key v1 of
        (Inl e, v2) \<Rightarrow> (Done (Some e), v2)
      | (Inr der, v2) \<Rightarrow>
     (let url = lg_server opt @ path in
      case ag_newRequest ag url of
        Inl e \<Rightarrow> (Done (Some e), v2)
      | Inr p \<Rightarrow>
          do_request ag url
            \<lparr>rq_Method = ''POST'', rq_Path = p,
             rq_Header = (''Authorization'', basicAuthHeader ''node'' (lg_token opt)) # hdr,
             rq_Body = der, rq_BodyErr = None\<rparr> v2)))"

section \<open>The bootstrap of one node\<close>

record tally =
  tl_samples :: "sample list"
  tl_ok :: nat
  tl_bad :: nat

definition noSamples :: tally where
  "noSamples = \<lparr>tl_samples = [], tl_ok = 0, tl_bad = 0\<rparr>"

definition appendSample :: "sample \<Rightarrow> tally \<Rightarrow> tally" where
  "appendSample s t = t\<lparr>tl_samples := tl_samples t @ [s]\<rparr>"

definition countSample :: "sample \<Rightarrow> tally \<Rightarrow> tally" where
  "countSample s t = (if sm_err s \<noteq> None then t\<lparr>tl_bad := tl_bad t + 1\<rparr> else t\<lparr>tl_ok := tl_ok t + 1\<rparr>)"

definition record_sample :: "sample \<Rightarrow> tally \<Rightarrow> tally" where
  "record_sample s t = countSample s (appendSample s t)"

text \<open>The closure timed: a request that panics records nothing.\<close>

definition timed :: "'v agent \<Rightarrow> string \<Rightarrow> ('v \<Rightarrow> outcome \<times> 'v) \<Rightarrow> tally \<Rightarrow> 'v \<Rightarrow> tally option \<times> 'v" where
  "timed ag endpoint f t v =
     (case ag_now ag v of
        (t0, v1) \<Rightarrow>
     (case f v1 of
        (Crash, v2) \<Rightarrow> (None, v2)
      | (Done err, v2) \<Rightarrow>
     (case ag_now ag v2 of
        (t1, v3) \<Rightarrow> (Some (record_sample \<lparr>sm_endpoint = endpoint, sm_d = time_Sub t1 t0, sm_err = err\<rparr> t), v3))))"

fun timedAll :: "'v agent \<Rightarrow> (string \<times> ('v \<Rightarrow> outcome \<times> 'v)) list \<Rightarrow> tally \<Rightarrow> 'v \<Rightarrow> tally option \<times> 'v" where
  "timedAll ag [] t v = (Some t, v)"
| "timedAll ag ((endpoint, f) # steps) t v =
     (case timed ag endpoint f t v of
        (None, v1) \<Rightarrow> (None, v1)
      | (Some t1, v1) \<Rightarrow> timedAll ag steps t1 v1)"

definition nodePasswordOf :: "string \<Rightarrow> string" where
  "nodePasswordOf node = node @ ''-pw-do-not-reuse''"

definition nodeHdr :: "string \<Rightarrow> (string \<times> string) list" where
  "nodeHdr node =
     [(''Rke2-Node-Name'', node), (''Rke2-Node-Password'', nodePasswordOf node), (''Rke2-Node-Ip'', ''10.255.255.1'')]"

definition bootstrapSteps :: "load_options \<Rightarrow> 'v agent \<Rightarrow> string \<Rightarrow> (string \<times> ('v \<Rightarrow> outcome \<times> 'v)) list" where
  "bootstrapSteps opt ag node =
     [(''GET /cacerts'', get opt ag ''/cacerts'' [] []),
      (''GET /v1-rke2/config'', get opt ag ''/v1-rke2/config'' (lg_token opt) []),
      (''GET /v1-rke2/client-ca.crt'', get opt ag ''/v1-rke2/client-ca.crt'' (lg_token opt) []),
      (''GET /v1-rke2/server-ca.crt'', get opt ag ''/v1-rke2/server-ca.crt'' (lg_token opt) []),
      (''POST serving-kubelet.crt'', postCSR opt ag ''/v1-rke2/serving-kubelet.crt'' node (nodeHdr node)),
      (''POST client-kubelet.crt'', postCSR opt ag ''/v1-rke2/client-kubelet.crt'' node (nodeHdr node)),
      (''POST client-kube-proxy.crt'', postCSR opt ag ''/v1-rke2/client-kube-proxy.crt'' node []),
      (''POST client-rke2-controller.crt'', postCSR opt ag ''/v1-rke2/client-rke2-controller.crt'' node []),
      (''GET /v1-rke2/apiservers'', get opt ag ''/v1-rke2/apiservers'' (lg_token opt) [])]"

definition bootstrap :: "load_options \<Rightarrow> 'v agent \<Rightarrow> string \<Rightarrow> tally \<Rightarrow> 'v \<Rightarrow> tally option \<times> 'v" where
  "bootstrap opt ag node t v = timedAll ag (bootstrapSteps opt ag node) t v"

text \<open>The name of the i-th synthetic node, fmt's \<open>%s-%04d\<close>.\<close>

definition syntheticName :: "load_options \<Rightarrow> nat \<Rightarrow> string" where
  "syntheticName opt i = lg_prefix opt @ ''-'' @ dec_padded 4 i"

section \<open>The report\<close>

record report_row =
  rr_endpoint :: string
  rr_n :: nat
  rr_p50 :: duration
  rr_p95 :: duration
  rr_p99 :: duration
  rr_max :: duration

text \<open>The error table lists endpoint and text with their count; Go prints it in map order.\<close>

record load_report =
  rp_rows :: "report_row list"
  rp_ok :: nat
  rp_bad :: nat
  rp_errors :: "(string \<times> (string \<times> nat) list) list"

definition pct :: "duration list \<Rightarrow> nat \<Rightarrow> duration" where
  "pct ds p = (if length ds = 0 then 0 else ds ! ((length ds - 1) * p div 100))"

text \<open>An entry of a Go map, the zero value where the key is missing.\<close>

definition entry :: "('k \<times> 'v) list \<Rightarrow> 'k \<Rightarrow> 'v \<Rightarrow> 'v" where
  "entry m k zero = (case map_of m k of Some v \<Rightarrow> v | None \<Rightarrow> zero)"

definition reportStep :: "(string \<times> duration list) list \<times> (string \<times> (string \<times> nat) list) list \<Rightarrow> sample
    \<Rightarrow> (string \<times> duration list) list \<times> (string \<times> (string \<times> nat) list) list" where
  "reportStep st s =
     (case st of (byEP, errs) \<Rightarrow>
      case sm_err s of
        Some e \<Rightarrow>
          (let m = entry errs (sm_endpoint s) [] in
           (byEP, AList.update (sm_endpoint s) (AList.update e (entry m e 0 + 1) m) errs))
      | None \<Rightarrow> (AList.update (sm_endpoint s) (entry byEP (sm_endpoint s) [] @ [sm_d s]) byEP, errs))"

definition reportRow :: "(string \<times> duration list) list \<Rightarrow> string \<Rightarrow> report_row" where
  "reportRow byEP k =
     (let d = sort (entry byEP k []) in
      \<lparr>rr_endpoint = k, rr_n = length d, rr_p50 = pct d 50, rr_p95 = pct d 95, rr_p99 = pct d 99,
       rr_max = d ! (length d - 1)\<rparr>)"

definition report :: "sample list \<Rightarrow> nat \<Rightarrow> nat \<Rightarrow> load_report" where
  "report samples ok bad =
     (let (byEP, errs) = foldl reportStep ([], []) samples in
      \<lparr>rp_rows = map (reportRow byEP) (sort (map fst byEP)), rp_ok = ok, rp_bad = bad, rp_errors = errs\<rparr>)"

section \<open>Lemmas on the report\<close>

text \<open>The successful durations and the failures of an endpoint, read off the samples.\<close>

definition okDurations :: "sample list \<Rightarrow> string \<Rightarrow> duration list" where
  "okDurations samples ep = map sm_d (filter (\<lambda>s. sm_endpoint s = ep \<and> sm_err s = None) samples)"

definition failures :: "sample list \<Rightarrow> string \<Rightarrow> string \<Rightarrow> nat" where
  "failures samples ep e = length (filter (\<lambda>s. sm_endpoint s = ep \<and> sm_err s = Some e) samples)"

text \<open>An order statistic: \<open>x\<close> is the value at rank \<open>i\<close>, counted from 0.\<close>

definition at_rank :: "duration list \<Rightarrow> nat \<Rightarrow> duration \<Rightarrow> bool" where
  "at_rank ds i x \<longleftrightarrow> x \<in> set ds \<and> length (filter (\<lambda>y. y < x) ds) \<le> i \<and> i < length (filter (\<lambda>y. y \<le> x) ds)"

lemma at_rank_perm: "mset ds = mset es \<Longrightarrow> at_rank ds i x \<longleftrightarrow> at_rank es i x"
  by (metis at_rank_def mset_eq_setD mset_filter size_mset)

lemma at_rank_sorted:
  assumes "sorted ds" "i < length ds"
  shows "at_rank ds i (ds ! i)"
proof -
  let ?x = "ds ! i"
  have "filter (\<lambda>y. y < ?x) (drop i ds) = []"
    using assms by (auto simp: filter_empty_conv in_set_conv_nth not_less intro!: sorted_nth_mono)
  then have lt: "filter (\<lambda>y. y < ?x) ds = filter (\<lambda>y. y < ?x) (take i ds)"
    by (metis append_Nil2 append_take_drop_id filter_append)
  have "\<forall>y \<in> set (take (Suc i) ds). y \<le> ?x"
    using assms by (auto simp: in_set_conv_nth intro!: sorted_nth_mono)
  then have "length (filter (\<lambda>y. y \<le> ?x) (take (Suc i) ds)) = Suc i"
    using assms(2) by simp
  moreover have "length (filter (\<lambda>y. y \<le> ?x) (take (Suc i) ds)) \<le> length (filter (\<lambda>y. y \<le> ?x) ds)"
    by (metis append_take_drop_id filter_append length_append le_add1)
  ultimately show ?thesis
    using assms(2) lt le_trans [OF length_filter_le, of "take i ds" i] by (simp add: at_rank_def)
qed

lemma rank_less:
  assumes "0 < n" "p \<le> 100"
  shows "(n - 1) * p div 100 < (n :: nat)"
proof -
  have "(n - 1) * p div 100 \<le> (n - 1) * 100 div 100" using assms(2) by (intro div_le_mono mult_le_mono2)
  then show ?thesis using assms(1) by simp
qed

lemma pct_at_rank:
  assumes "ds \<noteq> []" "p \<le> 100"
  shows "at_rank ds ((length ds - 1) * p div 100) (pct (sort ds) p)"
proof -
  let ?i = "(length ds - 1) * p div 100"
  have "?i < length ds" using assms by (intro rank_less) simp_all
  then have "at_rank (sort ds) ?i (sort ds ! ?i)" by (intro at_rank_sorted) simp_all
  then show ?thesis
    using assms(1) at_rank_perm [of "sort ds" ds] by (simp add: pct_def)
qed

lemma pct_mono:
  assumes "p \<le> q" "q \<le> 100"
  shows "pct (sort ds) p \<le> pct (sort ds) q"
proof (cases "ds = []")
  case False
  have "(length ds - 1) * p div 100 \<le> (length ds - 1) * q div 100"
    using assms(1) by (intro div_le_mono mult_le_mono2)
  moreover have "(length ds - 1) * q div 100 < length ds"
    using assms(2) False by (intro rank_less) simp_all
  ultimately have "sort ds ! ((length ds - 1) * p div 100) \<le> sort ds ! ((length ds - 1) * q div 100)"
    by (intro sorted_nth_mono) simp_all
  then show ?thesis using False by (simp add: pct_def)
qed (simp add: pct_def)

lemma sort_last: "ds \<noteq> [] \<Longrightarrow> sort ds ! (length ds - 1) = Max (set ds)"
proof -
  assume ne: "ds \<noteq> []"
  then have l: "length ds - 1 < length (sort ds)" by (cases ds) auto
  have "x \<le> sort ds ! (length ds - 1)" if "x \<in> set ds" for x
  proof -
    obtain i where "i < length ds" "x = sort ds ! i"
      using \<open>x \<in> set ds\<close> by (metis in_set_conv_nth length_sort set_sort)
    then show ?thesis using l by (auto intro!: sorted_nth_mono)
  qed
  moreover have "sort ds ! (length ds - 1) \<in> set ds" using l by (metis nth_mem set_sort)
  ultimately show ?thesis by (auto intro!: Max_eqI [symmetric])
qed

text \<open>What the loop of report has gathered after any number of samples.\<close>

definition gathered :: "sample list \<Rightarrow> (string \<times> duration list) list \<Rightarrow> (string \<times> (string \<times> nat) list) list \<Rightarrow> bool" where
  "gathered samples byEP errs \<longleftrightarrow>
     distinct (map fst byEP) \<and>
     (\<forall>ep. map_of byEP ep = (if okDurations samples ep = [] then None else Some (okDurations samples ep))) \<and>
     (\<forall>ep e. map_of (entry errs ep []) e = (if failures samples ep e = 0 then None else Some (failures samples ep e)))"

lemma okDurations_snoc:
  "okDurations (samples @ [s]) ep =
     okDurations samples ep @ (if sm_endpoint s = ep \<and> sm_err s = None then [sm_d s] else [])"
  by (simp add: okDurations_def)

lemma failures_snoc:
  "failures (samples @ [s]) ep e = failures samples ep e + (if sm_endpoint s = ep \<and> sm_err s = Some e then 1 else 0)"
  by (simp add: failures_def)

lemma entry_update: "entry (AList.update k v m) k' z = (if k' = k then v else entry m k' z)"
  by (simp add: entry_def update_conv')

lemma report_counts [simp]: "rp_ok (report samples ok bad) = ok" "rp_bad (report samples ok bad) = bad"
  by (simp_all add: report_def split: prod.splits)

lemma gathered_step:
  assumes "gathered samples byEP errs" "reportStep (byEP, errs) s = (byEP', errs')"
  shows "gathered (samples @ [s]) byEP' errs'"
proof (cases "sm_err s")
  case None
  then have "errs' = errs" "byEP' = AList.update (sm_endpoint s) (entry byEP (sm_endpoint s) [] @ [sm_d s]) byEP"
    using assms(2) by (simp_all add: reportStep_def)
  moreover have "entry byEP ep [] = okDurations samples ep" for ep
    using assms(1) by (simp add: gathered_def entry_def)
  ultimately show ?thesis
    using assms(1) None
    by (auto simp: gathered_def okDurations_snoc failures_snoc update_conv' distinct_update)
next
  case (Some e)
  then have "byEP' = byEP" and e': "errs' = AList.update (sm_endpoint s)
      (AList.update e (entry (entry errs (sm_endpoint s) []) e 0 + 1) (entry errs (sm_endpoint s) [])) errs"
    using assms(2) by (simp_all add: reportStep_def Let_def)
  moreover have "entry (entry errs ep []) e 0 = failures samples ep e" for ep
    using assms(1) by (simp add: gathered_def entry_def [of _ e])
  ultimately show ?thesis
    using assms(1) Some
    by (auto simp: gathered_def okDurations_snoc failures_snoc entry_update update_conv')
qed

lemma gathered_all: "\<exists>byEP errs. foldl reportStep ([], []) samples = (byEP, errs) \<and> gathered samples byEP errs"
proof (induction samples rule: rev_induct)
  case Nil
  then show ?case by (simp add: gathered_def okDurations_def failures_def entry_def)
next
  case (snoc s samples)
  then obtain byEP errs where g: "foldl reportStep ([], []) samples = (byEP, errs)" "gathered samples byEP errs" by blast
  then show ?case
    using gathered_step [OF g(2)] by (cases "reportStep (byEP, errs) s") simp
qed

section \<open>Lemmas on requests\<close>

lemma trimSpace_prefix: "\<exists>t. trim_left space_runes s = trimSpace s @ t"
proof -
  obtain p where "rev (trim_left space_runes s) = p @ trim_left (map rev space_runes) (rev (trim_left space_runes s))"
    using trim_left_props(2) by blast
  then have "trim_left space_runes s = trimSpace s @ rev p"
    unfolding trimSpace_def by (metis rev_append rev_rev_ident)
  then show ?thesis by blast
qed

lemma drop_lead: "drop (length s - length (trim_left space_runes s)) s = trim_left space_runes s"
proof -
  obtain p where "s = p @ trim_left space_runes s" using trim_left_props(2) by blast
  then show ?thesis by (metis append_eq_conv_conj diff_diff_cancel length_append length_drop le_add1 add_diff_cancel_right')
qed

lemma take_take_prefix: "take (length t) (take m (t @ u)) = take m t"
  by (metis append_eq_conv_conj min.commute take_take)

lemma clipBody_Some:
  assumes "clipBody body spare = Some text"
  shows "length text = min 120 (length body) \<and> take (length text) (trimSpace body) = take (length (trimSpace body)) text"
proof (cases "trimSpace body = []")
  case True
  then show ?thesis using assms by (auto simp: clipBody_def Let_def split: if_splits)
next
  case False
  let ?lead = "length body - length (trim_left space_runes body)" and ?m = "min 120 (length body)"
  obtain t where t: "trim_left space_runes body = trimSpace body @ t" using trimSpace_prefix by blast
  have m: "?m \<le> length body - ?lead + length spare" and x: "text = take ?m (drop ?lead (body @ spare))"
    using assms False by (auto simp: clipBody_def Let_def split: if_splits)
  have "drop ?lead (body @ spare) = trimSpace body @ t @ spare"
    using t drop_lead [of body] by simp
  moreover have "length text = ?m"
    using m unfolding x length_take length_drop length_append by arith
  ultimately show ?thesis using x by (simp only: take_take_prefix)
qed

section \<open>What the load generator guarantees\<close>

text \<open>
  (C40) The outcome of a request. An answer counts as a success exactly when its status is below
  300. Any other answer becomes an error that starts with the status and the trimmed body, cut to
  120 bytes; but an answer whose body is blank and not empty panics, since slicing the nil that
  bytes.TrimSpace returns is out of range.
\<close>

theorem do_request_outcome:
  assumes "ag_do ag url r v = (Inr resp, v')" and "body = take 4096 (hr_Body resp)"
  shows "(do_request ag url r v = (Done None, v') \<longleftrightarrow> hr_StatusCode resp < 300) \<and>
    (300 \<le> hr_StatusCode resp \<and> body \<noteq> [] \<and> trimSpace body = [] \<longrightarrow> do_request ag url r v = (Crash, v')) \<and>
    (\<forall>e. do_request ag url r v = (Done (Some e), v') \<longrightarrow>
       (\<exists>text. e = hr_Status resp @ '': '' @ text \<and> length text = min 120 (length body) \<and>
          take (length text) (trimSpace body) = take (length (trimSpace body)) text))"
proof -
  have d: "do_request ag url r v =
      (if 300 \<le> hr_StatusCode resp
       then case clipBody body (hr_spare resp) of None \<Rightarrow> (Crash, v')
         | Some text \<Rightarrow> (Done (Some (hr_Status resp @ '': '' @ text)), v')
       else (Done None, v'))"
    using assms by (simp add: do_request_def Let_def)
  have blank: "body \<noteq> [] \<Longrightarrow> trimSpace body = [] \<Longrightarrow> clipBody body (hr_spare resp) = None"
    by (simp add: clipBody_def)
  show ?thesis
  proof (cases "clipBody body (hr_spare resp)")
    case None
    then show ?thesis by (simp add: d)
  next
    case (Some t)
    then show ?thesis using blank clipBody_Some [OF Some] by (auto simp: d)
  qed
qed

definition answering :: "http_response \<Rightarrow> unit agent" where
  "answering resp =
     \<lparr>ag_newRequest = Inr, ag_do = (\<lambda>url r v. (Inr resp, v)), ag_generateKey = (\<lambda>c v. (Inr mem_signer, v)),
      ag_createCSR = (\<lambda>cn k v. (Inr cn, v)), ag_now = (\<lambda>v. (0, v))\<rparr>"

abbreviation no_request :: http_request where
  "no_request \<equiv> \<lparr>rq_Method = ''GET'', rq_Path = ''/'', rq_Header = [], rq_Body = [], rq_BodyErr = None\<rparr>"

abbreviation blank_answer :: http_response where
  "blank_answer \<equiv> \<lparr>hr_StatusCode = 500, hr_Status = ''500 Internal Server Error'', hr_Body = [CHR 0x0A],
     hr_spare = replicate 511 (CHR 0x00)\<rparr>"

theorem do_request_outcome_witness:
  "do_request (answering blank_answer) [] no_request () = (Crash, ())"
proof -
  have "ag_do (answering blank_answer) [] no_request () = (Inr blank_answer, ())" by (simp add: answering_def)
  moreover have "trimSpace [CHR 0x0A] = []" by code_simp
  ultimately show ?thesis
    using do_request_outcome [of "answering blank_answer" "[]" no_request "()" blank_answer "()" "[CHR 0x0A]"] by simp
qed

definition row_exact :: "sample list \<Rightarrow> report_row \<Rightarrow> bool" where
  "row_exact samples row \<longleftrightarrow>
     (let ds = okDurations samples (rr_endpoint row) in
      rr_n row = length ds \<and> at_rank ds ((length ds - 1) * 50 div 100) (rr_p50 row) \<and>
      at_rank ds ((length ds - 1) * 95 div 100) (rr_p95 row) \<and> at_rank ds ((length ds - 1) * 99 div 100) (rr_p99 row) \<and>
      rr_p50 row \<le> rr_p95 row \<and> rr_p95 row \<le> rr_p99 row \<and> rr_p99 row \<le> rr_max row \<and> rr_max row = Max (set ds))"

lemma reportRow_exact:
  assumes "gathered samples byEP errs" "okDurations samples ep \<noteq> []"
  shows "row_exact samples (reportRow byEP ep)"
proof -
  let ?ds = "okDurations samples ep"
  have "entry byEP ep [] = ?ds" using assms by (simp add: gathered_def entry_def)
  moreover have "sort ?ds ! (length ?ds - 1) = pct (sort ?ds) 100"
    using assms(2) by (simp add: pct_def)
  moreover have "pct (sort ?ds) 50 \<le> pct (sort ?ds) 95 \<and> pct (sort ?ds) 95 \<le> pct (sort ?ds) 99 \<and>
      pct (sort ?ds) 99 \<le> pct (sort ?ds) 100" by (simp add: pct_mono)
  moreover note pct_at_rank [OF assms(2), of 50] pct_at_rank [OF assms(2), of 95] pct_at_rank [OF assms(2), of 99]
  ultimately show ?thesis
    using sort_last [OF assms(2)] by (simp add: row_exact_def reportRow_def Let_def)
qed

text \<open>
  (C39) The report is exact. Its rows are the endpoints with a successful request, in strictly
  increasing order; a row counts those requests, its percentiles are order statistics of their
  durations (the values at rank (n-1)p/100), they increase and end in the maximum. The error
  table holds every failed request under its endpoint and text, with the number of times it
  happened, and nothing else.
\<close>

theorem report_exact:
  assumes "rp = report samples ok bad"
  shows "sorted_wrt (<) (map rr_endpoint (rp_rows rp)) \<and>
    set (map rr_endpoint (rp_rows rp)) = {ep. okDurations samples ep \<noteq> []} \<and>
    (\<forall>row \<in> set (rp_rows rp). row_exact samples row) \<and>
    (\<forall>ep e. map_of (entry (rp_errors rp) ep []) e =
       (if failures samples ep e = 0 then None else Some (failures samples ep e)))"
proof -
  obtain byEP errs where f: "foldl reportStep ([], []) samples = (byEP, errs)" and g: "gathered samples byEP errs"
    using gathered_all by blast
  have rp: "rp_rows rp = map (reportRow byEP) (sort (map fst byEP))" "rp_errors rp = errs"
    using assms f by (simp_all add: report_def)
  have ep: "map rr_endpoint (rp_rows rp) = sort (map fst byEP)"
    by (simp add: rp reportRow_def Let_def comp_def)
  have dom: "set (map fst byEP) = {ep. okDurations samples ep \<noteq> []}"
    using g by (auto simp: gathered_def simp flip: dom_map_of_conv_image_fst split: if_splits)
  have "row_exact samples row" if "row \<in> set (rp_rows rp)" for row
    using that dom reportRow_exact [OF g] by (auto simp: rp)
  moreover have "sorted_wrt (<) (map rr_endpoint (rp_rows rp))"
    using g by (simp add: ep strict_sorted_iff gathered_def)
  moreover have "set (map rr_endpoint (rp_rows rp)) = {ep. okDurations samples ep \<noteq> []}"
    using ep dom by simp
  ultimately show ?thesis
    using g by (simp add: gathered_def row_exact_def rp(2))
qed

theorem report_exact_witness:
  "let samples = [\<lparr>sm_endpoint = ''b'', sm_d = 7, sm_err = None\<rparr>, \<lparr>sm_endpoint = ''a'', sm_d = 3, sm_err = Some ''EOF''\<rparr>,
      \<lparr>sm_endpoint = ''b'', sm_d = 5, sm_err = None\<rparr>, \<lparr>sm_endpoint = ''a'', sm_d = 4, sm_err = Some ''EOF''\<rparr>]
   in map rr_endpoint (rp_rows (report samples 2 2)) = [''b''] \<and> map rr_max (rp_rows (report samples 2 2)) = [7] \<and>
     map_of (entry (rp_errors (report samples 2 2)) ''a'' []) ''EOF'' = Some 2"
proof -
  let ?s = "[\<lparr>sm_endpoint = ''b'', sm_d = 7, sm_err = None\<rparr>, \<lparr>sm_endpoint = ''a'', sm_d = 3, sm_err = Some ''EOF''\<rparr>,
      \<lparr>sm_endpoint = ''b'', sm_d = 5, sm_err = None\<rparr>, \<lparr>sm_endpoint = ''a'', sm_d = 4, sm_err = Some ''EOF''\<rparr>]"
  have "map rr_endpoint (rp_rows (report ?s 2 2)) = [''b'']" "map rr_max (rp_rows (report ?s 2 2)) = [7]"
    by (simp_all add: report_def reportStep_def reportRow_def entry_def Let_def)
  moreover have "failures ?s ''a'' ''EOF'' = 2" by (simp add: failures_def)
  ultimately show ?thesis using report_exact [of _ ?s 2 2] by simp
qed

end
