(* ===== verification/Load_Run.thy ===== *)
theory Load_Run
  imports Loadgen
begin

text \<open>
  The goroutines of src/hack/loadgen/main.go as a step relation: main starts one goroutine per
  node, each takes a slot of the buffered channel \<open>sem\<close>, runs the nine requests of its bootstrap,
  gives the slot back and leaves the wait group; main then waits and reports. A request ends with
  any duration and any error, or panics, which ends the process. Appending a sample (under the
  mutex) and counting it (an atomic add) are two steps, as in the code.
\<close>

section \<open>Steps\<close>

definition bootstrapEndpoints :: "string list" where
  "bootstrapEndpoints =
     [''GET /cacerts'', ''GET /v1-rke2/config'', ''GET /v1-rke2/client-ca.crt'', ''GET /v1-rke2/server-ca.crt'',
      ''POST serving-kubelet.crt'', ''POST client-kubelet.crt'', ''POST client-kube-proxy.crt'',
      ''POST client-rke2-controller.crt'', ''GET /v1-rke2/apiservers'']"

text \<open>
  Where a goroutine stands: before \<open>sem <- struct{}{}\<close>, before its k-th request, between the two
  halves of record, after \<open><-sem\<close>, after \<open>wg.Done()\<close>.
\<close>

datatype worker = Waiting | Running nat | Counting nat sample | Leaving | Gone

datatype load_end = Reported load_report | Aborted

record load_run =
  ld_workers :: "worker list"
  ld_sem :: nat
  ld_wg :: nat
  ld_tally :: tally
  ld_end :: "load_end option"

definition loadRun :: load_run where
  "loadRun = \<lparr>ld_workers = [], ld_sem = 0, ld_wg = 0, ld_tally = noSamples, ld_end = None\<rparr>"

text \<open>main before its loop: missing flags exit with 2, a negative channel size panics.\<close>

datatype load_start = LoadExit nat | LoadPanic | LoadRunning load_run

definition load_main :: "load_options \<Rightarrow> load_start" where
  "load_main opt =
     (if lg_server opt = [] \<or> lg_token opt = [] then LoadExit 2
      else if lg_concurrency opt < 0 then LoadPanic
      else LoadRunning loadRun)"

abbreviation nodesOf :: "load_options \<Rightarrow> nat" where
  "nodesOf opt \<equiv> nat (lg_nodes opt)"

abbreviation slotsOf :: "load_options \<Rightarrow> nat" where
  "slotsOf opt \<equiv> nat (lg_concurrency opt)"

inductive load_step :: "load_options \<Rightarrow> load_run \<Rightarrow> load_run \<Rightarrow> bool" for opt where
  spawn: "ld_end s = None \<Longrightarrow> length (ld_workers s) < nodesOf opt \<Longrightarrow>
    load_step opt s (s\<lparr>ld_workers := ld_workers s @ [Waiting], ld_wg := ld_wg s + 1\<rparr>)"
| acquire: "ld_end s = None \<Longrightarrow> i < length (ld_workers s) \<Longrightarrow> ld_workers s ! i = Waiting \<Longrightarrow> ld_sem s < slotsOf opt \<Longrightarrow>
    load_step opt s (s\<lparr>ld_workers := (ld_workers s)[i := Running 0], ld_sem := ld_sem s + 1\<rparr>)"
| request: "ld_end s = None \<Longrightarrow> i < length (ld_workers s) \<Longrightarrow> ld_workers s ! i = Running k \<Longrightarrow> k < 9 \<Longrightarrow>
    x = \<lparr>sm_endpoint = bootstrapEndpoints ! k, sm_d = d, sm_err = e\<rparr> \<Longrightarrow>
    load_step opt s (s\<lparr>ld_workers := (ld_workers s)[i := Counting k x], ld_tally := appendSample x (ld_tally s)\<rparr>)"
| crash: "ld_end s = None \<Longrightarrow> i < length (ld_workers s) \<Longrightarrow> ld_workers s ! i = Running k \<Longrightarrow> k < 9 \<Longrightarrow>
    load_step opt s (s\<lparr>ld_end := Some Aborted\<rparr>)"
| count: "ld_end s = None \<Longrightarrow> i < length (ld_workers s) \<Longrightarrow> ld_workers s ! i = Counting k x \<Longrightarrow>
    load_step opt s (s\<lparr>ld_workers := (ld_workers s)[i := Running (Suc k)], ld_tally := countSample x (ld_tally s)\<rparr>)"
| release: "ld_end s = None \<Longrightarrow> i < length (ld_workers s) \<Longrightarrow> ld_workers s ! i = Running 9 \<Longrightarrow>
    load_step opt s (s\<lparr>ld_workers := (ld_workers s)[i := Leaving], ld_sem := ld_sem s - 1\<rparr>)"
| leave: "ld_end s = None \<Longrightarrow> i < length (ld_workers s) \<Longrightarrow> ld_workers s ! i = Leaving \<Longrightarrow>
    load_step opt s (s\<lparr>ld_workers := (ld_workers s)[i := Gone], ld_wg := ld_wg s - 1\<rparr>)"
| finish: "ld_end s = None \<Longrightarrow> \<not> length (ld_workers s) < nodesOf opt \<Longrightarrow> ld_wg s = 0 \<Longrightarrow>
    load_step opt s (s\<lparr>ld_end := Some (Reported
      (report (tl_samples (ld_tally s)) (tl_ok (ld_tally s)) (tl_bad (ld_tally s))))\<rparr>)"

text \<open>The endpoints are those of the bootstrap, in its order.\<close>

lemma bootstrapEndpoints_steps: "map fst (bootstrapSteps opt ag node) = bootstrapEndpoints"
  by (simp add: bootstrapSteps_def bootstrapEndpoints_def)

lemma distinct_endpoints: "distinct bootstrapEndpoints" "length bootstrapEndpoints = 9"
  by (simp_all add: bootstrapEndpoints_def)

section \<open>Sums over the goroutines\<close>

abbreviation total :: "('a \<Rightarrow> nat) \<Rightarrow> 'a list \<Rightarrow> nat" where
  "total f ws \<equiv> sum_list (map f ws)"

lemma total_update: "i < length ws \<Longrightarrow> total f (ws[i := x]) + f (ws ! i) = total f ws + f x"
  by (induction ws arbitrary: i) (auto split: nat.splits)

lemma total_ge: "i < length ws \<Longrightarrow> f (ws ! i) \<le> total f ws"
  by (simp add: member_le_sum_list)

text \<open>Whether a goroutine holds a slot, counts for the wait group, or has a sample in hand.\<close>

fun holds :: "worker \<Rightarrow> nat" where
  "holds (Running k) = 1"
| "holds (Counting k x) = 1"
| "holds _ = 0"

fun waited :: "worker \<Rightarrow> nat" where
  "waited Gone = 0"
| "waited _ = 1"

fun in_hand :: "(sample \<Rightarrow> bool) \<Rightarrow> worker \<Rightarrow> nat" where
  "in_hand P (Counting k x) = (if P x then 1 else 0)"
| "in_hand P _ = 0"

text \<open>Whether a goroutine has sent its j-th request.\<close>

fun past :: "nat \<Rightarrow> worker \<Rightarrow> nat" where
  "past j Waiting = 0"
| "past j (Running k) = (if j < k then 1 else 0)"
| "past j (Counting k x) = (if j \<le> k then 1 else 0)"
| "past j _ = 1"

text \<open>The steps a goroutine still has before it.\<close>

fun ahead :: "worker \<Rightarrow> nat" where
  "ahead Waiting = 21"
| "ahead (Running k) = 2 * (9 - k) + 2"
| "ahead (Counting k x) = 2 * (9 - k) + 1"
| "ahead Leaving = 1"
| "ahead Gone = 0"

fun wf_worker :: "worker \<Rightarrow> bool" where
  "wf_worker (Running k) = (k \<le> 9)"
| "wf_worker (Counting k x) = (k < 9)"
| "wf_worker _ = True"

definition samples_of :: "load_run \<Rightarrow> sample list" where
  "samples_of s = tl_samples (ld_tally s)"

definition failed :: "sample \<Rightarrow> bool" where
  "failed x \<longleftrightarrow> sm_err x \<noteq> None"

text \<open>
  The invariant. The channel holds one entry per running bootstrap and never more than its size;
  the wait group counts the goroutines that have not left; the counters and the samples in hand
  account for every sample; and every endpoint has one sample per goroutine that is past it.
\<close>

definition run_inv :: "load_options \<Rightarrow> load_run \<Rightarrow> bool" where
  "run_inv opt s \<longleftrightarrow>
     length (ld_workers s) \<le> nodesOf opt \<and> list_all wf_worker (ld_workers s) \<and>
     ld_sem s = total holds (ld_workers s) \<and> ld_sem s \<le> slotsOf opt \<and>
     ld_wg s = total waited (ld_workers s) \<and>
     tl_ok (ld_tally s) + total (in_hand (\<lambda>x. \<not> failed x)) (ld_workers s) =
       length (filter (\<lambda>x. \<not> failed x) (samples_of s)) \<and>
     tl_bad (ld_tally s) + total (in_hand failed) (ld_workers s) = length (filter failed (samples_of s)) \<and>
     (\<forall>j < 9. length (filter (\<lambda>x. sm_endpoint x = bootstrapEndpoints ! j) (samples_of s)) = total (past j) (ld_workers s)) \<and>
     set (map sm_endpoint (samples_of s)) \<subseteq> set bootstrapEndpoints"

section \<open>The invariant is kept\<close>

lemma wf_update: "list_all wf_worker ws \<Longrightarrow> wf_worker x \<Longrightarrow> list_all wf_worker (ws[i := x])"
  by (auto simp: list_all_iff dest!: set_update_subset_insert [THEN subsetD])

lemma wf_nth: "list_all wf_worker ws \<Longrightarrow> i < length ws \<Longrightarrow> wf_worker (ws ! i)"
  by (simp add: list_all_length)

text \<open>One goroutine moves from \<open>w\<close> to \<open>x\<close>: every sum changes by the difference.\<close>

lemma total_move: "i < length ws \<Longrightarrow> ws ! i = w \<Longrightarrow> total f (ws[i := x]) = total f ws + f x - f w"
  using total_update [of i ws f x] by simp

lemma total_ge_eq: "i < length ws \<Longrightarrow> ws ! i = w \<Longrightarrow> f w \<le> total f ws"
  using total_ge by blast

lemma endpoint_eq: "j < 9 \<Longrightarrow> k < 9 \<Longrightarrow> bootstrapEndpoints ! j = bootstrapEndpoints ! k \<longleftrightarrow> j = k"
  using distinct_endpoints by (simp add: nth_eq_iff_index_eq)

lemma run_inv_start: "run_inv opt loadRun"
  by (simp add: run_inv_def loadRun_def samples_of_def noSamples_def)

lemma run_inv_step:
  assumes "load_step opt s t" "run_inv opt s"
  shows "run_inv opt t"
  using assms
proof cases
  case spawn
  then show ?thesis using assms(2) by (auto simp: run_inv_def samples_of_def)
next
  case (acquire i)
  then show ?thesis
    using assms(2) total_move [OF acquire(3,4)] by (simp add: run_inv_def samples_of_def wf_update)
next
  case (request i k x d e)
  have "bootstrapEndpoints ! k \<in> set bootstrapEndpoints" using distinct_endpoints(2) request(5) by simp
  moreover have "total (past j) ((ld_workers s)[i := Counting k x]) =
      total (past j) (ld_workers s) + (if bootstrapEndpoints ! k = bootstrapEndpoints ! j then 1 else 0)" if "j < 9" for j
    using total_move [OF request(3,4)] endpoint_eq [OF request(5) that] by auto
  ultimately show ?thesis
    using assms(2) request(1,3,5,6) total_move [OF request(3,4)]
    by (simp add: run_inv_def samples_of_def wf_update appendSample_def failed_def)
next
  case (crash i k)
  then show ?thesis using assms(2) by (simp add: run_inv_def samples_of_def)
next
  case (count i k x)
  have "Suc k \<le> 9" using wf_nth [of "ld_workers s" i] assms(2) count by (simp add: run_inv_def)
  moreover have "in_hand failed (Counting k x) \<le> total (in_hand failed) (ld_workers s)"
    "in_hand (\<lambda>x. \<not> failed x) (Counting k x) \<le> total (in_hand (\<lambda>x. \<not> failed x)) (ld_workers s)"
    using total_ge_eq [OF count(3,4)] by blast+
  ultimately show ?thesis
    using assms(2) count total_move [OF count(3,4)]
    by (auto simp: run_inv_def samples_of_def wf_update countSample_def failed_def less_Suc_eq_le)
next
  case (release i)
  then show ?thesis
    using assms(2) total_move [OF release(3,4)] total_ge_eq [OF release(3,4), of holds]
    by (auto simp: run_inv_def samples_of_def wf_update)
next
  case (leave i)
  then show ?thesis
    using assms(2) total_move [OF leave(3,4)] total_ge_eq [OF leave(3,4), of waited]
    by (auto simp: run_inv_def samples_of_def wf_update)
next
  case finish
  then show ?thesis using assms(2) by (simp add: run_inv_def samples_of_def)
qed

lemma run_inv_reach: "(load_step opt)\<^sup>*\<^sup>* loadRun s \<Longrightarrow> run_inv opt s"
  by (induction rule: rtranclp_induct) (auto intro: run_inv_start run_inv_step)

section \<open>Progress\<close>

definition remaining :: "load_options \<Rightarrow> load_run \<Rightarrow> nat" where
  "remaining opt s =
     22 * (nodesOf opt - length (ld_workers s)) + total ahead (ld_workers s) + (if ld_end s = None then 1 else 0)"

lemma remaining_decreases:
  assumes "load_step opt s t" "run_inv opt s"
  shows "remaining opt t < remaining opt s"
  using assms
proof cases
  case (count i k x)
  have "Suc k \<le> 9" using wf_nth [of "ld_workers s" i] assms(2) count by (simp add: run_inv_def)
  then show ?thesis
    using count total_move [OF count(3,4), of ahead] total_ge_eq [OF count(3,4), of ahead] by (simp add: remaining_def)
next
  case (acquire i)
  then show ?thesis
    using total_move [OF acquire(3,4), of ahead] total_ge_eq [OF acquire(3,4), of ahead] by (simp add: remaining_def)
next
  case (request i k x d e)
  then show ?thesis
    using total_move [OF request(3,4), of ahead] total_ge_eq [OF request(3,4), of ahead] by (simp add: remaining_def)
next
  case (release i)
  then show ?thesis
    using total_move [OF release(3,4), of ahead] total_ge_eq [OF release(3,4), of ahead] by (simp add: remaining_def)
next
  case (leave i)
  then show ?thesis
    using total_move [OF leave(3,4), of ahead] total_ge_eq [OF leave(3,4), of ahead] by (simp add: remaining_def)
qed (auto simp: remaining_def)

lemma total_pos: "0 < total f ws \<Longrightarrow> \<exists>i < length ws. 0 < f (ws ! i)"
  by (metis (mono_tags, lifting) bot_nat_0.not_eq_extremum in_set_conv_nth map_idI sum_list_eq_0_iff set_map image_iff)

text \<open>A goroutine that holds a slot, or has given it back, can always move.\<close>

lemma holder_moves:
  assumes "run_inv opt s" "ld_end s = None" "i < length (ld_workers s)" "0 < holds (ld_workers s ! i)"
  shows "\<exists>t. load_step opt s t"
proof (cases "ld_workers s ! i")
  case (Running k)
  then have "k \<le> 9" using assms wf_nth [of "ld_workers s" i] by (simp add: run_inv_def)
  show ?thesis
  proof (cases "k = 9")
    case True
    then show ?thesis using load_step.release [of s i opt] Running assms by auto
  next
    case False
    then show ?thesis using load_step.request [of s i k] Running assms \<open>k \<le> 9\<close> by fastforce
  qed
next
  case (Counting k x)
  then show ?thesis using assms load_step.count by blast
qed (use assms in simp_all)

lemma load_progress:
  assumes "run_inv opt s" "ld_end s = None" "0 < slotsOf opt \<or> nodesOf opt = 0"
  shows "\<exists>t. load_step opt s t"
proof (cases "length (ld_workers s) < nodesOf opt \<or> ld_wg s = 0")
  case True
  then show ?thesis using assms(2) load_step.spawn load_step.finish by blast
next
  case False
  then have "0 < total waited (ld_workers s)" using assms(1) by (simp add: run_inv_def)
  then obtain i where i: "i < length (ld_workers s)" "ld_workers s ! i \<noteq> Gone"
    using total_pos [of waited "ld_workers s"] by fastforce
  have slots: "0 < slotsOf opt" using assms(1,3) i(1) by (auto simp: run_inv_def)
  show ?thesis
  proof (cases "ld_workers s ! i")
    case Waiting
    show ?thesis
    proof (cases "ld_sem s < slotsOf opt")
      case True
      then show ?thesis using Waiting assms(2) i load_step.acquire by blast
    next
      case False
      then have "0 < total holds (ld_workers s)" using slots assms(1) by (auto simp: run_inv_def)
      then show ?thesis using total_pos holder_moves [OF assms(1,2)] by blast
    qed
  next
    case Leaving
    then show ?thesis using assms(2) i load_step.leave by blast
  qed (use i holder_moves [OF assms(1,2) i(1)] in simp_all)
qed

text \<open>With no slot at all every goroutine blocks on the channel for ever.\<close>

definition blocked :: "nat \<Rightarrow> load_run" where
  "blocked k = loadRun\<lparr>ld_workers := replicate k Waiting, ld_wg := k\<rparr>"

lemma reach_blocked: "k \<le> nodesOf opt \<Longrightarrow> (load_step opt)\<^sup>*\<^sup>* loadRun (blocked k)"
proof (induction k)
  case 0
  then show ?case by (simp add: blocked_def loadRun_def)
next
  case (Suc k)
  have "load_step opt (blocked k) (blocked (Suc k))"
    using load_step.spawn [of "blocked k" opt] Suc.prems
    by (simp add: blocked_def loadRun_def replicate_append_same)
  then show ?case using Suc by auto
qed

lemma blocked_stuck:
  assumes "slotsOf opt = 0" "0 < nodesOf opt"
  shows "\<not> load_step opt (blocked (nodesOf opt)) t"
  using assms by (auto simp: blocked_def loadRun_def elim!: load_step.cases)

lemma run_length: "(load_step opt ^^ n) loadRun s \<Longrightarrow> n + remaining opt s \<le> 22 * nodesOf opt + 1"
proof (induction n arbitrary: s)
  case 0
  then show ?case by (auto simp: remaining_def loadRun_def)
next
  case (Suc n)
  then obtain r where r: "(load_step opt ^^ n) loadRun r" "load_step opt r s" by auto
  have "run_inv opt r" using r(1) by (meson relpowp_imp_rtranclp run_inv_reach)
  then show ?case using Suc.IH [OF r(1)] remaining_decreases [OF r(2)] by simp
qed

text \<open>The report is made when all goroutines have left, from the tally as it is then.\<close>

definition end_inv :: "load_options \<Rightarrow> load_run \<Rightarrow> bool" where
  "end_inv opt s \<longleftrightarrow> (\<forall>rp. ld_end s = Some (Reported rp) \<longrightarrow>
     nodesOf opt \<le> length (ld_workers s) \<and> ld_wg s = 0 \<and>
     rp = report (samples_of s) (tl_ok (ld_tally s)) (tl_bad (ld_tally s)))"

lemma end_inv_reach: "(load_step opt)\<^sup>*\<^sup>* loadRun s \<Longrightarrow> end_inv opt s"
proof (induction rule: rtranclp_induct)
  case base
  then show ?case by (simp add: end_inv_def loadRun_def)
next
  case (step s t)
  from step(2) show ?case by cases (auto simp: end_inv_def samples_of_def)
qed

lemma total_zero: "total f ws = 0 \<Longrightarrow> (\<And>w. f w = 0 \<Longrightarrow> g w = c) \<Longrightarrow> total g ws = c * length ws"
  by (induction ws) auto

lemma split_count: "length (filter P xs) + length (filter (\<lambda>x. \<not> P x) xs) = length xs"
  by (induction xs) auto

text \<open>Every sample belongs to one of the nine endpoints.\<close>

lemma length_by_endpoint:
  assumes "distinct eps" "set (map f xs) \<subseteq> set eps" "\<And>ep. ep \<in> set eps \<Longrightarrow> length (filter (\<lambda>x. f x = ep) xs) = n"
  shows "length xs = n * length eps"
proof -
  have "length xs = (\<Sum>ep \<in> set eps. length (filter (\<lambda>x. f x = ep) xs))"
    using assms(2)
  proof (induction xs)
    case (Cons x xs)
    have "(\<Sum>ep \<in> set eps. length (filter (\<lambda>x. f x = ep) (x # xs))) =
        (\<Sum>ep \<in> set eps. (if ep = f x then 1 else 0) + length (filter (\<lambda>x. f x = ep) xs))"
      by (rule sum.cong) auto
    then show ?case using Cons by (simp add: sum.distrib)
  qed simp
  then show ?thesis using assms(1,3) by (simp add: distinct_card)
qed

lemma all_gone:
  assumes "run_inv opt s" "nodesOf opt \<le> length (ld_workers s)" "ld_wg s = 0"
  shows "(\<forall>j < 9. length (filter (\<lambda>x. sm_endpoint x = bootstrapEndpoints ! j) (samples_of s)) = nodesOf opt) \<and>
    tl_ok (ld_tally s) = length (filter (\<lambda>x. \<not> failed x) (samples_of s)) \<and>
    tl_bad (ld_tally s) = length (filter failed (samples_of s)) \<and> length (samples_of s) = 9 * nodesOf opt"
proof -
  have z: "total waited (ld_workers s) = 0" and l: "length (ld_workers s) = nodesOf opt"
    using assms by (auto simp: run_inv_def)
  have g: "waited w = 0 \<Longrightarrow> past j w = 1 \<and> in_hand P w = 0" for w j P by (cases w) simp_all
  have p: "total (past j) (ld_workers s) = nodesOf opt" for j
    using total_zero [OF z, of "past j" 1] g l by (metis mult_1)
  have h: "total (in_hand P) (ld_workers s) = 0" for P
    using total_zero [OF z, of "in_hand P" 0] g by (metis mult_0)
  have n: "length (filter (\<lambda>x. sm_endpoint x = bootstrapEndpoints ! j) (samples_of s)) = nodesOf opt" if "j < 9" for j
    using assms(1) p that by (simp add: run_inv_def)
  have "length (samples_of s) = nodesOf opt * length bootstrapEndpoints"
    using assms(1) n distinct_endpoints by (intro length_by_endpoint) (auto simp: run_inv_def in_set_conv_nth)
  then show ?thesis using assms(1) n h distinct_endpoints(2) by (simp add: run_inv_def)
qed

section \<open>What the run guarantees\<close>

text \<open>
  (C20) The run ends. No run takes more than 22 steps per node and one for the report; a run that
  cannot go on has reported or was ended by a panic, unless the tool was given no concurrency at
  all: then, and only then, it can hang with every goroutine waiting for a slot.
\<close>

theorem load_run_ends:
  "((load_step opt ^^ n) loadRun s \<longrightarrow> n \<le> 22 * nodesOf opt + 1) \<and>
   ((\<exists>s. (load_step opt)\<^sup>*\<^sup>* loadRun s \<and> ld_end s = None \<and> (\<nexists>t. load_step opt s t)) \<longleftrightarrow>
     slotsOf opt = 0 \<and> 0 < nodesOf opt)"
proof -
  have "ld_end (blocked (nodesOf opt)) = None" by (simp add: blocked_def loadRun_def)
  then show ?thesis
    using run_length [of n opt s] load_progress run_inv_reach reach_blocked [of "nodesOf opt" opt] blocked_stuck [of opt]
    by (metis add_leD1 gr0I order_refl)
qed

text \<open>
  (C19) The report is complete. When the tool reports, every node has sent each of its nine
  requests exactly once: every endpoint has as many samples as there are nodes, and the two
  counters are the numbers of the samples that succeeded and failed, nine per node together. At
  every moment at most the configured number of bootstraps run.
\<close>

theorem load_report_complete:
  assumes "(load_step opt)\<^sup>*\<^sup>* loadRun s"
  shows "total holds (ld_workers s) \<le> slotsOf opt \<and>
    (\<forall>rp. ld_end s = Some (Reported rp) \<longrightarrow>
       rp = report (samples_of s) (rp_ok rp) (rp_bad rp) \<and>
       rp_ok rp = length (filter (\<lambda>x. \<not> failed x) (samples_of s)) \<and> rp_bad rp = length (filter failed (samples_of s)) \<and>
       rp_ok rp + rp_bad rp = 9 * nodesOf opt \<and>
       (\<forall>ep \<in> set bootstrapEndpoints. length (filter (\<lambda>x. sm_endpoint x = ep) (samples_of s)) = nodesOf opt))"
proof -
  have inv: "run_inv opt s" by (rule run_inv_reach [OF assms])
  have "total holds (ld_workers s) \<le> slotsOf opt" using inv by (simp add: run_inv_def)
  moreover have "rp = report (samples_of s) (rp_ok rp) (rp_bad rp) \<and>
       rp_ok rp = length (filter (\<lambda>x. \<not> failed x) (samples_of s)) \<and> rp_bad rp = length (filter failed (samples_of s)) \<and>
       rp_ok rp + rp_bad rp = 9 * nodesOf opt \<and>
       (\<forall>ep \<in> set bootstrapEndpoints. length (filter (\<lambda>x. sm_endpoint x = ep) (samples_of s)) = nodesOf opt)"
    if "ld_end s = Some (Reported rp)" for rp
  proof -
    have e: "nodesOf opt \<le> length (ld_workers s)" "ld_wg s = 0"
      "rp = report (samples_of s) (tl_ok (ld_tally s)) (tl_bad (ld_tally s))"
      using end_inv_reach [OF assms] that by (simp_all add: end_inv_def)
    show ?thesis
      using all_gone [OF inv e(1,2)] split_count [of failed "samples_of s"] distinct_endpoints(2)
      by (auto simp: e(3) in_set_conv_nth)
  qed
  ultimately show ?thesis by blast
qed

section \<open>A run with one node\<close>

definition lab :: "int \<Rightarrow> load_options" where
  "lab c = defaultLoadOptions\<lparr>lg_server := ''https://10.0.0.1:9345'', lg_token := ''token'', lg_nodes := 1, lg_concurrency := c\<rparr>"

lemma lab_sizes [simp]: "nodesOf (lab c) = 1" "slotsOf (lab c) = nat c"
  by (simp_all add: lab_def)

definition ok_sample :: "string \<Rightarrow> sample" where
  "ok_sample ep = \<lparr>sm_endpoint = ep, sm_d = 1, sm_err = None\<rparr>"

definition lab_at :: "worker \<Rightarrow> nat \<Rightarrow> nat \<Rightarrow> nat \<Rightarrow> nat \<Rightarrow> load_run" where
  "lab_at w sem wg sent ok =
     \<lparr>ld_workers = [w], ld_sem = sem, ld_wg = wg,
      ld_tally = \<lparr>tl_samples = map ok_sample (take sent bootstrapEndpoints), tl_ok = ok, tl_bad = 0\<rparr>, ld_end = None\<rparr>"

lemma lab_request:
  assumes "k < 9"
  shows "(load_step (lab 1))\<^sup>*\<^sup>* (lab_at (Running k) 1 1 k k) (lab_at (Running (Suc k)) 1 1 (Suc k) (Suc k))"
proof -
  let ?x = "ok_sample (bootstrapEndpoints ! k)"
  have "take (Suc k) bootstrapEndpoints = take k bootstrapEndpoints @ [bootstrapEndpoints ! k]"
    using assms distinct_endpoints(2) by (simp add: take_Suc_conv_app_nth)
  then have "load_step (lab 1) (lab_at (Running k) 1 1 k k) (lab_at (Counting k ?x) 1 1 (Suc k) k)"
    using assms load_step.request [of "lab_at (Running k) 1 1 k k" 0 k ?x 1 None "lab 1"]
    by (simp add: lab_at_def appendSample_def ok_sample_def)
  moreover have "load_step (lab 1) (lab_at (Counting k ?x) 1 1 (Suc k) k) (lab_at (Running (Suc k)) 1 1 (Suc k) (Suc k))"
    using load_step.count [of "lab_at (Counting k ?x) 1 1 (Suc k) k" 0 k ?x "lab 1"]
    by (simp add: lab_at_def countSample_def ok_sample_def)
  ultimately show ?thesis by (rule converse_rtranclp_into_rtranclp [OF _ r_into_rtranclp])
qed

lemma lab_running: "k \<le> 9 \<Longrightarrow> (load_step (lab 1))\<^sup>*\<^sup>* loadRun (lab_at (Running k) 1 1 k k)"
proof (induction k)
  case 0
  have "load_step (lab 1) loadRun (lab_at Waiting 0 1 0 0)"
    using load_step.spawn [of loadRun "lab 1"] by (simp add: lab_at_def loadRun_def noSamples_def)
  moreover have "load_step (lab 1) (lab_at Waiting 0 1 0 0) (lab_at (Running 0) 1 1 0 0)"
    using load_step.acquire [of "lab_at Waiting 0 1 0 0" 0 "lab 1"] by (simp add: lab_at_def)
  ultimately show ?case by (rule converse_rtranclp_into_rtranclp [OF _ r_into_rtranclp])
next
  case (Suc k)
  then show ?case using lab_request [of k] by (meson Suc_leD Suc_le_lessD rtranclp_trans)
qed

lemma lab_reports:
  "\<exists>s rp. (load_step (lab 1))\<^sup>*\<^sup>* loadRun s \<and> ld_end s = Some (Reported rp) \<and>
     samples_of s = map ok_sample bootstrapEndpoints"
proof -
  let ?f = "(lab_at Gone 0 0 9 9)\<lparr>ld_end := Some (Reported (report (map ok_sample bootstrapEndpoints) 9 0))\<rparr>"
  have "load_step (lab 1) (lab_at (Running 9) 1 1 9 9) (lab_at Leaving 0 1 9 9)"
    using load_step.release [of "lab_at (Running 9) 1 1 9 9" 0 "lab 1"] by (simp add: lab_at_def)
  moreover have "load_step (lab 1) (lab_at Leaving 0 1 9 9) (lab_at Gone 0 0 9 9)"
    using load_step.leave [of "lab_at Leaving 0 1 9 9" 0 "lab 1"] by (simp add: lab_at_def)
  moreover have "load_step (lab 1) (lab_at Gone 0 0 9 9) ?f"
    using load_step.finish [of "lab_at Gone 0 0 9 9" "lab 1"] distinct_endpoints(2) by (simp add: lab_at_def)
  ultimately have "(load_step (lab 1))\<^sup>*\<^sup>* loadRun ?f"
    using lab_running [of 9] by (meson order_refl rtranclp.rtrancl_into_rtrancl)
  then show ?thesis using distinct_endpoints(2) by (intro exI [of _ ?f]) (auto simp: lab_at_def samples_of_def)
qed

theorem load_run_ends_witness:
  "(load_step (lab 0) ^^ 1) loadRun (blocked 1) \<and> (1 :: nat) \<le> 22 * nodesOf (lab 0) + 1 \<and>
   (\<exists>s. (load_step (lab 0))\<^sup>*\<^sup>* loadRun s \<and> ld_end s = None \<and> (\<nexists>t. load_step (lab 0) s t))"
proof -
  have "load_step (lab 0) loadRun (blocked 1)"
    using load_step.spawn [of loadRun "lab 0"] by (simp add: blocked_def loadRun_def)
  then show ?thesis using load_run_ends [where opt = "lab 0" and n = 1 and s = "blocked 1"] by auto
qed

theorem load_report_complete_witness:
  "\<exists>s rp. (load_step (lab 1))\<^sup>*\<^sup>* loadRun s \<and> ld_end s = Some (Reported rp) \<and> rp_ok rp + rp_bad rp = 9"
proof -
  obtain s rp where "(load_step (lab 1))\<^sup>*\<^sup>* loadRun s" "ld_end s = Some (Reported rp)" using lab_reports by blast
  then show ?thesis using load_report_complete [of "lab 1" s] by auto
qed

end
