(* ===== verification/Live.thy ===== *)
theory Live
  imports Server_State Load_Run
begin

text \<open>
  Progress of the whole system: against an API, a random source and an X.509 library that do not
  fail, a node with a fresh name or with the password it enrolled before is granted its
  certificates. The locale \<open>live_store\<close> is what a password store promises then and
  \<open>live_issuer\<close> adds the libraries the certificate handler calls. Theory Bootstrap composes them
  with the agent's side of the load generator.
\<close>

section \<open>Stores that answer\<close>

text \<open>
  \<open>accepts\<close>, \<open>known\<close> and \<open>is_node\<close> are what the store reads off the world: the password records,
  the names that have one and the names of existing Nodes.
\<close>

definition same_store :: "('w \<Rightarrow> string \<Rightarrow> string \<Rightarrow> bool) \<Rightarrow> ('w \<Rightarrow> string \<Rightarrow> bool) \<Rightarrow> ('w \<Rightarrow> string \<Rightarrow> bool) \<Rightarrow> 'w \<Rightarrow> 'w \<Rightarrow> bool" where
  "same_store accepts known is_node w w' \<longleftrightarrow> accepts w' = accepts w \<and> known w' = known w \<and> is_node w' = is_node w"

definition admits :: "('w \<Rightarrow> string \<Rightarrow> string \<Rightarrow> bool) \<Rightarrow> ('w \<Rightarrow> string \<Rightarrow> bool) \<Rightarrow> ('w \<Rightarrow> string \<Rightarrow> bool) \<Rightarrow> 'w \<Rightarrow> string \<Rightarrow> string \<Rightarrow> bool" where
  "admits accepts known is_node w node pw \<longleftrightarrow> accepts w node pw \<or> \<not> known w node \<and> \<not> is_node w node"

locale live_store = node_password_store cas accepts known
  for cas :: "string \<Rightarrow> string \<Rightarrow> 'w \<Rightarrow> (store_error, bool) result \<times> 'w"
    and accepts :: "'w \<Rightarrow> string \<Rightarrow> string \<Rightarrow> bool"
    and known :: "'w \<Rightarrow> string \<Rightarrow> bool" +
  fixes is_node :: "'w \<Rightarrow> string \<Rightarrow> bool"
  assumes cas_admits: "admits accepts known is_node w node pw \<Longrightarrow> \<exists>w'. cas node pw w = (Inr True, w')"
    and cas_others: "cas node pw w = (res, w') \<Longrightarrow> n \<noteq> node \<Longrightarrow> known w' n = known w n"
    and cas_nodes: "cas node pw w = (res, w') \<Longrightarrow> is_node w' = is_node w"
begin

lemma accepts_kept: "cas node pw w = (res, w') \<Longrightarrow> accepts w n q \<Longrightarrow> accepts w' n q"
  using cas_known [of node pw w res w' n] accepts_known by simp

text \<open>What a name was admitted with before a call it is admitted with after it.\<close>

lemma admits_kept:
  assumes "cas node pw w = (Inr True, w')" "admits accepts known is_node w n q" "n \<noteq> node \<or> q = pw"
  shows "admits accepts known is_node w' n q"
proof (cases "accepts w n q")
  case True
  then show ?thesis using cas_known [OF assms(1)] accepts_known by (auto simp: admits_def)
next
  case False
  then show ?thesis
    using assms cas_true [OF assms(1)] cas_others [OF assms(1), of n] cas_nodes [OF assms(1)] by (auto simp: admits_def)
qed

end

locale live_issuer = live_store cas accepts known is_node
  for cas :: "string \<Rightarrow> string \<Rightarrow> 'w \<Rightarrow> (store_error, bool) result \<times> 'w"
    and accepts known is_node +
  fixes d :: "'w deps"
  assumes store: "d_pw d = Some cas"
    and clock_frame: "timeNow (d_pf d) w = (t, w') \<Longrightarrow> same_store accepts known is_node w w'"
    and rand_live: "\<exists>n w'. randInt (d_host d) (2 ^ 128) w = (Inr n, w') \<and> same_store accepts known is_node w w'"
    and sign_live: "checkPublicKey pub = None \<Longrightarrow> encodable tmpl \<Longrightarrow>
      \<exists>der w'. createCertificate (d_host d) tmpl parent pub priv w = (Inr der, w') \<and> same_store accepts known is_node w w'"
    and rec_frame: "d_rec d = Some rec \<Longrightarrow> same_store accepts known is_node w (rec node kind na w)"
begin

abbreviation same :: "'w \<Rightarrow> 'w \<Rightarrow> bool" where
  "same \<equiv> same_store accepts known is_node"

abbreviation adm :: "'w \<Rightarrow> string \<Rightarrow> string \<Rightarrow> bool" where
  "adm \<equiv> admits accepts known is_node"

lemma same_trans: "same u v \<Longrightarrow> same v w \<Longrightarrow> same u w"
  by (simp add: same_store_def)

lemma same_adm: "same w w' \<Longrightarrow> adm w' = adm w"
  by (simp add: same_store_def admits_def fun_eq_iff)

lemma Sign_live:
  assumes "CheckCSR (d_host d) csr = None" "length (rq_Organization req) \<le> 1"
  shows "\<exists>out na w'. Sign (d_pf d) (d_host d) ca csr req w = (Inr (out, na), w') \<and> same w w'"
proof -
  obtain c where c: "parseCSR (d_host d) csr = Inr c" using assms by (auto simp: CheckCSR_None)
  then have k: "checkPublicKey (csr_PublicKey c) = None" by (simp add: parseCSR_Inr)
  obtain n w1 where r: "randInt (d_host d) (2 ^ 128) w = (Inr n, w1)" "same w w1" using rand_live by blast
  obtain now w2 where t: "timeNow (d_pf d) w1 = (now, w2)" by (cases "timeNow (d_pf d) w1")
  obtain der w3 where s: "createCertificate (d_host d)
      (leafTemplate n req now (notAfter ca now (ca_MaxTTL ca)) (csr_PublicKey c)) (ca_Cert ca) (csr_PublicKey c) (ca_Key ca) w2 =
      (Inr der, w3)" "same w2 w3" using sign_live [OF k] assms(2) encodable_leafTemplate by blast
  have "same w w3" using r(2) clock_frame [OF t] s(2) same_trans by blast
  moreover have "\<exists>out na. Sign (d_pf d) (d_host d) ca csr req w = (Inr (out, na), w3)"
    using c r(1) t s(1) by (simp add: Sign_def Let_def)
  ultimately show ?thesis by blast
qed

lemma signCert_live:
  assumes "CheckCSR (d_host d) csr = None" "length (rq_Organization req) \<le> 1"
  shows "\<exists>resp w'. signCert d s r csr req w = (Reply resp, w') \<and> resp_code resp = 200 \<and> same w w'"
proof -
  obtain out na w1 where s: "Sign (d_pf d) (d_host d) (certSigner s (certKind r)) csr req w = (Inr (out, na), w1)" "same w w1"
    using Sign_live [OF assms] by blast
  moreover have "same w1 (recordIssued d (header_Get r hdrNodeName) (certKind r) na w1)"
    using rec_frame by (auto simp: recordIssued_def same_store_def split: option.splits)
  ultimately have "same w (recordIssued d (header_Get r hdrNodeName) (certKind r) na w1)" using same_trans by blast
  then show ?thesis using s(1) by (simp add: signCert_def)
qed

text \<open>A node whose headers pass the checks and whose password the store admits gets past both.\<close>

lemma certRequest_live:
  assumes "node_scoped r" "nodeChecks d s (certKind r) r = Inr ips"
    and "adm w (header_Get r hdrNodeName) (header_Get r hdrNodePassword)"
  shows "\<exists>req w'. certRequest d s r w = (Inr req, w') \<and>
    cas (header_Get r hdrNodeName) (header_Get r hdrNodePassword) w = (Inr True, w')"
proof -
  obtain w' where "cas (header_Get r hdrNodeName) (header_Get r hdrNodePassword) w = (Inr True, w')"
    using cas_admits [OF assms(3)] by blast
  then show ?thesis
    using assms(1,2) store by (auto simp: certRequest_def node_scoped_def nodePassword_def Let_def)
qed

lemma certRequest_cluster:
  assumes "certKind r = ''client-kube-proxy'' \<or> certKind r = ''client-rke2-controller''"
  shows "\<exists>req. certRequest d s r w = (Inr req, w)"
  using assms by (auto simp: certRequest_def Let_def)

lemma handleCert_signs:
  assumes "rq_Method r = ''POST''" "readCSR r = Inr csr" "CheckCSR (d_host d) csr = None"
    and "timeNow (d_pf d) w = (t, w0)" "certRequest d s r w0 = (Inr req, w1)"
  shows "\<exists>resp w'. handleCert d s r w = (Reply resp, s, w') \<and> resp_code resp = 200 \<and> same w1 w'"
proof -
  obtain resp w' where "signCert d s r csr req w1 = (Reply resp, w')" "resp_code resp = 200" "same w1 w'"
    using signCert_live [OF assms(3) identity_organization [OF conjunct1 [OF certRequest_Inr [OF assms(5)]]]] by blast
  then show ?thesis using assms by (simp add: handleCert_def)
qed

text \<open>
  The certificate handler grants an admitted node its certificate, and its password is then on
  record; every other name is admitted as before.
\<close>

lemma handleCert_node_live:
  assumes "rq_Method r = ''POST''" "readCSR r = Inr csr" "CheckCSR (d_host d) csr = None"
    and "node_scoped r" "nodeChecks d s (certKind r) r = Inr ips"
    and "adm w (header_Get r hdrNodeName) (header_Get r hdrNodePassword)"
  shows "\<exists>resp w'. handleCert d s r w = (Reply resp, s, w') \<and> resp_code resp = 200 \<and>
    accepts w' (header_Get r hdrNodeName) (header_Get r hdrNodePassword) \<and> (\<forall>n q. accepts w n q \<longrightarrow> accepts w' n q) \<and>
    (\<forall>n q. adm w n q \<and> (n \<noteq> header_Get r hdrNodeName \<or> q = header_Get r hdrNodePassword) \<longrightarrow> adm w' n q)"
proof -
  obtain t w0 where t: "timeNow (d_pf d) w = (t, w0)" by (cases "timeNow (d_pf d) w")
  have a: "adm w0 = adm w" by (rule same_adm [OF clock_frame [OF t]])
  obtain req w1 where c: "certRequest d s r w0 = (Inr req, w1)"
    "cas (header_Get r hdrNodeName) (header_Get r hdrNodePassword) w0 = (Inr True, w1)"
    using certRequest_live [OF assms(4,5), of w0] assms(6) unfolding a by blast
  obtain resp w' where h: "handleCert d s r w = (Reply resp, s, w')" "resp_code resp = 200" "same w1 w'"
    using handleCert_signs [OF assms(1-3) t c(1)] by blast
  have "accepts w' = accepts w1" using h(3) by (simp add: same_store_def)
  moreover have "adm w' = adm w1" by (rule same_adm [OF h(3)])
  moreover have "adm w1 n q" if "adm w n q" "n \<noteq> header_Get r hdrNodeName \<or> q = header_Get r hdrNodePassword" for n q
    using admits_kept [OF c(2)] a that by simp
  moreover have "accepts w0 = accepts w" using clock_frame [OF t] by (simp add: same_store_def)
  ultimately have "accepts w' (header_Get r hdrNodeName) (header_Get r hdrNodePassword) \<and> (\<forall>n q. accepts w n q \<longrightarrow> accepts w' n q) \<and>
      (\<forall>n q. adm w n q \<and> (n \<noteq> header_Get r hdrNodeName \<or> q = header_Get r hdrNodePassword) \<longrightarrow> adm w' n q)"
    using cas_true [OF c(2)] accepts_kept [OF c(2)] by metis
  then show ?thesis using h(1,2) by blast
qed

lemma handleCert_cluster_live:
  assumes "rq_Method r = ''POST''" "readCSR r = Inr csr" "CheckCSR (d_host d) csr = None"
    and "certKind r = ''client-kube-proxy'' \<or> certKind r = ''client-rke2-controller''"
  shows "\<exists>resp w'. handleCert d s r w = (Reply resp, s, w') \<and> resp_code resp = 200 \<and> same w w'"
proof -
  obtain t w0 where t: "timeNow (d_pf d) w = (t, w0)" by (cases "timeNow (d_pf d) w")
  then show ?thesis
    using certRequest_cluster [OF assms(4)] handleCert_signs [OF assms(1-3) t] clock_frame [OF t] same_trans by metis
qed

end

section \<open>The Secret store against a healthy API\<close>

definition node_known :: "('w \<Rightarrow> string \<Rightarrow> node option) \<Rightarrow> 'w \<Rightarrow> string \<Rightarrow> bool" where
  "node_known nv w n \<longleftrightarrow> nv w n \<noteq> None"

text \<open>An API that answers, a random source that delivers and a scrypt that accepts its standard parameters.\<close>

locale live_api = secret_store pf sv nv key
  for pf :: "'w platform" and sv nv key +
  assumes get_live: "getSecret pf ns name w = (Inl e, w') \<Longrightarrow> e = NotFound"
    and node_live: "getNode pf name w = (Inl e, w') \<Longrightarrow> e = NotFound"
    and create_live: "createSecret pf ns s w = (Inl e, w') \<Longrightarrow> e = AlreadyExists"
    and salt_live: "\<exists>salt w'. randSalt pf w = (Inr salt, w')"
    and slot_live: "\<exists>w'. slotWait pf w = (SlotFree, w')"
    and key_live: "\<exists>dk. key pw salt (2 ^ paramN) paramR paramP paramKeyLen = Inr dk"
begin

text \<open>The answers of a healthy API are determined by what is stored.\<close>

lemma get_answer:
  assumes "getSecret pf ns name w = (g, w')"
  shows "g = (case sv w ns name of None \<Rightarrow> Inl NotFound | Some s \<Rightarrow> Inr s)"
proof (cases g)
  case (Inl e)
  then have "e = NotFound" using get_live assms by blast
  then show ?thesis using get_secret [OF assms] Inl by simp
qed (use get_secret [OF assms] in simp)

lemma node_answer:
  assumes "getNode pf name w = (g, w')"
  shows "g = (case nv w name of None \<Rightarrow> Inl NotFound | Some n \<Rightarrow> Inr n)"
proof (cases g)
  case (Inl e)
  then have "e = NotFound" using node_live assms by blast
  then show ?thesis using get_node [OF assms] Inl by simp
qed (use get_node [OF assms] in simp)

lemma create_answer:
  assumes "createSecret pf ns s w = (c, w')" "sv w ns (sec_name s) = None"
  shows "c = Inr ()"
proof (cases c)
  case (Inl e)
  then have "e = AlreadyExists" using create_live assms(1) by blast
  then show ?thesis using create_secret [OF assms(1)] assms(2) Inl by simp
qed simp

lemma verifyHash_empty: "verifyHash k sw [] pw \<noteq> None"
  by (auto simp: verifyHash_def checkHash_def formatHash_def split: option.splits sum.splits if_splits)

lemma verifyHashIO_live: "verifyHash key SlotFree hash pw = None \<Longrightarrow> \<exists>w'. verifyHashIO pf key hash pw w = (None, w')"
  using slot_live [of w] by (auto simp: verifyHashIO_def verifyHash_None_iff)

lemma createHashIO_live: "\<exists>hash w'. createHashIO pf key pw w = (Inr hash, w')"
proof -
  obtain salt w1 where s: "randSalt pf w = (Inr salt, w1)" using salt_live by blast
  obtain w2 where "slotWait pf w1 = (SlotFree, w2)" using slot_live by blast
  moreover obtain dk where "key pw salt (2 ^ paramN) paramR paramP paramKeyLen = Inr dk" using key_live by blast
  ultimately show ?thesis using s by (simp add: createHashIO_def createHash_def runScrypt_def)
qed

lemma store_recognises:
  assumes "on_record sv key w node pw"
  shows "\<exists>w'. storeCheckAndSet pf key node pw w = (Inr True, w')"
proof -
  obtain sec where sec: "sv w Namespace (SecretName node) = Some sec" "verifyHash key SlotFree (secretHash sec) pw = None"
    using assms by (auto simp: on_record_def)
  obtain g w1 where g: "getSecret pf Namespace (SecretName node) w = (g, w1)"
    by (cases "getSecret pf Namespace (SecretName node) w")
  have "g = Inr sec" using get_answer [OF g] sec(1) by simp
  moreover obtain w2 where "verifyHashIO pf key (secretHash sec) pw w1 = (None, w2)"
    using verifyHashIO_live [OF sec(2)] by blast
  moreover have "secretHash sec \<noteq> []" using sec(2) verifyHash_empty [of key SlotFree pw] by auto
  ultimately show ?thesis using g by (simp add: storeCheckAndSet_def numeral_2_eq_2 CheckAndSet.simps)
qed

lemma store_enrols:
  assumes "\<not> has_secret sv w node" "nv w node = None"
  shows "\<exists>w'. storeCheckAndSet pf key node pw w = (Inr True, w')"
proof -
  have none: "sv w Namespace (SecretName node) = None" using assms(1) by (simp add: has_secret_def)
  obtain g w1 where g: "getSecret pf Namespace (SecretName node) w = (g, w1)"
    by (cases "getSecret pf Namespace (SecretName node) w")
  have g': "g = Inl NotFound" using get_answer [OF g] none by simp
  obtain n w2 where n: "getNode pf node w1 = (n, w2)" by (cases "getNode pf node w1")
  have n': "n = Inl NotFound" using node_answer [OF n] get_secret [OF g] assms(2) by simp
  obtain hash w3 where h: "createHashIO pf key pw w2 = (Inr hash, w3)" using createHashIO_live by blast
  obtain c w4 where c: "createSecret pf Namespace (newSecret (SecretName node) hash) w3 = (c, w4)"
    by (cases "createSecret pf Namespace (newSecret (SecretName node) hash) w3")
  have "sv w3 Namespace (SecretName node) = None"
    using get_secret [OF g] get_node [OF n] createHashIO_props [OF h] none by simp
  then have "c = Inr ()" using create_answer [OF c] by simp
  then show ?thesis using g g' n n' h c by (simp add: storeCheckAndSet_def numeral_2_eq_2 CheckAndSet.simps)
qed

lemma CheckAndSet_nodes: "CheckAndSet fuel pf key node pw w = Some (res, w') \<Longrightarrow> nv w' = nv w"
proof (induction fuel arbitrary: w)
  case (Suc n)
  obtain g w1 where g: "getSecret pf Namespace (SecretName node) w = (g, w1)"
    by (cases "getSecret pf Namespace (SecretName node) w")
  obtain m w2 where m: "getNode pf node w1 = (m, w2)" by (cases "getNode pf node w1")
  obtain h w3 where h: "createHashIO pf key pw w2 = (h, w3)" by (cases "createHashIO pf key pw w2")
  have eq: "nv w1 = nv w" "nv w2 = nv w" "nv w3 = nv w"
    using get_secret [OF g] get_node [OF m] createHashIO_props [OF h] by simp_all
  show ?case
  proof (cases g)
    case (Inr sec)
    then show ?thesis
      using Suc.prems g eq verifyHashIO_props
      by (fastforce simp: CheckAndSet.simps Let_def split: if_splits prod.splits option.splits pw_error.splits)
  next
    case (Inl e)
    show ?thesis
    proof (cases "e = NotFound \<and> m = Inl NotFound \<and> (\<exists>hash. h = Inr hash)")
      case False
      then show ?thesis
        using Suc.prems g m h Inl eq
        by (auto simp: CheckAndSet.simps Let_def split: sum.splits api_error.splits)
    next
      case True
      then obtain hash where hash: "h = Inr hash" by blast
      obtain c w4 where c: "createSecret pf Namespace (newSecret (SecretName node) hash) w3 = (c, w4)"
        by (cases "createSecret pf Namespace (newSecret (SecretName node) hash) w3")
      have "nv w4 = nv w" using create_secret [OF c] eq by simp
      then show ?thesis
        using Suc.prems g m h Inl True hash c Suc.IH [of w4]
        by (auto simp: CheckAndSet.simps Let_def split: sum.splits api_error.splits)
    qed
  qed
qed (simp add: CheckAndSet.simps)

end

sublocale live_api \<subseteq> lst: live_store "storeCheckAndSet pf key" "on_record sv key" "has_secret sv" "node_known nv"
proof (unfold_locales, goal_cases)
  case (1 w node pw)
  then show ?case using store_recognises store_enrols by (auto simp: admits_def node_known_def)
next
  case (2 node pw w res w' n)
  then show ?case using store_frame [OF 2(1)] by (auto simp: has_secret_def SecretName_inj)
next
  case (3 node pw w res w')
  then show ?case using CheckAndSet_nodes [of 2 node pw w res w'] store_CheckAndSet [of node pw w] by (auto simp: node_known_def fun_eq_iff)
qed

interpretation mem_live: live_api mem_platform mem_secrets mem_nodes pad_key
  by unfold_locales (auto simp: pad_key_def split: option.splits)

interpretation mem_issuer: live_issuer "storeCheckAndSet mem_platform pad_key" "on_record mem_secrets pad_key"
  "has_secret mem_secrets" "node_known mem_nodes" mem_deps
  by unfold_locales
    (auto simp: same_store_def on_record_def has_secret_def mem_secrets_def mem_nodes_def node_known_def fun_eq_iff mem_create_def)

end
