(* ===== verification/Bootstrap.thy ===== *)
theory Bootstrap
  imports Live
begin

text \<open>
  The supervisor and the load generator put together: a synthetic agent's requests are answered by
  \<open>serve\<close>. The locale \<open>live_agent\<close> says what the HTTP client, the clock and the key generation on
  the agent's side do when they work; its lemmas show that every node of a load run gets through
  all nine requests of its bootstrap.
\<close>

section \<open>Requests that succeed\<close>

definition ensures :: "('v \<Rightarrow> outcome \<times> 'v) \<Rightarrow> ('v \<Rightarrow> bool) \<Rightarrow> ('v \<Rightarrow> bool) \<Rightarrow> bool" where
  "ensures f P Q \<longleftrightarrow> (\<forall>v. P v \<longrightarrow> (\<exists>v'. f v = (Done None, v') \<and> Q v'))"

text \<open>The tally after requests that all succeeded: one more success and sample for each.\<close>

definition succeeded :: "string list \<Rightarrow> tally \<Rightarrow> tally \<Rightarrow> bool" where
  "succeeded eps t t' \<longleftrightarrow>
     tl_ok t' = tl_ok t + length eps \<and> tl_bad t' = tl_bad t \<and>
     (\<exists>new. tl_samples t' = tl_samples t @ new \<and> map sm_endpoint new = eps \<and> list_all (\<lambda>x. sm_err x = None) new)"

lemma succeeded_Nil: "succeeded [] t t"
  by (simp add: succeeded_def)

lemma succeeded_record: "succeeded [ep] t (record_sample \<lparr>sm_endpoint = ep, sm_d = x, sm_err = None\<rparr> t)"
  by (simp add: succeeded_def record_sample_def countSample_def appendSample_def)

lemma succeeded_append: "succeeded a t u \<Longrightarrow> succeeded b u v \<Longrightarrow> succeeded (a @ b) t v"
  by (auto simp: succeeded_def)

definition all_ensured :: "'v agent \<Rightarrow> (string \<times> ('v \<Rightarrow> outcome \<times> 'v)) list \<Rightarrow> ('v \<Rightarrow> bool) \<Rightarrow> ('v \<Rightarrow> bool) \<Rightarrow> bool" where
  "all_ensured ag steps P Q \<longleftrightarrow>
     (\<forall>t v. P v \<longrightarrow> (\<exists>t' v'. timedAll ag steps t v = (Some t', v') \<and> succeeded (map fst steps) t t' \<and> Q v'))"

lemma all_ensured_Nil: "all_ensured ag [] P P"
  by (simp add: all_ensured_def succeeded_Nil)

lemma all_ensured_Cons:
  assumes "\<And>v. \<exists>t. ag_now ag v = (t, v)" "ensures f P R" "all_ensured ag steps R Q"
  shows "all_ensured ag ((ep, f) # steps) P Q"
proof -
  have "\<exists>t' v'. timedAll ag ((ep, f) # steps) t v = (Some t', v') \<and> succeeded (ep # map fst steps) t t' \<and> Q v'"
    if p: "P v" for t v
  proof -
    obtain t0 where t0: "ag_now ag v = (t0, v)" using assms(1) by blast
    obtain v1 where v1: "f v = (Done None, v1)" "R v1" using assms(2) p unfolding ensures_def by blast
    obtain t1 where t1: "ag_now ag v1 = (t1, v1)" using assms(1) by blast
    let ?t = "record_sample \<lparr>sm_endpoint = ep, sm_d = time_Sub t1 t0, sm_err = None\<rparr> t"
    obtain t' v' where r: "timedAll ag steps ?t v1 = (Some t', v')" "succeeded (map fst steps) ?t t'" "Q v'"
      using assms(3) v1(2) unfolding all_ensured_def by blast
    have "timedAll ag ((ep, f) # steps) t v = (Some t', v')"
      using t0 t1 v1(1) r(1) by (simp add: timed_def)
    then show ?thesis using succeeded_append [OF succeeded_record r(2)] r(3) by auto
  qed
  then show ?thesis by (simp add: all_ensured_def)
qed

section \<open>Routes and credentials\<close>

text \<open>The paths an agent asks for, each a clean path with a handler of its own.\<close>

definition agentPaths :: "string list" where
  "agentPaths =
     [''/cacerts'', ''/v1-rke2/config'', ''/v1-rke2/client-ca.crt'', ''/v1-rke2/server-ca.crt'', ''/v1-rke2/serving-kubelet.crt'',
      ''/v1-rke2/client-kubelet.crt'', ''/v1-rke2/client-kube-proxy.crt'', ''/v1-rke2/client-rke2-controller.crt'',
      ''/v1-rke2/apiservers'']"

lemma agentPaths_clean: "list_all (\<lambda>p. cleanPath p = p \<and> hasPrefix p ''/'') agentPaths"
  by code_simp

lemma serve_route:
  assumes "rq_Path r \<in> set agentPaths" "map_of (Routes tunnel) (rq_Path r) = Some h"
  shows "serve tunnel d s r w = h d s r w"
  using assms agentPaths_clean by (simp add: serve_def list_all_iff)

lemma agent_routes:
  "map_of (Routes tunnel) ''/cacerts'' = Some handleCACerts"
  "map_of (Routes tunnel) ''/v1-rke2/config'' = Some (auth handleConfig)"
  "map_of (Routes tunnel) ''/v1-rke2/client-ca.crt'' = Some (auth handleCA)"
  "map_of (Routes tunnel) ''/v1-rke2/server-ca.crt'' = Some (auth handleCA)"
  "map_of (Routes tunnel) ''/v1-rke2/serving-kubelet.crt'' = Some (auth handleCert)"
  "map_of (Routes tunnel) ''/v1-rke2/client-kubelet.crt'' = Some (auth handleCert)"
  "map_of (Routes tunnel) ''/v1-rke2/client-kube-proxy.crt'' = Some (auth handleCert)"
  "map_of (Routes tunnel) ''/v1-rke2/client-rke2-controller.crt'' = Some (auth handleCert)"
  "map_of (Routes tunnel) ''/v1-rke2/apiservers'' = Some (auth handleAPIServers)"
  by (simp_all add: Routes_def)

lemma agent_kinds:
  "rq_Path r = ''/v1-rke2/serving-kubelet.crt'' \<Longrightarrow> certKind r = ''serving-kubelet''"
  "rq_Path r = ''/v1-rke2/client-kubelet.crt'' \<Longrightarrow> certKind r = ''client-kubelet''"
  "rq_Path r = ''/v1-rke2/client-kube-proxy.crt'' \<Longrightarrow> certKind r = ''client-kube-proxy''"
  "rq_Path r = ''/v1-rke2/client-rke2-controller.crt'' \<Longrightarrow> certKind r = ''client-rke2-controller''"
  by (simp add: certKind_def, code_simp)+

lemma authorized_header:
  assumes "header_Get r ''Authorization'' = basicAuthHeader ''node'' (cfg_Token (sv_cfg s))"
  shows "authorized s r"
  using assms parseBasicAuth_roundtrip [of "''node''" "cfg_Token (sv_cfg s)"]
  by (simp add: authorized_def BasicAuth_def basicUser_def basicAuthHeader_def)

lemma servingSANIPs_effect:
  assumes "request_effect s s'"
  shows "servingSANIPs s' = servingSANIPs s"
proof -
  have e: "sv_serviceErr s' = sv_serviceErr s" "sv_serviceNets s' = sv_serviceNets s" "sv_apiServers s' = sv_apiServers s"
    using assms by (auto simp: request_effect_def buildAgentConfig_def split: option.splits)
  have "sanIP s' a p = sanIP s a p" for a p unfolding sanIP_def e(2) by (rule refl)
  then have "sanIPs s' a ps = sanIPs s a ps" for a ps by (induction ps) (simp_all split: sum.splits)
  moreover have "apiServerIPs s' = apiServerIPs s" by (simp add: apiServerIPs_def e)
  ultimately show ?thesis by (simp add: servingSANIPs_def e fun_eq_iff Let_def)
qed

section \<open>Runs of the load generator one node at a time\<close>

fun bootstrapAll :: "load_options \<Rightarrow> 'v agent \<Rightarrow> string list \<Rightarrow> tally \<Rightarrow> 'v \<Rightarrow> tally option \<times> 'v" where
  "bootstrapAll opt ag [] t v = (Some t, v)"
| "bootstrapAll opt ag (n # names) t v =
     (case bootstrap opt ag n t v of
        (None, v1) \<Rightarrow> (None, v1)
      | (Some t1, v1) \<Rightarrow> bootstrapAll opt ag names t1 v1)"

section \<open>An agent that can reach its supervisor\<close>

text \<open>
  A server that can serve the agents of a load run: it has the run's token, an agent configuration,
  and does not refuse the address all synthetic nodes claim. A name the supervisor accepts.
\<close>

definition ready_server :: "'w deps \<Rightarrow> load_options \<Rightarrow> server \<Rightarrow> bool" where
  "ready_server d opt s \<longleftrightarrow>
     wf_server s \<and> cfg_Token (sv_cfg s) = lg_token opt \<and> agentConfig (sv_cfg s) \<noteq> None \<and>
     (\<exists>ips. servingSANIPs s ''10.255.255.1'' = Inr ips)"

definition good_name :: "'w deps \<Rightarrow> string \<Rightarrow> bool" where
  "good_name d node \<longleftrightarrow> node \<noteq> [] \<and> length node \<le> 240 \<and> validateNodeName d node = None"

lemma ready_effect: "request_effect s s' \<Longrightarrow> ready_server d opt s \<Longrightarrow> ready_server d opt s'"
  using wf_effect [of s s'] servingSANIPs_effect [of s s'] by (auto simp: ready_server_def)

lemma good_password: "good_name d node \<Longrightarrow> ValidatePassword (nodePasswordOf node) = None"
  by (simp add: good_name_def ValidatePassword_def nodePasswordOf_def minPassword_def maxPassword_def)

locale live_agent = live_issuer cas accepts known is_node d
  for cas :: "string \<Rightarrow> string \<Rightarrow> 'w \<Rightarrow> (store_error, bool) result \<times> 'w" and accepts known is_node d +
  fixes ag :: "(server \<times> 'w) agent" and opt :: load_options and tunnel :: bool
  assumes token_set: "lg_token opt \<noteq> []"
    and url_ok: "path \<in> set agentPaths \<Longrightarrow> ag_newRequest ag (lg_server opt @ path) = Inr path"
    and answered: "serve tunnel d s r w = (Reply resp, s', w') \<Longrightarrow>
      \<exists>hr. ag_do ag (lg_server opt @ rq_Path r) r (s, w) = (Inr hr, (s', w')) \<and> hr_StatusCode hr = resp_code resp"
    and clock_still: "\<exists>t. ag_now ag v = (t, v)"
    and key_made: "\<exists>key. ag_generateKey ag P256 v = (Inr key, v)"
    and csr_made: "ag_generateKey ag P256 v = (Inr key, v') \<Longrightarrow> length cn \<le> 253 \<Longrightarrow>
      \<exists>der. ag_createCSR ag cn key v'' = (Inr der, v'') \<and> der \<noteq> [] \<and> length der \<le> 65536 \<and> CheckCSR (d_host d) der = None"
begin

text \<open>
  What holds between the requests of a run over the nodes \<open>N\<close>: the server is ready, every node of
  \<open>N\<close> would be admitted with its password, and the passwords of \<open>A\<close> are on record.
\<close>

definition load_inv :: "string set \<Rightarrow> string set \<Rightarrow> server \<times> 'w \<Rightarrow> bool" where
  "load_inv N A v \<longleftrightarrow> (case v of (s, w) \<Rightarrow> ready_server d opt s \<and>
     (\<forall>n \<in> N. adm w n (nodePasswordOf n)) \<and> (\<forall>n \<in> A. accepts w n (nodePasswordOf n)))"

lemma do_ok:
  assumes "serve tunnel d s r w = (Reply resp, s', w')" "resp_code resp = 200" "url = lg_server opt @ rq_Path r"
  shows "do_request ag url r (s, w) = (Done None, (s', w'))"
  using answered [OF assms(1)] assms(2,3) by (auto simp: do_request_def)

lemma load_inv_same: "load_inv N A (s, w) \<Longrightarrow> request_effect s s' \<Longrightarrow> same w w' \<Longrightarrow> load_inv N A (s', w')"
  using ready_effect same_adm [of w w'] by (auto simp: load_inv_def same_store_def)

text \<open>A GET whose handler answers 200 and leaves the store alone.\<close>

lemma get_ensures:
  assumes "path \<in> set agentPaths" "map_of (Routes tunnel) path = Some h"
    and "\<And>s w r. ready_server d opt s \<Longrightarrow> rq_Path r = path \<Longrightarrow>
      (tok \<noteq> [] \<Longrightarrow> header_Get r ''Authorization'' = basicAuthHeader ''node'' tok) \<Longrightarrow>
      \<exists>resp s'. h d s r w = (Reply resp, s', w) \<and> resp_code resp = 200"
  shows "ensures (get opt ag path tok []) (load_inv N A) (load_inv N A)"
proof -
  have "\<exists>v'. get opt ag path tok [] (s, w) = (Done None, v') \<and> load_inv N A v'" if i: "load_inv N A (s, w)" for s w
  proof -
    let ?r = "\<lparr>rq_Method = ''GET'', rq_Path = path,
      rq_Header = (if tok \<noteq> [] then [(''Authorization'', basicAuthHeader ''node'' tok)] else []) @ [],
      rq_Body = [], rq_BodyErr = None\<rparr>"
    obtain resp s' where h: "h d s ?r w = (Reply resp, s', w)" "resp_code resp = 200"
      using assms(3) [of s ?r w] i by (auto simp: load_inv_def header_Get_def)
    then have sv: "serve tunnel d s ?r w = (Reply resp, s', w)"
      using serve_route [of ?r tunnel h d s w] assms(1,2) by simp
    then have "get opt ag path tok [] (s, w) = (Done None, (s', w))"
      using do_ok [OF sv h(2)] url_ok [OF assms(1)] by (simp add: get_def)
    moreover have "load_inv N A (s', w)"
      using load_inv_same [OF i serve_effect [OF sv]] by (simp add: same_store_def)
    ultimately show ?thesis by blast
  qed
  then show ?thesis by (simp add: ensures_def split_paired_all)
qed

lemma auth_passes:
  assumes "ready_server d opt s" "header_Get r ''Authorization'' = basicAuthHeader ''node'' (lg_token opt)"
  shows "auth h d s r w = h d s r w"
  using assms authorized_header [of r s] by (simp add: auth_def ready_server_def)

lemma config_ready: "ready_server d opt s \<Longrightarrow> \<exists>resp s'. handleConfig d s r w = (Reply resp, s', w) \<and> resp_code resp = 200"
  by (auto simp: ready_server_def wf_server_def handleConfig_def buildAgentConfig_def Let_def)

lemma auth_get_ensures:
  assumes "path \<in> set agentPaths" "map_of (Routes tunnel) path = Some (auth h)"
    and "\<And>s w r. ready_server d opt s \<Longrightarrow> \<exists>resp s'. h d s r w = (Reply resp, s', w) \<and> resp_code resp = 200"
  shows "ensures (get opt ag path (lg_token opt) []) (load_inv N A) (load_inv N A)"
  by (rule get_ensures [OF assms(1,2)]) (metis auth_passes token_set assms(3))

lemma gets_ensured:
  "ensures (get opt ag ''/cacerts'' [] []) (load_inv N A) (load_inv N A)"
  "ensures (get opt ag ''/v1-rke2/config'' (lg_token opt) []) (load_inv N A) (load_inv N A)"
  "ensures (get opt ag ''/v1-rke2/client-ca.crt'' (lg_token opt) []) (load_inv N A) (load_inv N A)"
  "ensures (get opt ag ''/v1-rke2/server-ca.crt'' (lg_token opt) []) (load_inv N A) (load_inv N A)"
  "ensures (get opt ag ''/v1-rke2/apiservers'' (lg_token opt) []) (load_inv N A) (load_inv N A)"
proof -
  show "ensures (get opt ag ''/cacerts'' [] []) (load_inv N A) (load_inv N A)"
    by (rule get_ensures [OF _ agent_routes(1)]) (simp_all add: agentPaths_def handleCACerts_def)
  show "ensures (get opt ag ''/v1-rke2/config'' (lg_token opt) []) (load_inv N A) (load_inv N A)"
    by (rule auth_get_ensures [OF _ agent_routes(2) config_ready]) (simp_all add: agentPaths_def)
  show "ensures (get opt ag ''/v1-rke2/client-ca.crt'' (lg_token opt) []) (load_inv N A) (load_inv N A)"
    by (rule auth_get_ensures [OF _ agent_routes(3)]) (simp_all add: agentPaths_def handleCA_def)
  show "ensures (get opt ag ''/v1-rke2/server-ca.crt'' (lg_token opt) []) (load_inv N A) (load_inv N A)"
    by (rule auth_get_ensures [OF _ agent_routes(4)]) (simp_all add: agentPaths_def handleCA_def)
  show "ensures (get opt ag ''/v1-rke2/apiservers'' (lg_token opt) []) (load_inv N A) (load_inv N A)"
    by (rule auth_get_ensures [OF _ agent_routes(9)]) (simp_all add: agentPaths_def handleAPIServers_def Let_def)
qed

text \<open>A POST whose CSR the handler certifies.\<close>

lemma post_ensures:
  assumes "path \<in> set agentPaths" "map_of (Routes tunnel) path = Some (auth handleCert :: 'w handler)" "length cn \<le> 253"
    and "''Authorization'' \<notin> fst ` set hdr"
    and "\<And>s w r. load_inv N A (s, w) \<Longrightarrow> rq_Method r = ''POST'' \<Longrightarrow> rq_Path r = path \<Longrightarrow> rq_Header r = (''Authorization'', auth_value) # hdr \<Longrightarrow>
      readCSR r = Inr (rq_Body r) \<Longrightarrow> CheckCSR (d_host d) (rq_Body r) = None \<Longrightarrow>
      \<exists>resp w'. handleCert d s r w = (Reply resp, s, w') \<and> resp_code resp = 200 \<and> load_inv N B (s, w')"
    and "auth_value = basicAuthHeader ''node'' (lg_token opt)"
  shows "ensures (postCSR opt ag path cn hdr) (load_inv N A) (load_inv N B)"
proof -
  have "\<exists>v'. postCSR opt ag path cn hdr (s, w) = (Done None, v') \<and> load_inv N B v'" if i: "load_inv N A (s, w)" for s w
  proof -
    obtain key where k: "ag_generateKey ag P256 (s, w) = (Inr key, (s, w))" using key_made by blast
    obtain der where der: "ag_createCSR ag cn key (s, w) = (Inr der, (s, w))" "der \<noteq> []" "length der \<le> 65536"
      "CheckCSR (d_host d) der = None" using csr_made [OF k assms(3)] by blast
    let ?r = "\<lparr>rq_Method = ''POST'', rq_Path = path, rq_Header = (''Authorization'', basicAuthHeader ''node'' (lg_token opt)) # hdr,
      rq_Body = der, rq_BodyErr = None\<rparr>"
    have "readCSR ?r = Inr der" using der(2,3) by (simp add: readCSR_exact)
    then obtain resp w' where h: "handleCert d s ?r w = (Reply resp, s, w')" "resp_code resp = 200" "load_inv N B (s, w')"
      using assms(5) [OF i, of ?r] der(4) assms(6) by auto
    have "auth handleCert d s ?r w = handleCert d s ?r w"
      using i by (intro auth_passes) (simp_all add: load_inv_def header_Get_def)
    then have sv: "serve tunnel d s ?r w = (Reply resp, s, w')"
      using serve_route [of ?r tunnel "auth handleCert" d s w] assms(1,2) h(1) by simp
    show ?thesis
      using do_ok [OF sv h(2) refl] url_ok [OF assms(1)] k der(1) h(3) by (simp add: postCSR_def Let_def)
  qed
  then show ?thesis by (simp add: ensures_def split_paired_all)
qed

lemma node_headers:
  assumes "rq_Header r = (''Authorization'', a) # nodeHdr node"
  shows "header_Get r hdrNodeName = node" "header_Get r hdrNodePassword = nodePasswordOf node" "header_Get r hdrNodeIP = ''10.255.255.1''"
  using assms by (simp_all add: header_Get_def nodeHdr_def hdrNodeName_def hdrNodePassword_def hdrNodeIP_def)

lemma node_checks:
  assumes "ready_server d opt s" "good_name d node" "rq_Header r = (''Authorization'', a) # nodeHdr node"
  shows "\<exists>ips. nodeChecks d s kind r = Inr ips"
proof -
  obtain ips where "servingSANIPs s ''10.255.255.1'' = Inr ips" using assms(1) by (auto simp: ready_server_def)
  moreover have "nodePasswordOf node \<noteq> []" by (simp add: nodePasswordOf_def)
  ultimately show ?thesis
    using assms(2) good_password [OF assms(2)] node_headers [OF assms(3)]
    by (auto simp: nodeChecks_def nodeSANs_def good_name_def Let_def)
qed

lemma post_node_ensures:
  assumes "path \<in> {''/v1-rke2/serving-kubelet.crt'', ''/v1-rke2/client-kubelet.crt''}" "node \<in> N" "good_name d node"
  shows "ensures (postCSR opt ag path node (nodeHdr node)) (load_inv N A) (load_inv N (insert node A))"
proof (rule post_ensures [where auth_value = "basicAuthHeader ''node'' (lg_token opt)"], goal_cases)
  case (5 s w r)
  have k: "node_scoped r" using assms(1) 5(3) agent_kinds(1,2) [of r] by (auto simp: node_scoped_def)
  note hd = node_headers [OF 5(4)]
  have i: "ready_server d opt s" "adm w node (nodePasswordOf node)" using 5(1) assms(2) by (auto simp: load_inv_def)
  obtain ips where c: "nodeChecks d s (certKind r) r = Inr ips" using node_checks [OF i(1) assms(3) 5(4)] by blast
  obtain resp w' where h: "handleCert d s r w = (Reply resp, s, w')" "resp_code resp = 200"
    and acc: "accepts w' node (nodePasswordOf node)"
    and kept: "\<And>n q. accepts w n q \<Longrightarrow> accepts w' n q"
    and others: "\<And>n q. adm w n q \<Longrightarrow> n \<noteq> node \<or> q = nodePasswordOf node \<Longrightarrow> adm w' n q"
    using handleCert_node_live [OF 5(2,5,6) k c] i(2) unfolding hd by blast
  have "load_inv N (insert node A) (s, w')"
    using 5(1) acc kept others by (auto simp: load_inv_def)
  then show ?case using h by blast
qed (use assms in \<open>auto simp: agentPaths_def agent_routes good_name_def nodeHdr_def\<close>)

lemma post_cluster_ensures:
  assumes "path \<in> {''/v1-rke2/client-kube-proxy.crt'', ''/v1-rke2/client-rke2-controller.crt''}" "good_name d node"
  shows "ensures (postCSR opt ag path node []) (load_inv N A) (load_inv N A)"
proof (rule post_ensures [where auth_value = "basicAuthHeader ''node'' (lg_token opt)"], goal_cases)
  case (5 s w r)
  have k: "certKind r = ''client-kube-proxy'' \<or> certKind r = ''client-rke2-controller''"
    using assms(1) 5(3) agent_kinds(3,4) [of r] by auto
  obtain resp w' where h: "handleCert d s r w = (Reply resp, s, w')" "resp_code resp = 200" "same w w'"
    using handleCert_cluster_live [OF 5(2,5,6) k] by blast
  then have "load_inv N A (s, w')" using 5(1) load_inv_same [of N A s w s w'] by (simp add: request_effect_def)
  then show ?case using h by blast
qed (use assms in \<open>auto simp: agentPaths_def agent_routes good_name_def\<close>)

text \<open>One node, then any number of nodes one after the other.\<close>

lemma bootstrap_ensured:
  assumes "node \<in> N" "good_name d node" "load_inv N A v"
  shows "\<exists>t' v'. bootstrap opt ag node t v = (Some t', v') \<and> succeeded bootstrapEndpoints t t' \<and> load_inv N (insert node A) v'"
proof -
  have k: "ensures (postCSR opt ag ''/v1-rke2/client-kubelet.crt'' node (nodeHdr node)) (load_inv N (insert node A)) (load_inv N (insert node A))"
    using post_node_ensures [OF _ assms(1,2), of _ "insert node A"] by simp
  have "all_ensured ag (bootstrapSteps opt ag node) (load_inv N A) (load_inv N (insert node A))"
    unfolding bootstrapSteps_def
    by (intro all_ensured_Cons [OF clock_still gets_ensured(1)] all_ensured_Cons [OF clock_still gets_ensured(2)]
        all_ensured_Cons [OF clock_still gets_ensured(3)] all_ensured_Cons [OF clock_still gets_ensured(4)]
        all_ensured_Cons [OF clock_still post_node_ensures [OF _ assms(1,2)]] all_ensured_Cons [OF clock_still k]
        all_ensured_Cons [OF clock_still post_cluster_ensures [OF _ assms(2)]]
        all_ensured_Cons [OF clock_still gets_ensured(5)] all_ensured_Nil) simp_all
  then show ?thesis
    using assms(3) unfolding all_ensured_def bootstrap_def bootstrapEndpoints_steps by blast
qed

lemma bootstrapAll_ensured:
  assumes "set names \<subseteq> N" "\<And>n. n \<in> set names \<Longrightarrow> good_name d n" "load_inv N A v"
  shows "\<exists>t' v'. bootstrapAll opt ag names t v = (Some t', v') \<and>
    succeeded (concat (map (\<lambda>_. bootstrapEndpoints) names)) t t' \<and> load_inv N (set names \<union> A) v'"
  using assms
proof (induction names arbitrary: A t v)
  case Nil
  then show ?case by (simp add: succeeded_Nil)
next
  case (Cons n names)
  obtain t1 v1 where b: "bootstrap opt ag n t v = (Some t1, v1)" "succeeded bootstrapEndpoints t t1" "load_inv N (insert n A) v1"
    using bootstrap_ensured [of n N A v t] Cons.prems by auto
  obtain t' v' where r: "bootstrapAll opt ag names t1 v1 = (Some t', v')"
    "succeeded (concat (map (\<lambda>_. bootstrapEndpoints) names)) t1 t'" "load_inv N (set names \<union> insert n A) v'"
    using Cons.IH [OF _ _ b(3), of t1] Cons.prems(1,2) by auto
  then show ?case using b(1) succeeded_append [OF b(2) r(2)] by simp
qed

end

section \<open>Every node gets through\<close>

lemma succeeded_all:
  assumes "succeeded (concat (map (\<lambda>_. bootstrapEndpoints) names)) t t'"
  shows "tl_ok t' = tl_ok t + 9 * length names \<and> tl_bad t' = tl_bad t"
proof -
  have "length (concat (map (\<lambda>_. bootstrapEndpoints) names)) = 9 * length names"
    by (induction names) (simp_all add: distinct_endpoints(2))
  then show ?thesis using assms by (simp add: succeeded_def)
qed

text \<open>
  (C12) Every node bootstraps. Against a healthy API, when each synthetic node either has a name
  that is neither enrolled nor an existing Node, or enrolled before with the password it uses, all
  nine requests of all nodes succeed, none fails, and every node's password is then on record (so
  the same run succeeds again: the nodes come back after a power failure).
\<close>

theorem every_node_bootstraps:
  assumes "live_agent (storeCheckAndSet pf key) (on_record sv key) (has_secret sv) (node_known nv) d ag opt tunnel"
    and "ready_server d opt s" and "\<And>i. i < n \<Longrightarrow> good_name d (syntheticName opt i)"
    and "\<And>i. i < n \<Longrightarrow> admits (on_record sv key) (has_secret sv) (node_known nv) w
      (syntheticName opt i) (nodePasswordOf (syntheticName opt i))"
  shows "\<exists>t' s' w'. bootstrapAll opt ag (map (syntheticName opt) [0..<n]) noSamples (s, w) = (Some t', (s', w')) \<and>
    tl_ok t' = 9 * n \<and> tl_bad t' = 0 \<and> ready_server d opt s' \<and>
    (\<forall>i < n. on_record sv key w' (syntheticName opt i) (nodePasswordOf (syntheticName opt i)))"
proof -
  let ?N = "syntheticName opt ` {0..<n}" and ?names = "map (syntheticName opt) [0..<n]"
  have r: "live_agent.load_inv (on_record sv key) (has_secret sv) (node_known nv) d opt ?N {} (s, w)"
    using assms(2,4) by (auto simp: live_agent.load_inv_def [OF assms(1)])
  obtain t' s' w' where b: "bootstrapAll opt ag ?names noSamples (s, w) = (Some t', (s', w'))"
    and t: "succeeded (concat (map (\<lambda>_. bootstrapEndpoints) ?names)) noSamples t'"
    and r': "live_agent.load_inv (on_record sv key) (has_secret sv) (node_known nv) d opt ?N (set ?names \<union> {}) (s', w')"
    using live_agent.bootstrapAll_ensured [OF assms(1) _ _ r, of ?names noSamples] assms(3) by fastforce
  then show ?thesis
    using succeeded_all [OF t] by (auto simp: live_agent.load_inv_def [OF assms(1)] noSamples_def)
qed

section \<open>A concrete agent\<close>

definition mem_agent :: "(server \<times> mem) agent" where
  "mem_agent =
     \<lparr>ag_newRequest = (\<lambda>url. if hasPrefix url ''https://10.0.0.1:9345/''
        then Inr (drop (length ''https://10.0.0.1:9345'') url) else Inl ''invalid URL''),
      ag_do = (\<lambda>url r (s, w). case serve True mem_deps s r w of
         (Reply resp, v) \<Rightarrow> (Inr \<lparr>hr_StatusCode = resp_code resp, hr_Status = dec_of_nat (resp_code resp), hr_Body = [], hr_spare = []\<rparr>, v)
       | (_, v) \<Rightarrow> (Inl ''EOF'', v)),
      ag_generateKey = (\<lambda>c v. (Inr mem_signer, v)),
      ag_createCSR = (\<lambda>cn key v. (Inr (mem_csr cn [] (sk_Public mem_signer)), v)),
      ag_now = (\<lambda>v. (0, v))\<rparr>"

lemma mem_agent_csr:
  assumes "length cn \<le> 253"
  shows "mem_csr cn [] (sk_Public mem_signer) \<noteq> [] \<and> length (mem_csr cn [] (sk_Public mem_signer)) \<le> 65536"
  using assms by (simp add: mem_csr_def list_field_def field_def key_fields_def curve_field_def mem_signer_def dec_of_nat.simps)

lemma agentPaths_rooted: "path \<in> set agentPaths \<Longrightarrow> \<exists>t. path = CHR ''/'' # t"
  by (auto simp: agentPaths_def)

interpretation mem_agent: live_agent "storeCheckAndSet mem_platform pad_key" "on_record mem_secrets pad_key"
  "has_secret mem_secrets" "node_known mem_nodes" mem_deps mem_agent "lab 1" True
proof (unfold_locales, goal_cases)
  case 1
  then show ?case by (simp add: lab_def)
next
  case (2 path)
  then obtain t where "path = CHR ''/'' # t" using agentPaths_rooted by blast
  then show ?case by (simp add: mem_agent_def lab_def hasPrefix_def)
next
  case (6 v key v' cn v'')
  have "CheckCSR mem_host (mem_csr cn [] (sk_Public mem_signer)) = None"
    by (simp add: CheckCSR_def parseCSR_def checkPublicKey_def mem_signer_def)
  then show ?case using mem_agent_csr [OF 6(2)] by (simp add: mem_agent_def)
qed (auto simp: mem_agent_def)

lemma mem_ready: "ready_server mem_deps (lab 1) (newServer mem_config mem_ca)"
proof -
  let ?s = "newServer mem_config mem_ca"
  have "sv_cfg ?s = mem_config" using wf_new by blast
  moreover have "agentConfig mem_config \<noteq> None"
    by (simp add: agentConfig_def mem_template_map mem_config_def)
  moreover have "\<exists>ips. servingSANIPs ?s ''10.255.255.1'' = Inr ips"
  proof -
    let ?ip = "v4InV6Prefix @ [10, 255, 255, 1]"
    have "parseCIDRs [] = Some []" by code_simp
    then have "\<not> sv_serviceErr ?s" "sv_serviceNets ?s = []" "sv_apiServers ?s = None"
      by (simp_all add: newServer_def SetAPIServers_def mem_config_def Let_def)
    moreover have "trimSpace ''10.255.255.1'' = ''10.255.255.1''" "split (CHR '','') ''10.255.255.1'' = [''10.255.255.1'']"
      "parseIP ''10.255.255.1'' = Some ?ip" "isLoopback ?ip \<or> isUnspecified ?ip \<or> isLinkLocalUnicast ?ip \<or>
       isMulticast ?ip \<or> isInterfaceLocalMulticast ?ip \<or> isLinkLocalMulticast ?ip \<longleftrightarrow> False"
      by code_simp+
    ultimately show ?thesis by (simp add: servingSANIPs_def sanIP_def apiServerIPs_def maxNodeIPs_def del: split.simps)
  qed
  ultimately show ?thesis using wf_new by (simp add: ready_server_def mem_config_def lab_def)
qed

lemma mem_good_name: "good_name mem_deps (syntheticName (lab 1) 0)"
  by code_simp

theorem every_node_bootstraps_witness:
  "\<exists>t' s' w'. bootstrapAll (lab 1) mem_agent [syntheticName (lab 1) 0] noSamples (newServer mem_config mem_ca, mem_empty) =
     (Some t', (s', w')) \<and> tl_ok t' = 9 \<and> tl_bad t' = 0"
proof -
  have "admits (on_record mem_secrets pad_key) (has_secret mem_secrets) (node_known mem_nodes) mem_empty n pw" for n pw
    by (simp add: admits_def has_secret_def node_known_def mem_secrets_def mem_nodes_def mem_empty_def)
  then show ?thesis
    using every_node_bootstraps [OF mem_agent.live_agent_axioms mem_ready, of 1 mem_empty] mem_good_name by auto
qed

end
