(* ===== verification/Load_Text.thy ===== *)
theory Load_Text
  imports Load_Run Go_Flag
begin

text \<open>
  The command line and the output of src/hack/loadgen/main.go: its flags on package flag, durations
  among them, and what it prints, from the announcement of the run to the report with its
  columns, milliseconds and rate. The error table is in the order of the model's map, which Go
  leaves open.
\<close>

section \<open>Flags\<close>

definition loadFlags :: "load_options flags" where
  "loadFlags =
     [(''server'', StringVar lg_server (\<lambda>v. lg_server_update (\<lambda>_. v))),
      (''token'', StringVar lg_token (\<lambda>v. lg_token_update (\<lambda>_. v))),
      (''nodes'', IntVar lg_nodes (\<lambda>v. lg_nodes_update (\<lambda>_. v))),
      (''concurrency'', IntVar lg_concurrency (\<lambda>v. lg_concurrency_update (\<lambda>_. v))),
      (''prefix'', StringVar lg_prefix (\<lambda>v. lg_prefix_update (\<lambda>_. v))),
      (''tunnels'', BoolVar lg_withTunnels (\<lambda>v. lg_withTunnels_update (\<lambda>_. v))),
      (''hold'', DurationVar lg_hold (\<lambda>v. lg_hold_update (\<lambda>_. v))),
      (''timeout'', DurationVar lg_timeout (\<lambda>v. lg_timeout_update (\<lambda>_. v)))]"

text \<open>flag.Parse on the command line's own flag set, which exits on an error, and the rest of main before its loop.\<close>

definition load_command :: "string list \<Rightarrow> load_options option \<times> load_start" where
  "load_command args =
     (case parseFlags loadFlags args defaultLoadOptions of
        Inl ErrHelp \<Rightarrow> (None, LoadExit 0)
      | Inl _ \<Rightarrow> (None, LoadExit 2)
      | Inr opt \<Rightarrow> (Some opt, load_main opt))"

text \<open>The client of all requests; the connections it keeps are an int.\<close>

record load_client =
  lc_InsecureSkipVerify :: bool
  lc_MaxIdleConnsPerHost :: "64 word"
  lc_Timeout :: duration

definition loadClient :: "load_options \<Rightarrow> load_client" where
  "loadClient opt =
     \<lparr>lc_InsecureSkipVerify = True, lc_MaxIdleConnsPerHost = word_of_int (lg_concurrency opt) * 2, lc_Timeout = lg_timeout opt\<rparr>"

section \<open>Output\<close>

definition newline :: string where "newline = [CHR 0x0A]"

definition padRight :: "nat \<Rightarrow> string \<Rightarrow> string" where
  "padRight n s = s @ replicate (n - length s) (CHR '' '')"

definition padLeft :: "nat \<Rightarrow> string \<Rightarrow> string" where
  "padLeft n s = replicate (n - length s) (CHR '' '') @ s"

text \<open>Microseconds truncates towards zero; the quotient is a float64.\<close>

definition ms :: "duration \<Rightarrow> string" where
  "ms d =
     (let us = \<bar>d\<bar> div 1000 in
      (if d < 0 \<and> us \<noteq> 0 then ''-'' else []) @ fixed1 (f_divide (f_of_nat (nat us)) (f_of_nat 1000)) @ ''ms'')"

text \<open>Duration.Seconds of a duration that is not negative.\<close>

definition f_seconds :: "duration \<Rightarrow> ufloat" where
  "f_seconds d = f_add (f_of_nat (nat (d div second))) (f_divide (f_of_nat (nat (d mod second))) (f_of_nat 1000000000))"

definition rowText :: "string \<Rightarrow> string \<Rightarrow> string \<Rightarrow> string \<Rightarrow> string \<Rightarrow> string \<Rightarrow> string" where
  "rowText ep n p50 p95 p99 mx =
     padRight 32 ep @ '' '' @ padLeft 6 n @ '' '' @ padLeft 9 p50 @ '' '' @ padLeft 9 p95 @ '' '' @ padLeft 9 p99 @
     '' '' @ padLeft 9 mx @ newline"

definition reportText :: "load_report \<Rightarrow> duration \<Rightarrow> string" where
  "reportText rp elapsed =
     rowText ''endpoint'' ''n'' ''p50'' ''p95'' ''p99'' ''max'' @
     concat (map (\<lambda>r. rowText (rr_endpoint r) (dec_of_nat (rr_n r)) (ms (rr_p50 r)) (ms (rr_p95 r)) (ms (rr_p99 r)) (ms (rr_max r)))
       (rp_rows rp)) @
     newline @ dec_of_nat (rp_ok rp) @ '' ok, '' @ dec_of_nat (rp_bad rp) @ '' failed, wall clock '' @
     durationString (duration_Round elapsed 1000000) @
     (if elapsed > 0 then '', '' @ fixed1 (f_divide (f_of_nat (rp_ok rp + rp_bad rp)) (f_seconds elapsed)) @ '' req/s'' else []) @
     newline @
     (if rp_errors rp \<noteq> [] then
        newline @ ''errors:'' @ newline @
        concat (map (\<lambda>(ep, m). concat (map (\<lambda>(e, n).
          ''  '' @ padRight 32 ep @ '' '' @ padLeft 4 (dec_of_nat n) @ '' x '' @ e @ newline) m)) (rp_errors rp))
      else [])"

text \<open>The announcement before the run, and the rest of main after the report: what it says and how long it sleeps.\<close>

definition announcement :: "load_options \<Rightarrow> string" where
  "announcement opt =
     ''bootstrapping '' @ itoa (lg_nodes opt) @ '' synthetic nodes, '' @ itoa (lg_concurrency opt) @ '' at a time, against '' @
     lg_server opt @ newline @ newline"

definition afterReport :: "load_options \<Rightarrow> string \<times> duration" where
  "afterReport opt =
     ((if lg_withTunnels opt then newline @ ''-tunnels is not implemented yet; see docs/benchmarks.md'' @ newline else []) @
      (if lg_hold opt > 0 then ''holding for '' @ durationString (lg_hold opt) @ newline else []),
      if lg_hold opt > 0 then lg_hold opt else 0)"

section \<open>Lemmas\<close>

text \<open>Options whose numbers and durations are int64.\<close>

definition load_ints :: "load_options \<Rightarrow> bool" where
  "load_ints opt \<longleftrightarrow> (\<forall>n \<in> {lg_nodes opt, lg_concurrency opt, lg_hold opt, lg_timeout opt}. - (2 ^ 63) \<le> n \<and> n < 2 ^ 63)"

lemma loadFlags_accepts:
  "load_ints src \<Longrightarrow> \<forall>(name, fv) \<in> set loadFlags.
     \<exists>o'. valueSet fv (valueString fv src) opts = Some o' \<and> valueString fv o' = valueString fv src"
  by (simp add: loadFlags_def load_ints_def parseInt_itoa parseDuration_String)

lemma loadFlags_keeps:
  "\<forall>(name, fv) \<in> set loadFlags. \<forall>(name', fv') \<in> set loadFlags. name \<noteq> name' \<longrightarrow>
     valueSet fv v opts = Some o' \<longrightarrow> valueString fv' o' = valueString fv' opts"
  by (simp add: loadFlags_def) auto

interpretation load_flags: flag_table loadFlags load_ints
proof unfold_locales
  show "distinct (map fst loadFlags)" by (simp add: loadFlags_def)
  show "flagName name" if "name \<in> fst ` set loadFlags" for name using that by (auto simp: loadFlags_def flagName_def)
  show "\<exists>o'. valueSet fv (valueString fv src) opts = Some o' \<and> valueString fv o' = valueString fv src"
    if "(name, fv) \<in> set loadFlags" "load_ints src" for name fv src opts
    using loadFlags_accepts [OF that(2), of opts] that(1) by blast
  show "valueString fv' o' = valueString fv' opts"
    if "(name, fv) \<in> set loadFlags" "(name', fv') \<in> set loadFlags" "name \<noteq> name'" "valueSet fv v opts = Some o'"
    for name fv name' fv' v opts o'
    using loadFlags_keeps [of v opts o'] that by blast
qed

text \<open>
  Any options can be given on the command line, each flag written as the program itself would show
  it: the load generator then runs with exactly these.
\<close>

definition loadSettings :: "load_options \<Rightarrow> string list" where
  "loadSettings opt = map (\<lambda>(name, fv). setting name (valueString fv opt)) loadFlags"

lemma load_options_roundtrip:
  assumes "load_ints src"
  shows "load_command (loadSettings src) = (Some src, load_main src)"
proof -
  let ?ss = "map (\<lambda>(name, fv). (name, valueString fv src)) loadFlags"
  have "applySettings loadFlags ?ss defaultLoadOptions = Some src"
    using assms by (simp add: loadFlags_def load_ints_def parseInt_itoa parseDuration_String)
  from load_flags.parse_settings [OF this] show ?thesis
    by (simp add: load_command_def loadSettings_def comp_def case_prod_unfold)
qed

end
