(* ===== verification/Wiring.thy ===== *)
theory Wiring
  imports Discovery Shim_Main Live
begin

text \<open>
  How src/cmd/shim/main.go puts the parts together: the supervisor gets the Secret store and the
  expiry tracker on the client it shares with them. The tracker is state of the process, so the
  wired supervisor runs on pairs of the tracker and the world; every operation of the platform and
  of the host works on the second component.

  The locale \<open>framed\<close> is what the parts other than the password store rely on and promise: they
  leave a view of the world (which passwords are recorded, which Nodes exist) as it is. It is
  interpreted for every API with the laws of \<open>shim_world\<close>, alone and paired with the tracker.
\<close>

section \<open>Operations beside the tracker\<close>

definition beside :: "('w \<Rightarrow> 'a \<times> 'w) \<Rightarrow> 't \<times> 'w \<Rightarrow> 'a \<times> 't \<times> 'w" where
  "beside f tw = (case tw of (t, w) \<Rightarrow> case f w of (a, w') \<Rightarrow> (a, t, w'))"

definition besidePlatform :: "'w platform \<Rightarrow> ('t \<times> 'w) platform" where
  "besidePlatform pf =
     \<lparr>getSecret = (\<lambda>ns name. beside (getSecret pf ns name)),
      createSecret = (\<lambda>ns s. beside (createSecret pf ns s)),
      patchSecret = (\<lambda>ns name as. beside (patchSecret pf ns name as)),
      listSecrets = (\<lambda>ns l. beside (listSecrets pf ns l)),
      getNode = (\<lambda>name. beside (getNode pf name)),
      listNodes = (\<lambda>l. beside (listNodes pf l)),
      createEvent = (\<lambda>ns e. beside (createEvent pf ns e)),
      patchEvent = (\<lambda>ns name p. beside (patchEvent pf ns name p)),
      randSalt = beside (randSalt pf),
      slotWait = beside (slotWait pf),
      timeNow = beside (timeNow pf)\<rparr>"

definition besideHost :: "'w host \<Rightarrow> ('t \<times> 'w) host" where
  "besideHost h =
     \<lparr>readFile = (\<lambda>path. beside (readFile h path)),
      getenv = getenv h, hostname = hostname h, interfaceAddrs = interfaceAddrs h,
      pemDecode = pemDecode h, pemEncode = pemEncode h, parseCertificate = parseCertificate h,
      parseECPrivateKey = parseECPrivateKey h, parsePKCS1PrivateKey = parsePKCS1PrivateKey h,
      parsePKCS8PrivateKey = parsePKCS8PrivateKey h, parseCertificateRequest = parseCertificateRequest h,
      checkSignature = checkSignature h,
      createCertificate = (\<lambda>tmpl parent pub priv. beside (createCertificate h tmpl parent pub priv)),
      randInt = (\<lambda>n. beside (randInt h n)),
      generateKey = (\<lambda>c. beside (generateKey h c)),
      marshalECPrivateKey = marshalECPrivateKey h, x509KeyPair = x509KeyPair h\<rparr>"

text \<open>supervisor.New(cfg, ca, nodepassword.NewSecretStore(clientset), tracker, log).\<close>

definition wire :: "scrypt_fun \<Rightarrow> 'w deps \<Rightarrow> (tracker \<times> 'w) deps" where
  "wire key d =
     \<lparr>d_pf = besidePlatform (d_pf d), d_host = besideHost (d_host d),
      d_pw = Some (\<lambda>node pw. beside (storeCheckAndSet (d_pf d) key node pw)),
      d_rec = Some (\<lambda>node kind na (t, w). RecordIssued (d_pf d) node kind na t w),
      d_isDNS1123 = d_isDNS1123 d\<rparr>"

lemma beside_apply [simp]: "beside f (t, w) = (fst (f w), t, snd (f w))"
  by (simp add: beside_def split: prod.splits)

lemma snd_beside [simp]: "snd (snd (beside f tw)) = snd (f (snd tw))" "fst (snd (beside f tw)) = fst tw"
    "fst (beside f tw) = fst (f (snd tw))"
  by (cases tw, simp)+

lemma beside_eq: "beside f tw = (a, tw') \<longleftrightarrow> f (snd tw) = (a, snd tw') \<and> fst tw' = fst tw"
  by (cases tw; cases tw') (auto simp: prod_eq_iff)

lemma wire_sel [simp]:
  "d_pf (wire key d) = besidePlatform (d_pf d)" "d_host (wire key d) = besideHost (d_host d)"
  "d_pw (wire key d) = Some (\<lambda>node pw. beside (storeCheckAndSet (d_pf d) key node pw))"
  "d_rec (wire key d) = Some (\<lambda>node kind na (t, w). RecordIssued (d_pf d) node kind na t w)"
  "d_isDNS1123 (wire key d) = d_isDNS1123 d"
  by (simp_all add: wire_def)

lemma beside_platform_sel [simp]:
  "patchSecret (besidePlatform pf) ns name as = beside (patchSecret pf ns name as)"
  "listSecrets (besidePlatform pf) ns l = beside (listSecrets pf ns l)"
  "listNodes (besidePlatform pf) lb = beside (listNodes pf lb)"
  "createEvent (besidePlatform pf) ns e = beside (createEvent pf ns e)"
  "patchEvent (besidePlatform pf) ns name p = beside (patchEvent pf ns name p)"
  "timeNow (besidePlatform pf) = beside (timeNow pf)"
  by (simp_all add: besidePlatform_def)

lemma beside_host_sel [simp]:
  "readFile (besideHost h) path = beside (readFile h path)" "getenv (besideHost h) = getenv h"
  "pemDecode (besideHost h) = pemDecode h" "pemEncode (besideHost h) = pemEncode h"
  "parseCertificate (besideHost h) = parseCertificate h" "x509KeyPair (besideHost h) = x509KeyPair h"
  "parseCertificateRequest (besideHost h) = parseCertificateRequest h" "checkSignature (besideHost h) = checkSignature h"
  "createCertificate (besideHost h) tmpl parent pub priv = beside (createCertificate h tmpl parent pub priv)"
  "randInt (besideHost h) n = beside (randInt h n)" "generateKey (besideHost h) c = beside (generateKey h c)"
  by (simp_all add: besideHost_def)

lemma beside_CheckCSR [simp]: "CheckCSR (besideHost h) csr = CheckCSR h csr"
  by (cases "parseCertificateRequest h csr") (simp_all add: CheckCSR_def parseCSR_def)

lemma wire_validate [simp]: "validateNodeName (wire key d) n = validateNodeName d n"
  by (simp add: validateNodeName_def Let_def)

lemma wire_nodeChecks [simp]: "nodeChecks (wire key d) s kind r = nodeChecks d s kind r"
  by (simp add: nodeChecks_def Let_def)

lemma beside_x509: "x509_lib h \<Longrightarrow> x509_lib (besideHost h)"
  by (auto simp: x509_lib_def beside_eq)

section \<open>What leaves a view alone\<close>

locale framed =
  fixes pf :: "'w platform" and h :: "'w host" and view :: "'w \<Rightarrow> 'v"
  assumes view_time [simp]: "view (snd (timeNow pf w)) = view w"
    and view_patchSecret [simp]: "view (snd (patchSecret pf ns name as w)) = view w"
    and view_listSecrets [simp]: "view (snd (listSecrets pf ns lb w)) = view w"
    and view_listNodes [simp]: "view (snd (listNodes pf nlb w)) = view w"
    and view_createEvent [simp]: "view (snd (createEvent pf ns ev w)) = view w"
    and view_patchEvent [simp]: "view (snd (patchEvent pf ns name ep w)) = view w"
    and view_readFile [simp]: "view (snd (readFile h path w)) = view w"
    and view_create [simp]: "view (snd (createCertificate h tmpl parent pub priv w)) = view w"
    and view_rand [simp]: "view (snd (randInt h n w)) = view w"
    and view_generate [simp]: "view (snd (generateKey h c w)) = view w"
begin

lemma view_setSeries [simp]: "view (snd (setSeries pf node kind na t w)) = view w"
  by (simp add: setSeries_def case_prod_unfold)

lemma view_RecordIssued [simp]: "view (snd (RecordIssued pf node kind na t w)) = view w"
  by (simp add: RecordIssued_def case_prod_unfold Let_def)

lemma view_warn [simp]: "view (warn x pf node kind na left w) = view w"
  by (simp add: warn_def case_prod_unfold Let_def split: sum.splits api_error.splits)

lemma view_scanEntry: "view (snd (snd (snd (scanEntry x pf st e)))) = view (snd (snd (snd st)))"
  by (simp add: scanEntry_def case_prod_unfold Let_def)

lemma view_scanFold: "view (snd (snd (snd (foldl (scanEntry x pf) st es)))) = view (snd (snd (snd st)))"
  by (induction es arbitrary: st) (simp_all add: view_scanEntry)

lemma view_scan [simp]: "view (snd (scan x pf t w)) = view w"
  by (simp add: scan_def case_prod_unfold view_scanFold split: sum.splits)

lemma view_applyList [simp]: "view (snd (applyList pf port s w)) = view w"
  by (simp add: applyList_def List_def case_prod_unfold Let_def split: sum.splits)

lemma view_Sign [simp]: "view (snd (Sign pf h ca csr req w)) = view w"
  by (simp add: Sign_def case_prod_unfold Let_def split: sum.splits)

lemma view_IssueSelf [simp]: "view (snd (IssueSelf pf h ca req ttl w)) = view w"
  by (simp add: IssueSelf_def case_prod_unfold Let_def split: sum.splits)

lemma view_issue [simp]: "view (snd (snd (issue pf h m w))) = view w"
  by (simp add: issue_def case_prod_unfold split: sum.splits)

lemma view_rotateTick [simp]: "view (snd (rotateTick pf h m w)) = view w"
  by (simp add: rotateTick_def case_prod_unfold)

lemma view_LoadCA [simp]: "view (snd (LoadCA pf h cp kp ttl w)) = view w"
  by (simp add: LoadCA_def case_prod_unfold split: sum.splits)

lemma view_NewManager [simp]: "view (snd (NewManager pf h ca ips dns ttl w)) = view w"
  by (simp add: NewManager_def case_prod_unfold Let_def split: option.splits)

lemma view_resolveToken [simp]: "view (snd (resolveToken h opts w)) = view w"
  by (simp add: resolveToken_def case_prod_unfold Let_def split: sum.splits)

lemma view_servingCAStep [simp]: "view (snd (servingCAStep pf h opts s w)) = view w"
  by (simp add: servingCAStep_def case_prod_unfold split: sum.splits)

end

locale framed_launch = framed pf h view
  for pf :: "'w platform" and h :: "'w host" and view :: "'w \<Rightarrow> 'v" +
  fixes l :: "'w launcher"
  assumes view_inCluster [simp]: "view (snd (l_inClusterConfig l w)) = view w"
    and view_fromFlags [simp]: "view (snd (l_buildConfigFromFlags l path w)) = view w"
    and view_newForConfig [simp]: "view (snd (l_newForConfig l limits w)) = view w"
    and view_loadKeyPair [simp]: "view (snd (l_loadKeyPair l cp kp w)) = view w"
begin

lemma view_servingPairStep [simp]: "view (snd (servingPairStep l pf h opts ca w)) = view w"
  by (simp add: servingPairStep_def case_prod_unfold split: sum.splits)

lemma view_kubeClientConfig [simp]: "view (snd (kubeClientConfig l path w)) = view w"
  by (simp add: kubeClientConfig_def)

lemma view_start: "d_pf d = pf \<Longrightarrow> d_host d = h \<Longrightarrow> view (snd (start l d opts w)) = view w"
  by (simp add: start_def case_prod_unfold Let_def split: sum.splits option.splits)

lemma view_main: "d_pf d = pf \<Longrightarrow> d_host d = h \<Longrightarrow> view (snd (main l d args w)) = view w"
  by (simp add: main_def view_start split: sum.splits flag_error.splits)

end

text \<open>The same beside the tracker.\<close>

lemma beside_framed: "framed pf h view \<Longrightarrow> framed (besidePlatform pf) (besideHost h) (view \<circ> snd)"
  by (simp add: framed_def)

section \<open>What a request does to the world\<close>

text \<open>
  A certificate request is the only one that calls the password store, once at most, and apart
  from that call it leaves the view alone; all other requests leave it alone.
\<close>

definition uses :: "'w platform \<Rightarrow> 'w host \<Rightarrow> ('w \<Rightarrow> 'v) \<Rightarrow> 'w deps \<Rightarrow> bool" where
  "uses pf h view d \<longleftrightarrow> d_pf d = pf \<and> d_host d = h \<and>
     (\<forall>rec node kind na w. d_rec d = Some rec \<longrightarrow> view (rec node kind na w) = view w)"

definition store_called :: "('w \<Rightarrow> 'v) \<Rightarrow> 'w deps \<Rightarrow> http_request \<Rightarrow> (store_error, bool) result \<Rightarrow> 'w \<Rightarrow> 'w \<Rightarrow> bool" where
  "store_called view d r res w w' \<longleftrightarrow>
     (\<exists>cas w0 w1. d_pw d = Some cas \<and> view w0 = view w \<and>
        cas (header_Get r hdrNodeName) (header_Get r hdrNodePassword) w0 = (res, w1) \<and> view w' = view w1)"

context framed
begin

lemma uses_time: "uses pf h view d \<Longrightarrow> view (snd (timeNow (d_pf d) w)) = view w"
  by (simp add: uses_def)

lemma nodePassword_view:
  assumes "nodePassword d r w = (rep, w')"
  shows "view w' = view w \<or> (\<exists>res. store_called view d r res w w')"
proof (cases "d_pw d")
  case (Some cas)
  obtain res w1 where c: "cas (header_Get r hdrNodeName) (header_Get r hdrNodePassword) w = (res, w1)"
    by (cases "cas (header_Get r hdrNodeName) (header_Get r hdrNodePassword) w")
  then have "w' = w1"
    using assms Some by (auto simp: nodePassword_def split: sum.splits store_error.splits bool.splits)
  then show ?thesis using c Some by (auto simp: store_called_def)
qed (use assms in \<open>auto simp: nodePassword_def\<close>)

lemma certRequest_view:
  assumes "certRequest d s r w = (q, w')"
  shows "view w' = view w \<or> (\<exists>res. store_called view d r res w w')"
  using assms nodePassword_view [of d r w]
  by (auto simp: certRequest_def Let_def split: if_splits sum.splits prod.splits option.splits)

lemma signCert_view:
  assumes "uses pf h view d"
  shows "view (snd (signCert d s r csr req w)) = view w"
  using assms by (simp add: uses_def signCert_def recordIssued_def case_prod_unfold split: sum.splits option.splits pki_error.splits)

lemma store_called_cong: "view v = view w \<Longrightarrow> view v' = view w' \<Longrightarrow> store_called view d r res v v' = store_called view d r res w w'"
  by (simp add: store_called_def)

lemma handleCert_view:
  assumes "uses pf h view d"
    and "handleCert d s r w = (rep, s', w')"
  shows "view w' = view w \<or> (\<exists>res. store_called view d r res w w')"
proof -
  let ?w0 = "snd (timeNow (d_pf d) w)"
  obtain q w1 where q: "certRequest d s r ?w0 = (q, w1)" by (cases "certRequest d s r ?w0")
  have "view w' = view w \<or> view w' = view w1"
    using uses_time [OF assms(1)] assms(2) q signCert_view [OF assms(1)]
    by (auto simp: handleCert_def case_prod_unfold split: if_splits sum.splits option.splits)
  moreover have "view w1 = view w \<or> (\<exists>res. store_called view d r res w w1)"
    using certRequest_view [OF q] store_called_cong [of ?w0 w w1 w1] uses_time [OF assms(1), of w] by auto
  ultimately show ?thesis using store_called_cong [of w w w' w1] by auto
qed

end

text \<open>The endpoints that issue certificates, by what they issue.\<close>

definition certKinds :: "string list" where
  "certKinds = [''serving-kubelet'', ''client-kubelet'', ''client-kube-proxy'', ''client-rke2-controller'']"

lemma other_routes:
  "list_all (\<lambda>p. trimSuffix (pathBase p) ''.crt'' \<notin> set certKinds)
     [''/cacerts'', ''/v1-rke2/config'', ''/v1-rke2/readyz'', ''/v1-rke2/apiservers'', ''/v1-rke2/client-ca.crt'', ''/v1-rke2/server-ca.crt'']"
  by code_simp

lemma auth_OK:
  assumes "auth next d s r w = (Reply resp, s', w')" "resp_code resp = 200"
  shows "authorized s r \<and> next d s r w = (Reply resp, s', w')"
  using assms by (auto simp: auth_def status_defs split: if_splits prod.splits)

text \<open>A certificate is handed out by the certificate handler, to an authorized client.\<close>

lemma serve_issued:
  assumes "serve tunnel d s r w = (Reply resp, s', w')" "resp_code resp = 200" "certKind r \<in> set certKinds"
  shows "authorized s r \<and> handleCert d s r w = (Reply resp, s', w')"
proof -
  have "handleUnknown d s r w \<noteq> (Reply resp, s', w')"
    using assms(2) by (auto simp: handleUnknown_def status_defs)
  then obtain hd where "map_of (Routes tunnel) (rq_Path r) = Some hd" "hd d s r w = (Reply resp, s', w')"
    using assms(1,2) auth_OK [of handleUnknown d s r w] by (auto simp: serve_def status_defs split: if_splits option.splits)
  then show ?thesis
    using assms(2,3) other_routes auth_OK [of handleCert d s r w]
    by (auto simp: Routes_def certKind_def split: if_splits)
qed

context framed
begin

lemma auth_view:
  assumes "d_pf d = pf" "auth next d s r w = (rep, s', w')"
  shows "view w' = view w \<or> next d s r w = (rep, s', w')"
  using view_time [of w, folded assms(1)] assms(2) by (auto simp: auth_def case_prod_unfold split: if_splits)

lemma simple_worlds:
  "handleCACerts d s r w = (rep, s', w') \<Longrightarrow> w' = w" "handleCA d s r w = (rep, s', w') \<Longrightarrow> w' = w"
  "handleReadyz d s r w = (rep, s', w') \<Longrightarrow> w' = w" "handleAPIServers d s r w = (rep, s', w') \<Longrightarrow> w' = w"
  "handleUnknown d s r w = (rep, s', w') \<Longrightarrow> w' = w" "handleConfig d s r w = (rep, s', w') \<Longrightarrow> w' = w"
  by (auto simp: handleCACerts_def handleCA_def handleReadyz_def handleAPIServers_def handleUnknown_def handleConfig_def Let_def
      split: if_splits prod.splits)

lemma serve_other:
  assumes "d_pf d = pf" "serve tunnel d s r w = (rep, s', w')"
  shows "view w' = view w \<or> handleCert d s r w = (rep, s', w')"
  using assms(2)
  by (auto simp: serve_def Routes_def split: if_splits option.splits dest!: auth_view [OF assms(1)] dest: simple_worlds)

lemma serve_view:
  assumes "uses pf h view d" "serve tunnel d s r w = (rep, s', w')"
  shows "view w' = view w \<or> (\<exists>res. store_called view d r res w w')"
  using serve_other [OF _ assms(2)] handleCert_view [OF assms(1), of s r w rep s' w'] assms(1) by (auto simp: uses_def)

end

section \<open>The world of a running shim\<close>

text \<open>
  What is recorded for a node is the hash in its Secret. The view the parts leave alone is these
  records and the Nodes.
\<close>

definition recorded :: "('w \<Rightarrow> string \<Rightarrow> string \<Rightarrow> secret option) \<Rightarrow> 'w \<Rightarrow> string \<Rightarrow> string option" where
  "recorded sv w node = map_option secretHash (sv w Namespace (SecretName node))"

definition world_view :: "('w \<Rightarrow> string \<Rightarrow> string \<Rightarrow> secret option) \<Rightarrow> ('w \<Rightarrow> string \<Rightarrow> node option) \<Rightarrow> 'w
    \<Rightarrow> (string \<Rightarrow> string option) \<times> (string \<Rightarrow> node option)" where
  "world_view sv nv w = (recorded sv w, nv w)"

lemma on_record_recorded: "on_record sv key w node pw \<longleftrightarrow> (\<exists>hash. recorded sv w node = Some hash \<and> verifyHash key SlotFree hash pw = None)"
  by (auto simp: on_record_def recorded_def)

lemma has_secret_recorded: "has_secret sv w node \<longleftrightarrow> recorded sv w node \<noteq> None"
  by (simp add: has_secret_def recorded_def)

text \<open>
  The API as all parts use it: a merge patch of annotations changes no data, listing and Events
  change no Secret and no Node, and neither do files, keys, certificates and the building of the client.
\<close>

locale shim_world = secret_store pf sv nv key
  for pf :: "'w platform" and sv nv key +
  fixes h :: "'w host" and l :: "'w launcher"
  assumes patch_data: "patchSecret pf ns name as w = (pres, w') \<Longrightarrow>
      nv w' = nv w \<and> (\<forall>m k. map_option sec_data (sv w' m k) = map_option sec_data (sv w m k))"
    and list_secrets: "listSecrets pf ns lb w = (lres, w') \<Longrightarrow> sv w' = sv w \<and> nv w' = nv w"
    and list_nodes: "listNodes pf nlb w = (nlres, w') \<Longrightarrow> sv w' = sv w \<and> nv w' = nv w"
    and create_event: "createEvent pf ns ev w = (eres, w') \<Longrightarrow> sv w' = sv w \<and> nv w' = nv w"
    and patch_event: "patchEvent pf ns name ep w = (peres, w') \<Longrightarrow> sv w' = sv w \<and> nv w' = nv w"
    and read_file: "readFile h path w = (fres, w') \<Longrightarrow> sv w' = sv w \<and> nv w' = nv w"
    and create_certificate: "createCertificate h tmpl parent pub priv w = (cres, w') \<Longrightarrow> sv w' = sv w \<and> nv w' = nv w"
    and rand_int: "randInt h n w = (rres, w') \<Longrightarrow> sv w' = sv w \<and> nv w' = nv w"
    and generate_key: "generateKey h c w = (gres, w') \<Longrightarrow> sv w' = sv w \<and> nv w' = nv w"
    and in_cluster: "l_inClusterConfig l w = (ires, w') \<Longrightarrow> sv w' = sv w \<and> nv w' = nv w"
    and from_flags: "l_buildConfigFromFlags l path w = (bres, w') \<Longrightarrow> sv w' = sv w \<and> nv w' = nv w"
    and new_for_config: "l_newForConfig l limits w = (ures, w') \<Longrightarrow> sv w' = sv w \<and> nv w' = nv w"
    and load_key_pair: "l_loadKeyPair l cp kp w = (kres, w') \<Longrightarrow> sv w' = sv w \<and> nv w' = nv w"
begin

lemma view_same: "sv w' = sv w \<and> nv w' = nv w \<Longrightarrow> world_view sv nv w' = world_view sv nv w"
  by (simp add: world_view_def recorded_def fun_eq_iff)

lemma view_data:
  assumes "nv w' = nv w" "\<forall>m k. map_option sec_data (sv w' m k) = map_option sec_data (sv w m k)"
  shows "world_view sv nv w' = world_view sv nv w"
proof -
  have "map_option secretHash (sv w' m k) = map_option secretHash (sv w m k)" for m k
    using assms(2) [rule_format, of m k] by (cases "sv w' m k"; cases "sv w m k") (auto simp: secretHash_def)
  then show ?thesis using assms(1) by (simp add: world_view_def recorded_def fun_eq_iff)
qed

end

sublocale shim_world \<subseteq> fl: framed_launch pf h "world_view sv nv" l
proof (unfold_locales, goal_cases)
  case (1 w)
  show ?case by (rule view_same [OF time_now]) (rule prod.collapse [symmetric])
next
  case (2 ns name as w)
  have "patchSecret pf ns name as w = (fst (patchSecret pf ns name as w), snd (patchSecret pf ns name as w))" by simp
  from patch_data [OF this] show ?case by (intro view_data) auto
qed (rule view_same,
     rule list_secrets list_nodes create_event patch_event read_file create_certificate rand_int generate_key
       in_cluster from_flags new_for_config load_key_pair, rule prod.collapse [symmetric])+

section \<open>Requests to the wired supervisor\<close>

lemma beside_tracker: "framed (besidePlatform pf) (besideHost h) fst"
  by (simp add: framed_def)

lemma RecordIssued_counts: "CertsIssued (fst (RecordIssued pf node kind na t w)) = CertsIssued (incIssued kind t)"
  by (simp add: RecordIssued_def setSeries_def case_prod_unfold Let_def incIssued_def)

text \<open>The tracker changes when a certificate is handed out, and only then.\<close>

lemma wired_signCert:
  assumes "signCert (wire key d) s r csr req tw = (rep, tw')"
  shows "fst tw' = fst tw \<and> (\<forall>resp. rep = Reply resp \<longrightarrow> resp_code resp \<noteq> 200) \<or>
    (\<exists>resp na w. rep = Reply resp \<and> resp_code resp = 200 \<and>
       tw' = RecordIssued (d_pf d) (header_Get r hdrNodeName) (certKind r) na (fst tw) w)"
proof -
  let ?S = "Sign (besidePlatform (d_pf d)) (besideHost (d_host d)) (certSigner s (certKind r)) csr req tw"
  have f: "fst (snd ?S) = fst tw" using framed.view_Sign [OF beside_tracker] by blast
  show ?thesis
  proof (cases "fst ?S")
    case (Inl e)
    then show ?thesis using assms f by (cases e) (auto simp: signCert_def status_defs case_prod_unfold)
  next
    case (Inr x)
    then have "tw' = RecordIssued (d_pf d) (header_Get r hdrNodeName) (certKind r) (snd x) (fst tw) (snd (snd ?S))"
      "\<exists>resp. rep = Reply resp \<and> resp_code resp = 200"
      using assms f by (auto simp: signCert_def recordIssued_def case_prod_unfold)
    then show ?thesis by blast
  qed
qed

lemma wired_certRequest: "certRequest (wire key d) s r tw = (q, tw') \<Longrightarrow> fst tw' = fst tw"
  using framed.certRequest_view [OF beside_tracker, of "wire key d" s r tw q tw']
  by (auto simp: store_called_def beside_eq)

lemma wired_handleCert:
  assumes "handleCert (wire key d) s r tw = (rep, s', tw')"
  shows "fst tw' = fst tw \<and> (\<forall>resp. rep = Reply resp \<longrightarrow> resp_code resp \<noteq> 200) \<or>
    (\<exists>resp na w. rep = Reply resp \<and> resp_code resp = 200 \<and>
       tw' = RecordIssued (d_pf d) (header_Get r hdrNodeName) (certKind r) na (fst tw) w)"
proof -
  let ?w0 = "snd (beside (timeNow (d_pf d)) tw)"
  obtain q w1 where q: "certRequest (wire key d) s r ?w0 = (q, w1)" by (cases "certRequest (wire key d) s r ?w0")
  have f: "fst w1 = fst tw" using wired_certRequest [OF q] by simp
  consider "fst tw' = fst tw" "\<forall>resp. rep = Reply resp \<longrightarrow> resp_code resp \<noteq> 200"
    | csr req where "signCert (wire key d) s r csr req w1 = (rep, tw')"
  proof (cases q)
    case (Inl x)
    then show ?thesis
      using assms q f certRequest_Inl [of "wire key d" s r ?w0] that
      by (auto simp: handleCert_def status_defs case_prod_unfold split: if_splits sum.splits option.splits)
  next
    case (Inr req)
    then show ?thesis
      using assms q f that
      by (auto simp: handleCert_def status_defs case_prod_unfold split: if_splits sum.splits option.splits)
  qed
  then show ?thesis
  proof cases
    case 2
    from wired_signCert [OF this] show ?thesis unfolding f .
  qed blast
qed

text \<open>Whether a request was answered with a certificate.\<close>

definition issuance :: "http_request \<Rightarrow> reply \<Rightarrow> bool" where
  "issuance r rep \<longleftrightarrow> (case rep of Reply resp \<Rightarrow> resp_code resp = 200 | _ \<Rightarrow> False) \<and> certKind r \<in> set certKinds"

lemma issuance_iff: "issuance r rep \<longleftrightarrow> (\<exists>resp. rep = Reply resp \<and> resp_code resp = 200) \<and> certKind r \<in> set certKinds"
  by (cases rep) (simp_all add: issuance_def)

lemma handleCert_kind:
  assumes "handleCert d s r w = (Reply resp, s', w')" "resp_code resp = 200"
  shows "certKind r \<in> set certKinds"
proof -
  obtain csr req out na w0 w1 w2 where "certRequest d s r w0 = (Inr req, w1)" by (rule handleCert_issued [OF assms])
  then show ?thesis using certRequest_Inr [of d s r w0 req w1] by (auto simp: identity_def certKinds_def Let_def)
qed

lemma wired_serve:
  assumes "serve tunnel (wire key d) s r tw = (rep, s', tw')"
  shows "if issuance r rep
    then authorized s r \<and> handleCert (wire key d) s r tw = (rep, s', tw') \<and>
      (\<exists>na w. tw' = RecordIssued (d_pf d) (header_Get r hdrNodeName) (certKind r) na (fst tw) w)
    else fst tw' = fst tw"
proof (cases "issuance r rep")
  case True
  then obtain resp where resp: "rep = Reply resp" "resp_code resp = 200" "certKind r \<in> set certKinds" by (auto simp: issuance_iff)
  then have "authorized s r \<and> handleCert (wire key d) s r tw = (rep, s', tw')" using serve_issued [OF assms [unfolded resp(1)]] by simp
  then show ?thesis using True resp wired_handleCert by fastforce
next
  case False
  have "fst tw' = fst tw \<or> handleCert (wire key d) s r tw = (rep, s', tw')"
    by (rule framed.serve_other [OF beside_tracker _ assms]) simp
  then show ?thesis
    using False wired_handleCert [of key d s r tw rep s' tw'] handleCert_kind [of "wire key d" s r tw _ s' tw']
    by (auto simp: issuance_iff)
qed

context shim_world
begin

lemma recorded_store:
  assumes "storeCheckAndSet pf key node pw w = (res, w')" "recorded sv w n = Some hash"
  shows "recorded sv w' n = Some hash"
  using store_frame [OF assms(1)] assms(2) by (auto simp: recorded_def SecretName_inj)

lemma view_recorded: "world_view sv nv w' = world_view sv nv w \<Longrightarrow> recorded sv w' = recorded sv w"
  by (simp add: world_view_def)

lemma wired_uses:
  "d_pf d = pf \<Longrightarrow> d_host d = h \<Longrightarrow> uses (besidePlatform pf) (besideHost h) (world_view sv nv \<circ> snd) (wire key d)"
  by (auto simp: uses_def)

lemmas beside_fl = beside_framed [OF fl.framed_axioms]

text \<open>A request never changes what is recorded for a node; one answered with a node certificate had the recorded password.\<close>

lemma serve_keeps:
  assumes "d_pf d = pf" "d_host d = h" "serve tunnel (wire key d) s r (t, w) = (rep, s', t', w')" "recorded sv w n = Some hash"
  shows "recorded sv w' n = Some hash"
proof -
  consider "world_view sv nv w' = world_view sv nv w" | w0 where "world_view sv nv w0 = world_view sv nv w"
    "world_view sv nv w' = world_view sv nv (snd (storeCheckAndSet pf key (header_Get r hdrNodeName) (header_Get r hdrNodePassword) w0))"
    using framed.serve_view [OF beside_fl wired_uses [OF assms(1,2)] assms(3)]
    unfolding store_called_def wire_sel assms(1) by auto
  then show ?thesis
  proof cases
    case (2 w0)
    then have "recorded sv w0 n = Some hash" using view_recorded assms(4) by metis
    from recorded_store [OF prod.collapse [symmetric] this] show ?thesis using view_recorded [OF 2(2)] by metis
  qed (use view_recorded assms(4) in metis)
qed

lemma serve_on_record:
  assumes "d_pf d = pf" "d_host d = h" "serve tunnel (wire key d) s r (t, w) = (rep, s', t', w')"
    and "issuance r rep" "node_scoped r"
  shows "on_record sv key w' (header_Get r hdrNodeName) (header_Get r hdrNodePassword)"
proof -
  obtain resp where resp: "rep = Reply resp" "resp_code resp = 200" using assms(4) by (auto simp: issuance_iff)
  have "handleCert (wire key d) s r (t, w) = (Reply resp, s', t', w')"
    using wired_serve [OF assms(3)] assms(4) resp by simp
  then obtain csr req out na v0 v1 v2 where q: "certRequest (wire key d) s r v0 = (Inr req, v1)"
    and sg: "Sign (d_pf (wire key d)) (d_host (wire key d)) (certSigner s (certKind r)) csr req v1 = (Inr (out, na), v2)"
    and rc: "(t', w') = recordIssued (wire key d) (header_Get r hdrNodeName) (certKind r) na v2"
    using resp(2) by (rule handleCert_issued)
  have "storeCheckAndSet pf key (header_Get r hdrNodeName) (header_Get r hdrNodePassword) (snd v0) = (Inr True, snd v1)"
    using certRequest_Inr [OF q] assms(1,5) by (auto simp: beside_eq)
  then have "on_record sv key (snd v1) (header_Get r hdrNodeName) (header_Get r hdrNodePassword)" by (rule sto.cas_true)
  moreover have "world_view sv nv (snd v2) = world_view sv nv (snd v1)"
    using framed.view_Sign [OF beside_fl, of "certSigner s (certKind r)" csr req v1] sg assms(1,2) by simp
  moreover have "world_view sv nv w' = world_view sv nv (snd v2)"
    using arg_cong [OF rc, of snd] assms(1) fl.view_RecordIssued
    by (simp only: recordIssued_def wire_sel option.case case_prod_unfold snd_conv)
  ultimately show ?thesis using view_recorded unfolding on_record_recorded by metis
qed

end

section \<open>The in-memory world\<close>

lemma map_of_map_values: "map_of (map (\<lambda>(k, x). if k = a then (k, f x) else (k, x)) xs) b = map_option (\<lambda>x. if b = a then f x else x) (map_of xs b)"
  by (induction xs) auto

lemma mem_patch_data:
  "mem_nodes (snd (patchSecret mem_platform ns name as w)) = mem_nodes w"
  "map_option sec_data (mem_secrets (snd (patchSecret mem_platform ns name as w)) m k) = map_option sec_data (mem_secrets w m k)"
proof -
  have f: "sec_data (annotate as s) = sec_data s" for s by (simp add: annotate_def)
  show "mem_nodes (snd (patchSecret mem_platform ns name as w)) = mem_nodes w"
    by (simp add: mem_platform_def mem_nodes_def fun_eq_iff split: option.splits)
  show "map_option sec_data (mem_secrets (snd (patchSecret mem_platform ns name as w)) m k) = map_option sec_data (mem_secrets w m k)"
    using f by (cases "map_of (m_secrets w) (m, k)"; cases "map_of (m_secrets w) (ns, name)")
      (simp_all add: mem_platform_def mem_secrets_def map_of_map_values)
qed

interpretation mem_world: shim_world mem_platform mem_secrets mem_nodes pad_key file_host mem_launcher
proof (unfold_locales, goal_cases)
  case (1 ns name as w pres w')
  then show ?case using mem_patch_data [of ns name as w] by simp
qed (auto simp: mem_platform_def file_host_def mem_host_def mem_launcher_def mem_secrets_def mem_nodes_def fun_eq_iff
    split: option.splits if_splits prod.splits)

end
