(* ===== verification/Shim_System.thy ===== *)
theory Shim_System
  imports Wiring Bootstrap
begin

text \<open>
  The whole program as a step relation: it starts, answers requests, runs its three background
  loops (discovery, the expiry scan, the rotation of its serving certificate), exits and starts
  again, while other replicas, agents and operators change the cluster. Each handler and each tick
  is one step; the interleaving inside CheckAndSet is the subject of theory Store. The trace of a
  run is the list of its steps, the latest first.
\<close>

section \<open>Steps\<close>

datatype label =
    Started "string list"
  | Exited nat
  | Answered http_request reply
  | Discovered
  | Scanned_expiries
  | Ticked
  | Others

type_synonym 'w shim = "running option \<times> 'w"

text \<open>
  Other writers do as they like with the cluster, except that the hash in a recorded Secret stays:
  deleting or replacing it is how an operator releases a node's name.
\<close>

definition others_keep :: "('w \<Rightarrow> string \<Rightarrow> string \<Rightarrow> secret option) \<Rightarrow> 'w \<Rightarrow> 'w \<Rightarrow> bool" where
  "others_keep sv w w' \<longleftrightarrow> (\<forall>node hash. recorded sv w node = Some hash \<longrightarrow> recorded sv w' node = Some hash)"

definition deps_texts :: "'w deps \<Rightarrow> texts" where
  "deps_texts d = \<lparr>tx_isDNS1123 = d_isDNS1123 d\<rparr>"

inductive shim_step :: "'w launcher \<Rightarrow> 'w deps \<Rightarrow> scrypt_fun \<Rightarrow> ('w \<Rightarrow> string \<Rightarrow> string \<Rightarrow> secret option)
    \<Rightarrow> 'w shim \<Rightarrow> label \<Rightarrow> 'w shim \<Rightarrow> bool" for l d key sv where
  starts: "main l d args w = (Serving ru, w') \<Longrightarrow> shim_step l d key sv (None, w) (Started args) (Some ru, w')"
| start_fails: "main l d args w = (Exit c, w') \<Longrightarrow> shim_step l d key sv (None, w) (Exited c) (None, w')"
| exits: "shim_step l d key sv (Some ru, w) (Exited c) (None, w)"
| answers: "serve (ru_tunnel ru) (wire key d) (ru_server ru) r (ru_tracker ru, w) = (rep, s', t', w') \<Longrightarrow>
    shim_step l d key sv (Some ru, w) (Answered r rep) (Some (ru\<lparr>ru_server := s', ru_tracker := t'\<rparr>), w')"
| discovers: "ru_discover ru = Some port \<Longrightarrow> applyList (d_pf d) port (ru_server ru) w = (s', w') \<Longrightarrow>
    shim_step l d key sv (Some ru, w) Discovered (Some (ru\<lparr>ru_server := s'\<rparr>), w')"
| scans: "scan (deps_texts d) (d_pf d) (ru_tracker ru) w = (t', w') \<Longrightarrow>
    shim_step l d key sv (Some ru, w) Scanned_expiries (Some (ru\<lparr>ru_tracker := t'\<rparr>), w')"
| rotates: "ru_manager ru = Some m \<Longrightarrow> rotateTick (d_pf d) (d_host d) m w = (m', w') \<Longrightarrow>
    shim_step l d key sv (Some ru, w) Ticked (Some (ru\<lparr>ru_manager := Some m'\<rparr>), w')"
| others: "others_keep sv w w' \<Longrightarrow> shim_step l d key sv (p, w) Others (p, w')"

inductive_cases shim_answerE: "shim_step l d key sv (Some ru, w) (Answered r rep) st'"

inductive shim_run :: "'w launcher \<Rightarrow> 'w deps \<Rightarrow> scrypt_fun \<Rightarrow> ('w \<Rightarrow> string \<Rightarrow> string \<Rightarrow> secret option)
    \<Rightarrow> 'w \<Rightarrow> label list \<Rightarrow> 'w shim \<Rightarrow> bool" for l d key sv w0 where
  run_init: "shim_run l d key sv w0 [] (None, w0)"
| run_step: "shim_run l d key sv w0 labs st \<Longrightarrow> shim_step l d key sv st ev st' \<Longrightarrow> shim_run l d key sv w0 (ev # labs) st'"

section \<open>Records\<close>

text \<open>The node certificates a trace has handed out, with the name and the password of the request.\<close>

definition enrolled :: "label list \<Rightarrow> string \<Rightarrow> string \<Rightarrow> bool" where
  "enrolled labs node pw \<longleftrightarrow>
     (\<exists>r rep. Answered r rep \<in> set labs \<and> issuance r rep \<and> node_scoped r \<and>
        header_Get r hdrNodeName = node \<and> header_Get r hdrNodePassword = pw)"

context shim_world
begin

lemma step_keeps:
  assumes "shim_step l d key sv st ev st'" "d_pf d = pf" "d_host d = h" "recorded sv (snd st) n = Some hash"
  shows "recorded sv (snd st') n = Some hash"
  using assms
proof cases
  case (answers ru r w rep s' t' w')
  then show ?thesis using serve_keeps [OF assms(2,3)] assms(4) by simp
next
  case (starts args w ru w')
  then show ?thesis using fl.view_main [OF assms(2,3), of args w] view_recorded [of w' w] assms(4) by simp
next
  case (start_fails args w c w')
  then show ?thesis using fl.view_main [OF assms(2,3), of args w] view_recorded [of w' w] assms(4) by simp
next
  case (discovers ru port w s' w')
  then show ?thesis using fl.view_applyList [of port "ru_server ru" w] view_recorded [of w' w] assms(2,4) by simp
next
  case (scans ru w t' w')
  then show ?thesis using fl.view_scan [of "deps_texts d" "ru_tracker ru" w] view_recorded [of w' w] assms(2,4) by simp
next
  case (rotates ru m w m' w')
  then show ?thesis using fl.view_rotateTick [of m w] view_recorded [of w' w] assms(2-4) by simp
qed (auto simp: others_keep_def)

lemma run_keeps:
  assumes "shim_run l d key sv w0 labs st" "d_pf d = pf" "d_host d = h" "recorded sv w0 n = Some hash"
  shows "recorded sv (snd st) n = Some hash"
  using assms by induction (auto dest: step_keeps)

text \<open>Whoever got a node certificate presented a password that verifies against what is recorded now.\<close>

lemma run_enrolled:
  assumes "shim_run l d key sv w0 labs st" "d_pf d = pf" "d_host d = h" "enrolled labs n pw"
  shows "on_record sv key (snd st) n pw"
  using assms
proof (induction arbitrary: n pw)
  case run_init
  then show ?case by (simp add: enrolled_def)
next
  case (run_step labs st ev st')
  show ?case
  proof (cases "enrolled labs n pw")
    case True
    then have "on_record sv key (snd st) n pw" using run_step by blast
    then show ?thesis using step_keeps [OF run_step.hyps(2)] run_step.prems by (auto simp: on_record_recorded)
  next
    case False
    then obtain r rep where r: "ev = Answered r rep" "issuance r rep" "node_scoped r"
      "header_Get r hdrNodeName = n" "header_Get r hdrNodePassword = pw"
      using run_step.prems(3) by (auto simp: enrolled_def)
    from run_step.hyps(2) show ?thesis
      using r serve_on_record [OF run_step.prems(1,2)] by cases auto
  qed
qed

end

section \<open>Requests that will be granted\<close>

text \<open>
  What a granted request for a kubelet's client certificate has to itself, whatever the state of
  the server: its path and method, a proper CSR and headers that pass the checks.
\<close>

definition grantable :: "'w deps \<Rightarrow> http_request \<Rightarrow> bool" where
  "grantable d r \<longleftrightarrow>
     rq_Path r = ''/v1-rke2/client-kubelet.crt'' \<and> rq_Method r = ''POST'' \<and>
     (\<exists>csr. readCSR r = Inr csr \<and> CheckCSR (d_host d) csr = None) \<and>
     (\<forall>s. nodeChecks d s ''client-kubelet'' r = Inr [])"

lemma serve_kubelet_path:
  assumes "serve tunnel d s r w = (Reply resp, s', w')" "resp_code resp = 200" "certKind r = ''client-kubelet''"
  shows "rq_Path r = ''/v1-rke2/client-kubelet.crt''"
proof -
  have "handleUnknown d s r w \<noteq> (Reply resp, s', w')"
    using assms(2) by (auto simp: handleUnknown_def status_defs)
  then obtain hd where "map_of (Routes tunnel) (rq_Path r) = Some hd" "hd d s r w = (Reply resp, s', w')"
    using assms(1,2) auth_OK [of handleUnknown d s r w] by (auto simp: serve_def status_defs split: if_splits option.splits)
  then show ?thesis
    using assms(3) other_routes agent_kinds [of r] by (auto simp: Routes_def certKind_def certKinds_def split: if_splits)
qed

lemma issued_grantable:
  assumes "serve tunnel (wire key d) s r tw = (rep, s', tw')" "issuance r rep" "certKind r = ''client-kubelet''"
  shows "grantable d r"
proof -
  obtain resp where resp: "rep = Reply resp" "resp_code resp = 200" using assms(2) by (auto simp: issuance_iff)
  have "handleCert (wire key d) s r tw = (Reply resp, s', tw')"
    using wired_serve [OF assms(1)] assms(2) resp(1) by simp
  then obtain csr req out na w0 w1 w2 where m: "rq_Method r = ''POST''" "readCSR r = Inr csr"
    and q: "certRequest (wire key d) s r w0 = (Inr req, w1)"
    and sg: "Sign (d_pf (wire key d)) (d_host (wire key d)) (certSigner s (certKind r)) csr req w1 = (Inr (out, na), w2)"
    using resp(2) by (rule handleCert_issued)
  have "CheckCSR (besideHost (d_host d)) csr = None" using Sign_bad [of "besideHost (d_host d)" csr _ "besidePlatform (d_pf d)" "certSigner s (certKind r)" req w1] sg
    by (cases "CheckCSR (besideHost (d_host d)) csr") auto
  then have c: "CheckCSR (d_host d) csr = None" by simp
  have "header_Get r hdrNodeName \<noteq> []" "validateNodeName (wire key d) (header_Get r hdrNodeName) = None"
    "ValidatePassword (header_Get r hdrNodePassword) = None"
    using certRequest_Inr [OF q] assms(3) by (auto simp: identity_def node_scoped_def Let_def)
  moreover have "ValidatePassword [] \<noteq> None" by (simp add: ValidatePassword_def minPassword_def)
  ultimately have "nodeChecks d s' ''client-kubelet'' r = Inr []" for s'
    by (auto simp: nodeChecks_def nodeSANs_def Let_def)
  then show ?thesis
    using m c serve_kubelet_path [OF assms(1) [unfolded resp(1)] resp(2) assms(3)] by (simp add: grantable_def)
qed

lemma run_grantable:
  assumes "shim_run l d key sv w0 labs st" "Answered r rep \<in> set labs" "issuance r rep" "certKind r = ''client-kubelet''"
  shows "grantable d r"
  using assms
proof induction
  case (run_step labs st ev st')
  show ?case
  proof (cases "ev = Answered r rep")
    case True
    from run_step.hyps(2) show ?thesis using True run_step.prems issued_grantable by cases auto
  qed (use run_step in auto)
qed simp

section \<open>Progress\<close>

text \<open>A world in which the API, the random source and the signing of certificates do not fail.\<close>

locale live_world = shim_world pf sv nv key h l + live_api pf sv nv key
  for pf :: "'w platform" and sv nv key h l +
  assumes rand_answers: "\<exists>n. fst (randInt h (2 ^ 128) w) = Inr n"
    and sign_answers: "checkPublicKey pub = None \<Longrightarrow> encodable tmpl \<Longrightarrow> \<exists>der. fst (createCertificate h tmpl parent pub priv w) = Inr der"
begin

lemma view_same_store:
  "world_view sv nv (snd tw') = world_view sv nv (snd tw) \<Longrightarrow>
     same_store (on_record sv key \<circ> snd) (has_secret sv \<circ> snd) (node_known nv \<circ> snd) tw tw'"
  by (auto simp: same_store_def world_view_def on_record_recorded has_secret_recorded node_known_def fun_eq_iff)

lemma wired_live:
  assumes "d_pf d = pf" "d_host d = h"
  shows "live_issuer (\<lambda>node pw. beside (storeCheckAndSet pf key node pw)) (on_record sv key \<circ> snd) (has_secret sv \<circ> snd)
    (node_known nv \<circ> snd) (wire key d)"
proof (unfold_locales, goal_cases)
  case (1 node pw w w')
  then show ?case using sto.cas_true by (auto simp: beside_eq)
next
  case (2 node pw w w')
  then show ?case using sto.cas_false by (auto simp: beside_eq)
next
  case (3 node pw w res w' n)
  then show ?case using sto.cas_known by (auto simp: beside_eq)
next
  case (4 w node pw)
  then show ?case using sto.accepts_known by auto
next
  case (5 w node pw)
  then have "admits (on_record sv key) (has_secret sv) (node_known nv) (snd w) node pw" by (simp add: admits_def)
  from lst.cas_admits [OF this] show ?case by (cases w) (auto simp: beside_eq)
next
  case (6 node pw w res w' n)
  then show ?case using lst.cas_others by (auto simp: beside_eq)
next
  case (7 node pw w res w')
  then show ?case using lst.cas_nodes by (auto simp: beside_eq fun_eq_iff)
next
  case 8
  show ?case using assms by simp
next
  case (9 w t w')
  then show ?case using fl.view_time [of "snd w"] assms by (intro view_same_store) (auto simp: beside_eq)
next
  case (10 w)
  obtain n where "fst (randInt h (2 ^ 128) (snd w)) = Inr n" using rand_answers by blast
  then show ?case
    using assms fl.view_rand [of "2 ^ 128" "snd w"]
    by (intro exI [of _ n] exI [of _ "(fst w, snd (randInt h (2 ^ 128) (snd w)))"] conjI view_same_store) (auto simp: beside_eq prod_eq_iff)
next
  case (11 pub tmpl parent priv w)
  obtain der where "fst (createCertificate h tmpl parent pub priv (snd w)) = Inr der" using sign_answers [OF 11] by blast
  then show ?case
    using assms fl.view_create [of tmpl parent pub priv "snd w"]
    by (intro exI [of _ der] exI [of _ "(fst w, snd (createCertificate h tmpl parent pub priv (snd w)))"] conjI view_same_store)
      (auto simp: beside_eq prod_eq_iff)
next
  case (12 rec w node kind na)
  then have "rec = (\<lambda>node kind na (t, w). RecordIssued pf node kind na t w)" using assms by simp
  then show ?case by (intro view_same_store) (simp add: case_prod_unfold)
qed

lemma grants:
  assumes "d_pf d = pf" "d_host d = h" "grantable d r" "authorized (ru_server ru) r"
    and "admits (on_record sv key) (has_secret sv) (node_known nv) w (header_Get r hdrNodeName) (header_Get r hdrNodePassword)"
  shows "\<exists>rep st'. shim_step l d key sv (Some ru, w) (Answered r rep) st' \<and> issuance r rep"
proof -
  let ?s = "ru_server ru" and ?tw = "(ru_tracker ru, w)"
  have p: "rq_Path r = ''/v1-rke2/client-kubelet.crt''" using assms(3) by (simp add: grantable_def)
  then have k: "certKind r = ''client-kubelet''" by (rule agent_kinds(2))
  obtain csr where csr: "rq_Method r = ''POST''" "readCSR r = Inr csr" "CheckCSR (d_host (wire key d)) csr = None"
    using assms(3) by (auto simp: grantable_def)
  have ch: "nodeChecks (wire key d) ?s (certKind r) r = Inr []" using assms(3) k by (simp add: grantable_def)
  have ad: "admits (on_record sv key \<circ> snd) (has_secret sv \<circ> snd) (node_known nv \<circ> snd) ?tw (header_Get r hdrNodeName) (header_Get r hdrNodePassword)"
    using assms(5) by (simp add: admits_def)
  have ns: "node_scoped r" using k by (simp add: node_scoped_def)
  obtain resp t' w' where h: "handleCert (wire key d) ?s r ?tw = (Reply resp, ?s, t', w')" "resp_code resp = 200"
    using live_issuer.handleCert_node_live [OF wired_live [OF assms(1,2)] csr ns ch ad] by fastforce
  have "serve (ru_tunnel ru) (wire key d) ?s r ?tw = (Reply resp, ?s, t', w')"
    using serve_route [OF _ agent_routes(6) [folded p], where d = "wire key d"] p h(1) assms(4) by (simp add: agentPaths_def auth_def)
  then have "shim_step l d key sv (Some ru, w) (Answered r (Reply resp)) (Some (ru\<lparr>ru_server := ?s, ru_tracker := t'\<rparr>), w')"
    by (rule answers)
  then show ?thesis using h(2) k by (auto simp: issuance_iff certKinds_def)
qed

end

section \<open>Well-formed states\<close>

text \<open>
  A running shim in order: the server state is well formed, with a token and a known service
  network; clients are verified against the CA that signs for them; the tracker's maps agree; and
  the listener has a certificate, its own with all SANs or the operator's.
\<close>

definition shim_ok :: "'w host \<Rightarrow> running \<Rightarrow> bool" where
  "shim_ok h ru \<longleftrightarrow>
     wf_server (ru_server ru) \<and> cfg_Token (sv_cfg (ru_server ru)) \<noteq> [] \<and> \<not> sv_serviceErr (ru_server ru) \<and>
     ru_clientCAs ru = ca_PEM (sv_ca (ru_server ru)) \<and> tracker_inv (ru_tracker ru) \<and>
     (case ru_manager ru of None \<Rightarrow> ru_keyPair ru \<noteq> None | Some m \<Rightarrow> manager_ok h m)"

lemma start_pair:
  assumes "start l d opts w = (Serving ru, w')"
  shows "ru_tracker ru = NewTracker \<and> (\<exists>ca v. servingPairStep l (d_pf d) (d_host d) opts ca v =
    (Some (ru_manager ru, ru_keyPair ru, ru_servingExpiry ru), w'))"
  using assms by (auto simp: start_def Let_def split: prod.splits sum.splits option.splits if_splits) blast

lemma servingPair_ok:
  assumes "x509_lib h" "servingPairStep l pf h opts ca v = (Some (m, pair, ex), v')"
  shows "case m of None \<Rightarrow> pair \<noteq> None | Some m \<Rightarrow> manager_ok h m"
  using assms(2) x509_lib.NewManager_ok [OF assms(1)]
  by (auto simp: servingPairStep_def split: if_splits prod.splits sum.splits)

lemma start_wf:
  assumes "start l d opts w = (Serving ru, w')"
  shows "wf_server (ru_server ru)"
proof -
  obtain token w1 ca w2 tmpl w3 w5 s w6 where
    "servingCAStep (d_pf d) (d_host d) opts (newServer (makeConfig opts token tmpl) ca) w5 = (Some s, w6)" "ru_server ru = s"
    using start_Serving [OF assms] by metis
  then show ?thesis using servingCAStep_Some wf_new wf_set by metis
qed

lemma main_ok:
  assumes "x509_lib (d_host d)" "main l d args w = (Serving ru, w')"
  shows "shim_ok (d_host d) ru"
proof -
  obtain opts where st: "start l d opts w = (Serving ru, w')"
    using assms(2) by (auto simp: main_def split: sum.splits flag_error.splits)
  have "tracker_inv NewTracker" by (simp add: tracker_inv_def NewTracker_def)
  then show ?thesis
    using main_Serving [OF assms(2)] start_wf [OF st] start_pair [OF st] servingPair_ok [OF assms(1)] by (auto simp: shim_ok_def)
qed

lemma RecordIssued_inv: "tracker_inv t \<Longrightarrow> tracker_inv (fst (RecordIssued pf node kind na t w))"
proof -
  assume "tracker_inv t"
  then have "tracker_inv (incIssued kind t)" by (simp add: tracker_inv_def incIssued_def)
  from setSeries_inv [of pf node kind na "incIssued kind t" w, OF prod.collapse [symmetric] this] show ?thesis
    using \<open>tracker_inv (incIssued kind t)\<close> by (simp add: RecordIssued_def case_prod_unfold Let_def)
qed

lemma scan_inv:
  assumes "tracker_inv t" shows "tracker_inv (fst (scan x pf t w))"
proof (cases "fst (listSecrets pf Namespace managedByLabel (snd (timeNow pf w)))")
  case (Inl e)
  then show ?thesis using assms by (simp add: scan_def case_prod_unfold)
next
  case (Inr secs)
  show ?thesis
    using scan_exports [OF assms prod.collapse [symmetric], of pf w secs _ x] Inr by (metis prod.collapse)
qed

lemma wf_serviceErr: "wf_server s \<Longrightarrow> wf_server s' \<Longrightarrow> sv_cfg s' = sv_cfg s \<Longrightarrow> sv_serviceErr s' = sv_serviceErr s"
  by (simp add: wf_server_def)

lemma applyList_wf: "wf_server s \<Longrightarrow> applyList pf port s w = (s', w') \<Longrightarrow> wf_server s' \<and> sv_cfg s' = sv_cfg s \<and> sv_ca s' = sv_ca s"
  using wf_set by (auto simp: applyList_def split: prod.splits sum.splits)

lemma step_ok:
  assumes "shim_step l d key sv st ev st'" "x509_lib (d_host d)" "\<forall>ru. fst st = Some ru \<longrightarrow> shim_ok (d_host d) ru"
  shows "\<forall>ru. fst st' = Some ru \<longrightarrow> shim_ok (d_host d) ru"
  using assms(1)
proof cases
  case (starts args w ru w')
  then show ?thesis using main_ok [OF assms(2)] by simp
next
  case (answers ru r w rep s' t' w')
  have ok: "shim_ok (d_host d) ru" using answers(1) assms(3) by simp
  then have "wf_server s'" "sv_cfg s' = sv_cfg (ru_server ru)" "sv_ca s' = sv_ca (ru_server ru)"
    using wf_effect [OF serve_effect [OF answers(4)]] by (simp_all add: shim_ok_def)
  moreover have "tracker_inv t'"
    using wired_serve [OF answers(4)] ok RecordIssued_inv by (auto simp: shim_ok_def split: if_splits dest!: arg_cong [where f = fst])
  ultimately show ?thesis
    using answers(3) ok wf_serviceErr [of "ru_server ru" s'] by (cases "ru_manager ru") (simp_all add: shim_ok_def)
next
  case (discovers ru port w s' w')
  then show ?thesis
    using applyList_wf [OF _ discovers(5)] wf_serviceErr [of "ru_server ru" s'] assms(3)
    by (cases "ru_manager ru") (simp_all add: shim_ok_def)
next
  case (scans ru w t' w')
  then show ?thesis
    using scan_inv [of "ru_tracker ru" "deps_texts d" "d_pf d" w] assms(3) by (cases "ru_manager ru") (simp_all add: shim_ok_def)
next
  case (rotates ru m w m' w')
  then show ?thesis using x509_lib.rotateTick_ok [OF assms(2) rotates(5)] assms(3) by (simp add: shim_ok_def)
qed (use assms(3) in auto)

lemma run_ok:
  assumes "shim_run l d key sv w0 labs st" "x509_lib (d_host d)"
  shows "\<forall>ru. fst st = Some ru \<longrightarrow> shim_ok (d_host d) ru"
  using assms by induction (auto dest: step_ok)

section \<open>The issuance counters\<close>

text \<open>The certificates of a kind a trace handed out since the program last started.\<close>

fun issued_since :: "label list \<Rightarrow> string \<Rightarrow> nat" where
  "issued_since [] kind = 0"
| "issued_since (Started args # labs) kind = 0"
| "issued_since (Answered r rep # labs) kind =
     (if issuance r rep \<and> certKind r = kind then 1 else 0) + issued_since labs kind"
| "issued_since (ev # labs) kind = issued_since labs kind"

definition counter :: "tracker \<Rightarrow> string \<Rightarrow> nat" where
  "counter t kind = (case map_of (CertsIssued t) kind of None \<Rightarrow> 0 | Some n \<Rightarrow> n)"

lemma counter_cong: "CertsIssued t' = CertsIssued t \<Longrightarrow> counter t' = counter t"
  by (simp add: counter_def fun_eq_iff)

lemma counter_incIssued: "counter (incIssued k t) kind = (if k = kind then 1 else 0) + counter t kind"
  by (auto simp: counter_def incIssued_def update_conv' split: option.splits)

lemma CertsIssued_scanFold: "CertsIssued (fst (foldl (scanEntry x pf) st es)) = CertsIssued (fst st)"
proof (induction es arbitrary: st)
  case (Cons e es)
  have "CertsIssued (fst (scanEntry x pf st e)) = CertsIssued (fst st)"
    by (simp add: scanEntry_def setSeries_def case_prod_unfold Let_def)
  then show ?case using Cons.IH by simp
qed simp

lemma CertsIssued_scan: "CertsIssued (fst (scan x pf t w)) = CertsIssued t"
  by (simp add: scan_def case_prod_unfold CertsIssued_scanFold pruneSeries_def Let_def split: sum.splits)

lemma run_counts:
  assumes "shim_run l d key sv w0 labs st"
  shows "\<forall>ru. fst st = Some ru \<longrightarrow> counter (ru_tracker ru) kind = issued_since labs kind"
  using assms
proof induction
  case (run_step labs st ev st')
  from run_step.hyps(2) show ?case
  proof cases
    case (starts args w ru w')
    obtain opts where st: "start l d opts w = (Serving ru, w')"
      using starts(4) by (auto simp: main_def split: sum.splits flag_error.splits)
    have "ru_tracker ru = NewTracker" using start_pair [OF st] by simp
    then show ?thesis using starts by (simp add: counter_def NewTracker_def)
  next
    case (answers ru r w rep s' t' w')
    have "counter t' kind = (if issuance r rep \<and> certKind r = kind then 1 else 0) + counter (ru_tracker ru) kind"
    proof (cases "issuance r rep")
      case True
      then obtain na v where "(t', w') = RecordIssued (d_pf d) (header_Get r hdrNodeName) (certKind r) na (ru_tracker ru) v"
        using wired_serve [OF answers(4)] by auto
      from arg_cong [OF this, of fst]
      have "CertsIssued t' = CertsIssued (incIssued (certKind r) (ru_tracker ru))" by (simp add: RecordIssued_counts)
      from counter_cong [OF this] show ?thesis using True by (simp add: counter_incIssued)
    qed (use wired_serve [OF answers(4)] in simp)
    then show ?thesis using answers(1-3) run_step.IH by simp
  next
    case (scans ru w t' w')
    then show ?thesis
      using run_step.IH counter_cong [OF CertsIssued_scan [of "deps_texts d" "d_pf d" "ru_tracker ru" w]] by simp
  qed (use run_step.IH in simp_all)
qed simp

section \<open>A concrete run\<close>

interpretation mem_live_world: live_world mem_platform mem_secrets mem_nodes pad_key file_host mem_launcher
  by unfold_locales (auto simp: mem_create_def)

text \<open>The program starts in the empty cluster and a node joins with the token.\<close>

definition mem_join :: http_request where
  "mem_join = mem_kubelet\<lparr>rq_Header := (''Authorization'', basicAuthHeader ''node'' ''token'') # rq_Header mem_kubelet\<rparr>"

lemma mem_join_sel:
  "rq_Path mem_join = ''/v1-rke2/client-kubelet.crt''" "rq_Method mem_join = ''POST''"
  "header_Get mem_join hdrNodeName = ''worker-1''" "header_Get mem_join hdrNodePassword = ''0123456789''"
  "header_Get mem_join ''Authorization'' = basicAuthHeader ''node'' ''token''"
  by (simp_all add: mem_join_def mem_request_def header_Get_def hdrNodeName_def hdrNodePassword_def)

lemma mem_join_grantable: "grantable mem_start_deps mem_join"
proof -
  let ?csr = "mem_csr ''admin'' [''system:masters''] (ECDSA P256 3 4)"
  have "readCSR mem_join = readCSR mem_kubelet" by (simp add: mem_join_def readCSR_def readLimited_def mem_request_def)
  then have "readCSR mem_join = Inr ?csr" using mem_kubelet_csr by simp
  moreover have "CheckCSR (d_host mem_start_deps) ?csr = None"
    by (simp add: mem_start_deps_def file_host_def mem_host_def CheckCSR_def parseCSR_def checkPublicKey_def)
  moreover have "nodeChecks mem_start_deps s ''client-kubelet'' mem_join = Inr []" for s
    by (simp add: nodeChecks_def nodeSANs_def mem_join_sel validateNodeName_def mem_start_deps_def mem_deps_def hasPrefix_def
        ValidatePassword_def minPassword_def maxPassword_def)
  ultimately show ?thesis by (simp add: grantable_def mem_join_sel)
qed

lemma mem_start_token:
  assumes "start mem_launcher mem_start_deps mem_options w = (Serving ru, w')"
  shows "cfg_Token (sv_cfg (ru_server ru)) = ''token''"
proof -
  obtain token w1 ca w2 tmpl w3 w5 s w6 where t: "resolveToken file_host mem_options w = (Inr token, w1)"
    and s: "servingCAStep mem_platform file_host mem_options (newServer (makeConfig mem_options token tmpl) ca) w5 = (Some s, w6)" "ru_server ru = s"
    by (rule start_Serving [OF assms]) (simp add: mem_start_deps_def)
  have "token = ''token''"
    using t mem_token by (auto simp: resolveToken_exact mem_options_def defaultOptions_def env_def)
  then show ?thesis using servingCAStep_Some [OF s(1)] s(2) by (auto simp: newServer_sel makeConfig_def)
qed

lemma mem_run:
  "\<exists>rep ru w. shim_run mem_launcher mem_start_deps pad_key mem_secrets (mem_empty\<lparr>m_clock := day\<rparr>)
      [Answered mem_join rep, Started [''--token=token'']] (Some ru, w) \<and>
    issuance mem_join rep \<and> authorized (ru_server ru) mem_join"
proof -
  let ?w = "mem_empty\<lparr>m_clock := day\<rparr>"
  obtain ru w1 where m: "main mem_launcher mem_start_deps [''--token=token''] ?w = (Serving ru, w1)" using mem_main by blast
  have d: "d_pf mem_start_deps = mem_platform" "d_host mem_start_deps = file_host" by (simp_all add: mem_start_deps_def)
  have e: "getenv (d_host mem_start_deps) = (\<lambda>_. [])" by (auto simp: mem_start_deps_def)
  have "start mem_launcher mem_start_deps mem_options ?w = (Serving ru, w1)"
    using m e mem_flags by (simp add: main_def parseOptions_def)
  then have a: "authorized (ru_server ru) mem_join"
    using mem_start_token mem_join_sel(5) authorized_header [of mem_join "ru_server ru"] by simp
  have "world_view mem_secrets mem_nodes w1 = world_view mem_secrets mem_nodes ?w"
    using mem_world.fl.view_main [OF d, of "[''--token=token'']" ?w] m by simp
  then have "admits (on_record mem_secrets pad_key) (has_secret mem_secrets) (node_known mem_nodes) w1 ''worker-1'' ''0123456789''"
    by (auto simp: admits_def world_view_def has_secret_recorded node_known_def recorded_def mem_secrets_def mem_nodes_def mem_empty_def fun_eq_iff)
  then obtain rep st where s: "shim_step mem_launcher mem_start_deps pad_key mem_secrets (Some ru, w1) (Answered mem_join rep) st"
    and i: "issuance mem_join rep"
    using mem_live_world.grants [OF d mem_join_grantable a, of w1] unfolding mem_join_sel(3,4) by blast
  from s obtain s' t' w2 where st: "st = (Some (ru\<lparr>ru_server := s', ru_tracker := t'\<rparr>), w2)"
    and sv: "serve (ru_tunnel ru) (wire pad_key mem_start_deps) (ru_server ru) mem_join (ru_tracker ru, w1) = (rep, s', t', w2)"
    by (rule shim_answerE)
  let ?ru = "ru\<lparr>ru_server := s', ru_tracker := t'\<rparr>"
  have "sv_cfg s' = sv_cfg (ru_server ru)"
    using serve_effect [OF sv] by (auto simp: request_effect_def buildAgentConfig_def split: option.splits)
  then have "authorized (ru_server ?ru) mem_join" using a by (auto simp: authorized_def split: option.splits)
  moreover have "shim_run mem_launcher mem_start_deps pad_key mem_secrets ?w [Answered mem_join rep, Started [''--token=token'']] (Some ?ru, w2)"
    using run_step [OF run_step [OF run_init starts [OF m]] s] st by simp
  ultimately show ?thesis using i by blast
qed

section \<open>What the running program guarantees\<close>

text \<open>
  (C2) One password per node. Over any life of the program, with all its requests, scans,
  discoveries, rotations, exits and restarts with whatever arguments, and with other replicas and
  writers changing the cluster in between (short of replacing a recorded hash): all node
  certificates ever handed out for one name went to requests whose passwords verify against one and
  the same hash, the one recorded for the name now, and the one recorded before the first start
  when there was one.
\<close>

theorem one_password_per_node:
  assumes "shim_world (d_pf d) sv nv key (d_host d) l" and "shim_run l d key sv w0 labs st"
    and "enrolled labs node pw" and "enrolled labs node pw'"
  shows "\<exists>hash. recorded sv (snd st) node = Some hash \<and> verifyHash key SlotFree hash pw = None \<and>
    verifyHash key SlotFree hash pw' = None \<and> (\<forall>hash0. recorded sv w0 node = Some hash0 \<longrightarrow> hash0 = hash)"
proof -
  obtain hash where "recorded sv (snd st) node = Some hash" "verifyHash key SlotFree hash pw = None"
    using shim_world.run_enrolled [OF assms(1,2) refl refl assms(3)] by (auto simp: on_record_recorded)
  then show ?thesis
    using shim_world.run_enrolled [OF assms(1,2) refl refl assms(4)] shim_world.run_keeps [OF assms(1,2) refl refl, of node]
    by (auto simp: on_record_recorded)
qed

theorem one_password_per_node_witness:
  "\<exists>labs st hash. shim_run mem_launcher mem_start_deps pad_key mem_secrets (mem_empty\<lparr>m_clock := day\<rparr>) labs st \<and>
     enrolled labs ''worker-1'' ''0123456789'' \<and> recorded mem_secrets (snd st) ''worker-1'' = Some hash \<and>
     verifyHash pad_key SlotFree hash ''0123456789'' = None"
proof -
  obtain rep ru w where r: "shim_run mem_launcher mem_start_deps pad_key mem_secrets (mem_empty\<lparr>m_clock := day\<rparr>)
      [Answered mem_join rep, Started [''--token=token'']] (Some ru, w)" and i: "issuance mem_join rep" using mem_run by blast
  have e: "enrolled [Answered mem_join rep, Started [''--token=token'']] ''worker-1'' ''0123456789''"
    using i agent_kinds(2) [OF mem_join_sel(1)] mem_join_sel(3,4) by (auto simp: enrolled_def node_scoped_def)
  have "shim_world (d_pf mem_start_deps) mem_secrets mem_nodes pad_key (d_host mem_start_deps) mem_launcher"
    using mem_world.shim_world_axioms by (simp add: mem_start_deps_def)
  from one_password_per_node [OF this r e e] show ?thesis using r e by blast
qed

text \<open>
  (C24) The running program is in order. In every state of every such life: the server's fields are
  as its configuration determines, with a token that is not empty and a known service network;
  client certificates are verified against the CA that signs them; the tracker exports exactly the
  series it knows of; and the listener has a serving certificate, the operator's or one of its own
  that parses, carries all SANs and does not outlive its CA.
\<close>

theorem running_shim_sound:
  assumes "x509_lib (d_host d)" and "shim_run l d key sv w0 labs (Some ru, w)"
  shows "shim_ok (d_host d) ru"
  using run_ok [OF assms(2,1)] by simp

theorem running_shim_sound_witness:
  "\<exists>labs ru w. shim_run mem_launcher mem_start_deps pad_key mem_secrets (mem_empty\<lparr>m_clock := day\<rparr>) labs (Some ru, w) \<and>
     shim_ok file_host ru"
proof -
  have x: "x509_lib (d_host mem_start_deps)"
    by unfold_locales (auto simp: mem_start_deps_def mem_create_def Let_def split: if_splits)
  have d: "d_host mem_start_deps = file_host" by (simp add: mem_start_deps_def)
  obtain labs ru w where r: "shim_run mem_launcher mem_start_deps pad_key mem_secrets (mem_empty\<lparr>m_clock := day\<rparr>) labs (Some ru, w)"
    using mem_run by blast
  show ?thesis using running_shim_sound [OF x r] r unfolding d by blast
qed

text \<open>
  (C27) The issuance counters are exact. At any time while the program runs, the counter it exports
  for a kind of certificate is the number of requests it answered with a certificate of that kind
  since it was started, whatever else happened in between.
\<close>

theorem issued_counters_exact:
  assumes "shim_run l d key sv w0 labs (Some ru, w)"
  shows "counter (ru_tracker ru) kind = issued_since labs kind"
  using run_counts [OF assms] by simp

theorem issued_counters_exact_witness:
  "\<exists>labs ru w. shim_run mem_launcher mem_start_deps pad_key mem_secrets (mem_empty\<lparr>m_clock := day\<rparr>) labs (Some ru, w) \<and>
     counter (ru_tracker ru) ''client-kubelet'' = 1"
proof -
  obtain rep ru w where r: "shim_run mem_launcher mem_start_deps pad_key mem_secrets (mem_empty\<lparr>m_clock := day\<rparr>)
      [Answered mem_join rep, Started [''--token=token'']] (Some ru, w)" "issuance mem_join rep" using mem_run by blast
  then show ?thesis
    using issued_counters_exact [OF r(1), of "''client-kubelet''"] agent_kinds(2) [OF mem_join_sel(1)] by auto
qed

text \<open>
  (C26) Renewal. Against a world that does not fail, a kubelet that was once granted its client
  certificate is granted it again: at any later time at which the program runs and accepts the
  request's credentials, the same request is answered with a certificate, whatever happened in
  between and however often the program was restarted.
\<close>

theorem renewal_granted:
  assumes "live_world (d_pf d) sv nv key (d_host d) l" and "shim_run l d key sv w0 labs (Some ru, w)"
    and "Answered r rep \<in> set labs" and "issuance r rep" and "certKind r = ''client-kubelet''"
    and "authorized (ru_server ru) r"
  shows "\<exists>rep' st'. shim_step l d key sv (Some ru, w) (Answered r rep') st' \<and> issuance r rep'"
proof -
  have "enrolled labs (header_Get r hdrNodeName) (header_Get r hdrNodePassword)"
    using assms(3-5) by (auto simp: enrolled_def node_scoped_def)
  then have "on_record sv key w (header_Get r hdrNodeName) (header_Get r hdrNodePassword)"
    using shim_world.run_enrolled [OF live_world.axioms(1) [OF assms(1)] assms(2) refl refl] by simp
  then show ?thesis
    using live_world.grants [OF assms(1) refl refl run_grantable [OF assms(2-5)] assms(6)] by (simp add: admits_def)
qed

theorem renewal_granted_witness:
  "\<exists>labs ru w rep' st'. shim_run mem_launcher mem_start_deps pad_key mem_secrets (mem_empty\<lparr>m_clock := day\<rparr>) labs (Some ru, w) \<and>
     shim_step mem_launcher mem_start_deps pad_key mem_secrets (Some ru, w) (Answered mem_join rep') st' \<and> issuance mem_join rep'"
proof -
  obtain rep ru w where r: "shim_run mem_launcher mem_start_deps pad_key mem_secrets (mem_empty\<lparr>m_clock := day\<rparr>)
      [Answered mem_join rep, Started [''--token=token'']] (Some ru, w)" and i: "issuance mem_join rep"
    and a: "authorized (ru_server ru) mem_join" using mem_run by blast
  have "live_world (d_pf mem_start_deps) mem_secrets mem_nodes pad_key (d_host mem_start_deps) mem_launcher"
    using mem_live_world.live_world_axioms by (simp add: mem_start_deps_def)
  from renewal_granted [OF this r _ i agent_kinds(2) [OF mem_join_sel(1)] a] show ?thesis using r by fastforce
qed

end
