(* ===== verification/Spec2Isabelle.thy ===== *)
theory Spec2Isabelle
  imports Tunnel Scrypt_Runs Store Pki Certs Supervisor Discovery Expiry Shim_Main Bootstrap Load_Text Shim_System
begin

text \<open>
  A verification development of rke2-supervisor-shim, a Go program that answers the RKE2
  supervisor API (port 9345) on a control plane that RKE2 does not manage, so that RKE2 agents can
  join it. The source paths below are relative to src/.

  \<^bold>\<open>The program.\<close> An agent authenticates with the join token (Basic authentication), fetches the
  cluster's configuration, posts certificate requests for its kubelet, and opens a websocket
  tunnel authenticated by the client certificate it got. The supervisor (internal/supervisor)
  checks the request, asks the node password store (internal/nodepassword), signs with the cluster
  CA (internal/pki), tells the expiry tracker (internal/expiry) and replies. Discovery
  (internal/apiservers) keeps the advertised list of control planes current; the same list bars
  their addresses from node certificates. The tunnel (internal/tunnel) bounds sessions and message
  sizes. The program's own serving certificate (internal/certs) comes from the cluster CA and is
  rotated. cmd/shim/main.go reads options and starts all of it.

  \<^bold>\<open>How it is modelled.\<close> Structs are records, enumerations and errors are datatypes, a Go
  (value, error) pair is a sum. A function with effects takes the world and returns it updated:
  the world is a type variable, changed only through the operations of the records \<open>platform\<close>
  (Kubernetes API, clock, random salt, scrypt slot; theory Kube) and \<open>host\<close> (files, environment,
  PEM, X.509, keys; theory Host). These operations are parameters; what the code relies on is
  stated in the locales \<open>kube_api\<close> and \<open>x509_lib\<close>, both interpreted on a concrete in-memory
  instance, so every property with such a hypothesis has a witness. Go strings are lists of
  \<open>char\<close>, bytes and machine integers are words where their width matters.

  \<^item> Prelude: types and collections of facts. Slots: a counting resource as a locale, with
    reachability over acquire and release, interpreted for scrypt slots and for tunnel sessions.
  \<^item> Go_Strings, Go_Encoding, Go_Net, Cidr_Text, Go_Time, Go_Flag, Go_Float, Go_Duration,
    Go_Json, Http, Sha256: the parts of Go's standard library the program uses (strings, decimal, hex and base64
    text, IP addresses and networks, host and port, the calendar and RFC 3339, package flag with
    the numbers it accepts, float64 numbers with their shortest text, durations as text, JSON text with UTF-8 repair,
    requests, Basic authentication, ServeMux path cleaning, SHA-256), with round trips.
  \<^item> Tunnel (internal/tunnel/tunnel.go): \<open>authorizeNode\<close>, \<open>serveStart\<close>/\<open>serveEnd\<close> with
    \<open>acquire\<close>/\<open>release\<close>, and the frame limiter \<open>inspect\<close>/\<open>readConn\<close>. The limiter passes a frame
    sequence exactly when every data message is within the limit, however the stream is split into
    reads, and its bulk loop equals a byte-at-a-time automaton; for any bytes at all no header of an
    oversized message is passed on; its state is bounded; sessions per node are capped in every
    interleaving.
  \<^item> Scrypt, Scrypt_Runs (internal/nodepassword/scrypt.go): hashing, the Sscanf scanner, canonical
    form, bounds. What is written verifies; what verifies is canonical and costs a bounded amount.
    Scrypt_Runs cuts runScrypt at its statements and follows any number of createHash and
    verifyHash calls at once: the slots of the channel bound the scrypt runs and their memory, and
    each call answers as the sequential functions do.
  \<^item> Store (internal/nodepassword/store.go): \<open>CheckAndSet\<close> with fuel for its recursion (two rounds
    are shown to be enough), trust on first use, no takeover; the contract \<open>node_password_store\<close>
    the supervisor relies on, as a sublocale of the Secret store; and the interleaving of any
    number of replicas as a step relation that \<open>CheckAndSet\<close> refines.
  \<^item> Pki (internal/pki/pki.go): LoadCA, CSR checks, Sign, IssueSelf; what an issued certificate
    says, which keys are accepted, which CA files are.
  \<^item> Certs (internal/certs/serving.go): the serving SANs, issuing, and rotation over any sequence
    of ticks.
  \<^item> Supervisor (internal/supervisor/supervisor.go): the whole API; issuance, refusals without side
    effects, the serving-address check, authentication, the agent configuration, log limiting.
    Server_State: the type invariant of its state through any requests and discovery updates, and
    what an agent reads from the configuration it is sent, in every such state.
  \<^item> Discovery (internal/apiservers/discovery.go): the listing and the loop that hands it over.
  \<^item> Expiry (internal/expiry/tracker.go): recording, scans, series and warnings; what is recorded
    survives a restart, through the RFC 3339 text of the annotation, against an API whose patches
    and lists succeed (\<open>annotation_api\<close>); a node whose Secret lacks the label is never warned about,
    against any API (\<open>label_api\<close>).
  \<^item> Shim_Main (cmd/shim/main.go): environment and command line (the flags as an instance of the
    locale \<open>flag_table\<close> of Go_Flag: the command line overrides, flag by flag), the join token, the
    start of the program and its listeners.
  \<^item> Loadgen, Load_Run, Load_Text (hack/loadgen/main.go): the requests of a synthetic agent, what it
    makes of the answers, the report; the goroutines, their channel, wait group and counters as a
    step relation that always ends, unless the concurrency is 0, with a complete report; and the
    command line, from which any options can be had, and the printed text.
  \<^item> Live, Bootstrap: what a healthy API, store and signer promise (\<open>live_store\<close>, \<open>live_issuer\<close>,
    \<open>live_api\<close>), and the load generator's bootstrap run against the modelled API: every node
    that is new or returns with its password gets through all of it.
  \<^item> Wiring, Shim_System (cmd/shim/main.go and all it starts): the supervisor on the shared client
    with the Secret store and the tracker, the locale \<open>framed\<close> of what the other parts leave alone,
    and the whole program as a step relation: start, requests, discovery, scans, rotation, exit and
    restart, with other writers in between. One password per node over all of it, well-formed
    states, exact issuance counters, renewal always granted.
  \<^item> This theory: what spans components. No node certificate for a name whose password is not
    presented, no serving certificate for a discovered control plane, the tunnel accepts exactly
    the kubelet identities, and what is recorded for cluster-wide identities.

  \<^bold>\<open>Bounds.\<close> The only fuel is that of \<open>CheckAndSet\<close>; \<open>CheckAndSet_terminates\<close> shows that two rounds
  return against an API without other writers, and the step relation covers racing writers. Loops
  driven by tickers (rotation, discovery, scans) are functions of the list of events they see.

  \<^bold>\<open>Not modelled.\<close> Log output, the layout of the usage text, TLS and HTTP framing, metric
  registration, and the third-party remotedialer, promhttp and client-go. Error replies are kept as
  the error they carry, the usage as its flags with their defaults. Go's map iteration order is
  replaced by insertion order where a result depends on it only up to order. Durations and times
  are integers in nanoseconds; Sub saturates as in Go. A request has the decoded path of its URL:
  what ServeMux does with escaped dots and slashes or the target * is left out.

  \<^bold>\<open>Granularity.\<close> In Shim_System a handler or a tick is one step. Its calls interleave with those
  of other requests in the program; for the password store, whose outcome depends on it, theory
  Store cuts CheckAndSet at its API calls, and for the sessions, scrypt slots and goroutines
  theories Tunnel, Scrypt_Runs and Load_Run do the same. A scan is one step with respect to
  RecordIssued: a series recorded while it runs is one whose time is later than its start. Other
  writers keep the hash of a recorded Secret; an operator who deletes a Secret and its Node to
  release a name starts a new history. The load generator's goroutines are interleaved in
  Load_Run; Bootstrap runs its nodes one after another against the modelled server.
\<close>

section \<open>Lemmas across components\<close>

lemma issued_identity:
  assumes "x509_lib (d_host d)" "handleCert d s r w = (Reply resp, s', w')" "resp_code resp = 200"
  obtains out der cert req where "resp_body resp = Text out" "pemDecode (d_host d) out = Some der"
    "parseCertificate (d_host d) der = Inr cert" "identity d s r req"
    "Subject cert = \<lparr>CommonName = rq_CommonName req, Organization = rq_Organization req\<rparr>"
    "IPAddresses cert = map sanBytes (rq_IPAddresses req)"
  using issued_certificate [OF assms] by blast

lemma authorizeNode_kubelet:
  "node \<noteq> [] \<Longrightarrow> authorizeNode \<lparr>tls_peers = Some [\<lparr>CommonName = ''system:node:'' @ node, Organization = [''system:nodes'']\<rparr>]\<rparr> = (node, True)"
  by (simp add: authorizeNode_def cutPrefix_def hasPrefix_def)

lemma authorizeNode_no_group: "authorizeNode \<lparr>tls_peers = Some [\<lparr>CommonName = cn, Organization = []\<rparr>]\<rparr> = ([], False)"
  by (simp add: authorizeNode_def split: prod.splits)

lemma loopbacks_loopback: "ip \<in> set loopbacks \<Longrightarrow> isLoopback ip"
proof -
  have "parseIP ''127.0.0.1'' = Some (v4InV6Prefix @ [127, 0, 0, 1])" by (simp add: go_simps)
  moreover have "parseIP ''::1'' = Some (replicate 15 0 @ [1])" by code_simp
  moreover have "isLoopback (v4InV6Prefix @ [127, 0, 0, 1])" by (simp add: isLoopback_def to4_def)
  moreover have "isLoopback (replicate 15 0 @ [1])" by code_simp
  moreover assume "ip \<in> set loopbacks"
  ultimately show "isLoopback ip" by (auto simp: loopbacks_def map_filter_simps)
qed

lemma advertised_after_apply:
  assumes "listNodes pf controlPlaneLabel v = (Inr nodes, v')" "applyList pf port s v = (s1, v1)"
    and "n \<in> set nodes" "isReady n" "firstAddress (node_addresses n) = Some ip"
  shows "ip \<in> set (apiServerIPs s1)"
proof -
  let ?out = "sort (List.map_filter (nodeEndpoint port) nodes)"
  have e: "endpoint port ip \<in> set ?out" using assms(3-5) by (auto simp: set_map_filter nodeEndpoint_def)
  then have "?out \<noteq> []" by force
  then have "List pf port v = (Inr ?out, v')" using assms(1) by (simp add: List_def Let_def)
  then have "sv_apiServers s1 = Some ?out"
    using assms(2) \<open>?out \<noteq> []\<close> by (auto simp: applyList_def SetAPIServers_def equal_iff split: if_splits option.splits)
  then show ?thesis
    using apiServerIPs_endpoint [OF _ e] firstAddress_Some [OF assms(5)] by blast
qed

lemma storeCheckAndSet_True:
  assumes "secret_store pf sv nv key" "storeCheckAndSet pf key node pw w = (Inr True, w')"
  shows "CheckAndSet 2 pf key node pw w = Some (Inr True, w')"
  using secret_store.store_CheckAndSet [OF assms(1), of node pw w] assms(2) by auto

section \<open>Properties across components\<close>

text \<open>
  (C1) No node certificate without the node's password. Whatever else a request for a node
  certificate says, when the name has a recorded password that the presented one does not match,
  or is a Node without any recorded password, the supervisor in front of the Secret store does
  not answer 200: no certificate is handed out for an existing node's name.
\<close>

theorem impersonation_refused:
  assumes "secret_store (d_pf d) sv nv key" and "d_pw d = Some (storeCheckAndSet (d_pf d) key)"
    and "node_scoped r" and "handleCert d s r w = (Reply resp, s', w')"
    and "has_secret sv w (header_Get r hdrNodeName) \<or> nv w (header_Get r hdrNodeName) \<noteq> None"
    and "\<not> on_record sv key w (header_Get r hdrNodeName) (header_Get r hdrNodePassword)"
  shows "resp_code resp \<noteq> 200"
proof
  let ?n = "header_Get r hdrNodeName" and ?p = "header_Get r hdrNodePassword"
  have api: "kube_api (d_pf d) sv nv" using assms(1) by (simp add: secret_store_def)
  assume "resp_code resp = 200"
  then obtain csr req out na w0 w1 w2 where q: "certRequest d s r w0 = (Inr req, w1)"
    and w0: "w0 = snd (timeNow (d_pf d) w)"
    by (rule handleCert_issued [OF assms(4)])
  have "storeCheckAndSet (d_pf d) key ?n ?p w0 = (Inr True, w1)"
    using certRequest_Inr [OF q] assms(2,3) by auto
  then have c: "CheckAndSet 2 (d_pf d) key ?n ?p w0 = Some (Inr True, w1)"
    by (rule storeCheckAndSet_True [OF assms(1)])
  have same: "sv w0 = sv w" "nv w0 = nv w"
    using kube_api.time_now [OF api, of w "fst (timeNow (d_pf d) w)" w0] w0 by simp_all
  show False
    using kube_api.CheckAndSet_known [OF api c] kube_api.CheckAndSet_unknown [OF api c] assms(5,6) same
    by (cases "sv w Namespace (SecretName ?n)") (auto simp: on_record_def has_secret_def)
qed

theorem impersonation_refused_witness:
  "let n = \<lparr>node_name = ''worker-1'', node_labels = [], node_addresses = [], node_conditions = []\<rparr>;
       w = mem_empty\<lparr>m_nodes := [(''worker-1'', n)]\<rparr>
   in \<exists>resp w'. handleCert mem_deps (newServer mem_config mem_ca) mem_kubelet w = (Reply resp, newServer mem_config mem_ca, w') \<and>
        resp_code resp \<noteq> 200"
proof -
  let ?w = "mem_empty\<lparr>m_nodes := [(''worker-1'', \<lparr>node_name = ''worker-1'', node_labels = [], node_addresses = [],
    node_conditions = []\<rparr>)]\<rparr>"
  let ?s = "newServer mem_config mem_ca"
  obtain rep s' w' where h: "handleCert mem_deps ?s mem_kubelet ?w = (rep, s', w')"
    by (cases "handleCert mem_deps ?s mem_kubelet ?w")
  have "CheckAndSet 2 mem_platform pad_key ''worker-1'' pw (?w\<lparr>m_clock := 1\<rparr>) = Some (Inl ErrNodeExistsWithoutPassword, ?w\<lparr>m_clock := 1\<rparr>)" for pw
    by (simp add: CheckAndSet.simps numeral_2_eq_2 Let_def mem_secrets_def mem_nodes_def mem_empty_def)
  then have "\<exists>resp. certRequest mem_deps ?s mem_kubelet (?w\<lparr>m_clock := 1\<rparr>) = (Inl (Reply resp), ?w\<lparr>m_clock := 1\<rparr>)"
    by (simp add: certRequest_def certKind_kubelet mem_checks [OF mem_server_ok(1)] nodePassword_def mem_header
        storeCheckAndSet_def http_Error_def Let_def)
  moreover have "rq_Method mem_kubelet = ''POST''" by (simp add: mem_request_def)
  moreover have "timeNow mem_platform ?w = (0, ?w\<lparr>m_clock := 1\<rparr>)" by (simp add: mem_empty_def)
  ultimately obtain resp where r: "rep = Reply resp" "s' = ?s"
    using h mem_kubelet_csr mem_CheckCSR by (auto simp: handleCert_def simp del: mem_ops)
  have n: "mem_nodes ?w ''worker-1'' \<noteq> None" "\<not> on_record mem_secrets pad_key ?w ''worker-1'' ''0123456789''"
    by (simp_all add: mem_nodes_def on_record_def mem_secrets_def mem_empty_def)
  have "resp_code resp \<noteq> 200"
    by (rule impersonation_refused [of mem_deps mem_secrets mem_nodes pad_key mem_kubelet ?s ?w resp s' w'])
      (use h r n mem_store.secret_store_axioms in \<open>simp_all add: mem_header node_scoped_def certKind_kubelet\<close>)
  then show ?thesis using h r by (auto simp: Let_def)
qed

text \<open>
  (C4) No serving certificate for a control plane. After discovery listed a Ready control-plane
  Node and handed its address to the supervisor, no kubelet serving certificate it issues, to
  whatever node name and with whatever Rke2-Node-Ip header, contains that address, in whichever
  of the two forms of an IPv4 address.
\<close>

theorem control_plane_not_impersonated:
  assumes "x509_lib (d_host d)" and "listNodes pf controlPlaneLabel v = (Inr nodes, v')"
    and "n \<in> set nodes" and "isReady n" and "firstAddress (node_addresses n) = Some ip"
    and "applyList pf port s v = (s1, v1)"
    and "certKind r = ''serving-kubelet''" and "handleCert d s1 r w = (Reply resp, s2, w')" and "resp_code resp = 200"
  shows "\<exists>out der cert. resp_body resp = Text out \<and> pemDecode (d_host d) out = Some der \<and>
    parseCertificate (d_host d) der = Inr cert \<and> (\<forall>a \<in> set (IPAddresses cert). \<not> ip_Equal a ip)"
proof -
  obtain out der cert req where c: "resp_body resp = Text out" "pemDecode (d_host d) out = Some der"
    "parseCertificate (d_host d) der = Inr cert" "identity d s1 r req" "IPAddresses cert = map sanBytes (rq_IPAddresses req)"
    by (rule issued_identity [OF assms(1,8,9)])
  obtain ips where ips: "servingSANIPs s1 (header_Get r hdrNodeIP) = Inr ips" "req = servingRequest (header_Get r hdrNodeName) ips"
    using c(4) assms(7) by (auto simp: identity_def Let_def)
  have cp: "ip \<in> set (apiServerIPs s1)" by (rule advertised_after_apply [OF assms(2,6,3-5)])
  have "\<not> ip_Equal a ip" if "a \<in> set ips" for a
    using servingSANIPs_node_address [OF ips(1) that] cp unfolding node_address_def by (metis ip_Equal_sym)
  moreover have "\<not> ip_Equal a ip" if "a \<in> set loopbacks" for a
    using loopbacks_loopback [OF that] firstAddress_Some [OF assms(5)] isLoopback_Equal by blast
  ultimately show ?thesis using c ips(2) by (auto simp: servingRequest_def)
qed

theorem control_plane_not_impersonated_witness:
  "\<exists>s1 resp w' out cert. applyList mem_platform 6443 (newServer mem_config mem_ca) mem_cluster = (s1, mem_cluster) \<and>
     handleCert mem_deps s1 mem_serving (mem_empty\<lparr>m_clock := day\<rparr>) = (Reply resp, s1, w') \<and> resp_body resp = Text out \<and>
     mem_parse (fst (unfield out)) = Inr cert \<and> [10, 0, 0, 1] \<notin> set (IPAddresses cert)"
proof -
  let ?s = "newServer mem_config mem_ca"
  obtain s1 v1 where a: "applyList mem_platform 6443 ?s mem_cluster = (s1, v1)"
    by (cases "applyList mem_platform 6443 ?s mem_cluster")
  have l: "List mem_platform 6443 mem_cluster = (Inr [''10.0.0.1:6443''], mem_cluster)"
    using mem_cluster_nodes mem_cp_endpoint by (simp add: List_def map_filter_simps Let_def)
  then have v1: "v1 = mem_cluster" using a by (simp add: applyList_def)
  have "s1 = SetAPIServers [''10.0.0.1:6443''] ?s" using a l by (simp add: applyList_def)
  then have s1: "\<not> sv_serviceErr s1" "sv_ca s1 = mem_ca" "sv_servingCA s1 = None"
    using mem_server_ok by (auto simp: SetAPIServers_def split: option.splits)
  obtain resp w' where h: "handleCert mem_deps s1 mem_serving (mem_empty\<lparr>m_clock := day\<rparr>) = (Reply resp, s1, w')" "resp_code resp = 200"
    using mem_issued [OF s1] certKind_serving unfolding node_scoped_def by blast
  have x: "x509_lib (d_host mem_deps)" using mem_x509.x509_lib_axioms by simp
  have r: "isReady mem_cp" "firstAddress (node_addresses mem_cp) = Some (v4InV6Prefix @ [10, 0, 0, 1])"
    using mem_cp_addresses by (simp_all add: mem_cp_def isReady_def)
  show ?thesis
    using control_plane_not_impersonated [OF x mem_cluster_nodes _ r a certKind_serving h] a h v1
    by (fastforce simp: ip_Equal_def)
qed

text \<open>
  (C10) Identities and the tunnel. The authorizer of the tunnel accepts the certificate issued by
  client-kubelet.crt as exactly the node it was issued to, and none of the other certificates the
  supervisor issues: not the serving certificate and not the cluster-wide client identities.
\<close>

theorem tunnel_accepts_only_kubelets:
  assumes "x509_lib (d_host d)" and "handleCert d s r w = (Reply resp, s', w')" and "resp_code resp = 200"
  shows "\<exists>out der cert. resp_body resp = Text out \<and> pemDecode (d_host d) out = Some der \<and>
    parseCertificate (d_host d) der = Inr cert \<and>
    authorizeNode \<lparr>tls_peers = Some [Subject cert]\<rparr> =
      (if certKind r = ''client-kubelet'' then (header_Get r hdrNodeName, True) else ([], False))"
proof -
  obtain out der cert req where c: "resp_body resp = Text out" "pemDecode (d_host d) out = Some der"
    "parseCertificate (d_host d) der = Inr cert" "identity d s r req"
    "Subject cert = \<lparr>CommonName = rq_CommonName req, Organization = rq_Organization req\<rparr>"
    by (rule issued_identity [OF assms])
  have "authorizeNode \<lparr>tls_peers = Some [Subject cert]\<rparr> =
      (if certKind r = ''client-kubelet'' then (header_Get r hdrNodeName, True) else ([], False))"
    using c(4,5) authorizeNode_kubelet authorizeNode_no_group
    by (auto simp: identity_def Let_def kubeletRequest_def servingRequest_def clusterRequest_def)
  then show ?thesis using c by blast
qed

theorem tunnel_accepts_only_kubelets_witness:
  "\<exists>resp w' out cert. handleCert mem_deps (newServer mem_config mem_ca) mem_kubelet (mem_empty\<lparr>m_clock := day\<rparr>) =
       (Reply resp, newServer mem_config mem_ca, w') \<and> resp_body resp = Text out \<and>
     mem_parse (fst (unfield out)) = Inr cert \<and> authorizeNode \<lparr>tls_peers = Some [Subject cert]\<rparr> = (''worker-1'', True)"
proof -
  obtain resp w' where h: "handleCert mem_deps (newServer mem_config mem_ca) mem_kubelet (mem_empty\<lparr>m_clock := day\<rparr>) =
      (Reply resp, newServer mem_config mem_ca, w')" "resp_code resp = 200"
    using mem_issued [OF mem_server_ok] certKind_kubelet unfolding node_scoped_def by blast
  have "x509_lib (d_host mem_deps)" using mem_x509.x509_lib_axioms by simp
  from tunnel_accepts_only_kubelets [OF this h] show ?thesis
    using h by (auto simp: certKind_kubelet mem_header)
qed

section \<open>Cluster-wide identities\<close>

text \<open>The route a certificate was handed out by.\<close>

lemma serve_cert_route:
  assumes "serve tunnel d s r w = (Reply resp, s', w')" "resp_code resp = 200" "certKind r \<in> set certKinds"
    and "authorized s r'" "rq_Path r' = rq_Path r" "rq_Method r' = rq_Method r"
  shows "serve tunnel d s r' w = handleCert d s r' w"
proof -
  have u: "handleUnknown d s r w \<noteq> (Reply resp, s', w')"
    using assms(2) by (auto simp: handleUnknown_def status_defs)
  then obtain hd where h: "map_of (Routes tunnel) (rq_Path r) = Some hd" "hd d s r w = (Reply resp, s', w')"
    using assms(1,2) auth_OK [of handleUnknown d s r w] by (auto simp: serve_def status_defs split: if_splits option.splits)
  then have "hd = auth handleCert"
    using assms(3) other_routes by (auto simp: Routes_def certKind_def split: if_splits)
  moreover have "rq_Method r = ''CONNECT'' \<or> cleanPath (rq_Path r) = rq_Path r" "hasPrefix (rq_Path r) ''/''"
    using assms(1,2) by (auto simp: serve_def status_defs split: if_splits)
  ultimately show ?thesis using h(1) assms(4-6) by (auto simp: serve_def auth_def)
qed

lemma with_headers [simp]:
  "certKind (r\<lparr>rq_Header := hs\<rparr>) = certKind r" "readCSR (r\<lparr>rq_Header := hs\<rparr>) = readCSR r"
  by (simp_all add: certKind_def readCSR_def readLimited_def split: option.splits)

text \<open>The endpoints of the cluster-wide identities read none of the headers.\<close>

lemma cluster_cert:
  assumes "certKind r \<in> {''client-kube-proxy'', ''client-rke2-controller''}"
    and "handleCert (wire key d) s r (t, w) = (Reply resp, s', tw')" "resp_code resp = 200"
  shows "\<exists>na v. \<forall>hs. handleCert (wire key d) s (r\<lparr>rq_Header := hs\<rparr>) (t, w) =
    (Reply resp, s', RecordIssued (d_pf d) (header_Get (r\<lparr>rq_Header := hs\<rparr>) hdrNodeName) (certKind r) na t v)"
proof -
  let ?w0 = "snd (timeNow (d_pf (wire key d)) (t, w))"
  obtain req where q: "certRequest (wire key d) s (r\<lparr>rq_Header := hs\<rparr>) ?w0 = (Inr req, ?w0)" for hs
    using assms(1) by (auto simp: certRequest_def Let_def)
  have q0: "certRequest (wire key d) s r ?w0 = (Inr req, ?w0)" using q [of "rq_Header r"] by simp
  obtain csr req' out na w0 w1 tv where i: "rq_Method r = ''POST''" "readCSR r = Inr csr" "certRequest (wire key d) s r w0 = (Inr req', w1)"
    "Sign (d_pf (wire key d)) (d_host (wire key d)) (certSigner s (certKind r)) csr req' w1 = (Inr (out, na), tv)"
    "resp_body resp = Text out" "w0 = ?w0"
    by (rule handleCert_issued [OF assms(2,3)])
  have r: "req' = req" "w1 = ?w0" using i(3,6) q0 by simp_all
  have "fst tv = fst ?w0"
    using framed.view_Sign [OF beside_tracker [of "d_pf d" "d_host d"], of "certSigner s (certKind r)" csr req ?w0] i(4) r by simp
  then obtain v where tv: "tv = (t, v)" by (cases tv) simp
  have c: "CheckCSR (d_host d) csr = None"
    using Sign_bad [of "besideHost (d_host d)" csr _ "besidePlatform (d_pf d)" "certSigner s (certKind r)" req' w1] i(4)
    by (cases "CheckCSR (d_host d) csr") auto
  have "handleCert (wire key d) s (r\<lparr>rq_Header := hs\<rparr>) (t, w) =
      (http_OK ''text/plain'' (Text out), s, RecordIssued (d_pf d) (header_Get (r\<lparr>rq_Header := hs\<rparr>) hdrNodeName) (certKind r) na t v)" for hs
    using i(1,2,4) c q [of hs] r tv
    by (simp add: handleCert_def signCert_def recordIssued_def case_prod_unfold)
  note all = this
  have "http_OK ''text/plain'' (Text out) = Reply resp" "s' = s" using all [of "rq_Header r"] assms(2) by simp_all
  then show ?thesis using all by (intro exI [of _ na] exI [of _ v]) simp
qed

text \<open>
  (C38) Cluster-wide certificates are recorded under the node header as sent. When one of the
  endpoints client-kube-proxy.crt and client-rke2-controller.crt hands out a certificate, it hands
  out the same certificate to the same request with any other headers that carry the token: no
  node name is validated and no password looked at. Yet the tracker records the issuance under
  whatever Rke2-Node-Name says: it exports the certificate's expiry as that node's, and patches
  that node's Secret. So a holder of the token can set the expiry series of any node, under these
  two kinds, where a comment of the tracker says such certificates have no node and are only
  counted.
\<close>

theorem cluster_identity_recorded_under_header:
  assumes "certKind r \<in> {''client-kube-proxy'', ''client-rke2-controller''}"
    and "serve tunnel (wire key d) s r (t, w) = (Reply resp, s', t', w')" and "resp_code resp = 200"
  shows "\<exists>na v. (t', w') = RecordIssued (d_pf d) (header_Get r hdrNodeName) (certKind r) na t v \<and>
    (\<forall>hs. authorized s (r\<lparr>rq_Header := hs\<rparr>) \<longrightarrow>
      (let node = header_Get (r\<lparr>rq_Header := hs\<rparr>) hdrNodeName; (t1, w1) = RecordIssued (d_pf d) node (certKind r) na t v
       in serve tunnel (wire key d) s (r\<lparr>rq_Header := hs\<rparr>) (t, w) = (Reply resp, s', t1, w1) \<and>
         (node \<noteq> [] \<longrightarrow> map_of (CertExpirySeconds t1) (node, certKind r) = Some (unix na) \<and>
            w1 = snd (patchSecret (d_pf d) Namespace (SecretName node)
              [(annotationPrefix @ certKind r, formatRFC3339 na)] (snd (timeNow (d_pf d) v))))))"
proof -
  have k: "certKind r \<in> set certKinds" using assms(1) by (auto simp: certKinds_def)
  have h: "handleCert (wire key d) s r (t, w) = (Reply resp, s', t', w')" using serve_issued [OF assms(2,3) k] by simp
  obtain na v where all: "\<forall>hs. handleCert (wire key d) s (r\<lparr>rq_Header := hs\<rparr>) (t, w) =
      (Reply resp, s', RecordIssued (d_pf d) (header_Get (r\<lparr>rq_Header := hs\<rparr>) hdrNodeName) (certKind r) na t v)"
    using cluster_cert [OF assms(1) h assms(3)] by blast
  have "(t', w') = RecordIssued (d_pf d) (header_Get r hdrNodeName) (certKind r) na t v"
    using all [rule_format, of "rq_Header r"] h by simp
  moreover have "serve tunnel (wire key d) s (r\<lparr>rq_Header := hs\<rparr>) (t, w) =
      (Reply resp, s', RecordIssued (d_pf d) (header_Get (r\<lparr>rq_Header := hs\<rparr>) hdrNodeName) (certKind r) na t v)"
    if "authorized s (r\<lparr>rq_Header := hs\<rparr>)" for hs
    using serve_cert_route [OF assms(2,3) k that] all by simp
  moreover have "map_of (CertExpirySeconds (fst (RecordIssued (d_pf d) node kind na t v))) (node, kind) = Some (unix na) \<and>
      snd (RecordIssued (d_pf d) node kind na t v) = snd (patchSecret (d_pf d) Namespace (SecretName node)
        [(annotationPrefix @ kind, formatRFC3339 na)] (snd (timeNow (d_pf d) v)))" if "node \<noteq> []" for node kind
    using that by (simp add: RecordIssued_def setSeries_def case_prod_unfold Let_def update_conv')
  ultimately show ?thesis by (intro exI [of _ na] exI [of _ v]) (simp add: case_prod_unfold Let_def)
qed

text \<open>The certificate of a node's kube-proxy, asked for again in the name of a node that cannot exist.\<close>

definition mem_token_header :: "string \<times> string" where
  "mem_token_header = (''Authorization'', basicAuthHeader ''node'' ''token'')"

definition mem_named_proxy :: "string \<Rightarrow> http_request" where
  "mem_named_proxy node = mem_proxy\<lparr>rq_Header := [mem_token_header, (''Rke2-Node-Name'', node)]\<rparr>"

lemma mem_named_proxy_props:
  "rq_Path (mem_named_proxy n) = ''/v1-rke2/client-kube-proxy.crt''" "rq_Method (mem_named_proxy n) = ''POST''"
  "certKind (mem_named_proxy n) = ''client-kube-proxy''" "header_Get (mem_named_proxy n) hdrNodeName = n"
  "readCSR (mem_named_proxy n) = Inr (mem_csr ''admin'' [''system:masters''] (ECDSA P256 3 4))"
  "authorized (newServer mem_config mem_ca) (mem_named_proxy n)"
  "(mem_named_proxy n)\<lparr>rq_Header := rq_Header (mem_named_proxy m)\<rparr> = mem_named_proxy m"
proof -
  show "certKind (mem_named_proxy n) = ''client-kube-proxy''"
    "readCSR (mem_named_proxy n) = Inr (mem_csr ''admin'' [''system:masters''] (ECDSA P256 3 4))"
    using certKind_proxy mem_kubelet_csr by (simp_all add: mem_named_proxy_def)
  show "authorized (newServer mem_config mem_ca) (mem_named_proxy n)"
    by (rule authorized_header)
      (simp add: mem_named_proxy_def mem_token_header_def header_Get_def newServer_sel mem_config_def)
qed (simp_all add: mem_named_proxy_def mem_request_def mem_token_header_def header_Get_def hdrNodeName_def)

lemma mem_named_proxy_served:
  "\<exists>resp t' w'. serve False (wire pad_key mem_deps) (newServer mem_config mem_ca) (mem_named_proxy n)
      (NewTracker, mem_empty\<lparr>m_clock := day\<rparr>) = (Reply resp, newServer mem_config mem_ca, t', w') \<and> resp_code resp = 200"
proof -
  let ?s = "newServer mem_config mem_ca" and ?d = "wire pad_key mem_deps" and ?r = "mem_named_proxy n"
  let ?w = "(NewTracker, mem_empty\<lparr>m_clock := day\<rparr>)"
  let ?sg = "signCert ?d ?s ?r (mem_csr ''admin'' [''system:masters''] (ECDSA P256 3 4)) (clusterRequest ''system:kube-proxy'')
    (NewTracker, mem_empty\<lparr>m_clock := day + 1\<rparr>)"
  note p = mem_named_proxy_props [of n]
  obtain out where o: "fst ?sg = http_OK ''text/plain'' (Text out)"
    using mem_server_ok
    by (simp add: signCert_def certSigner_def recordIssued_def case_prod_unfold mem_ca_def Sign_def parseCSR_def
        checkPublicKey_def notAfter_def leafTemplate_def mem_create_def truncSecond_def time_simps Let_def)
  obtain rep t' w' where "?sg = (rep, t', w')" by (metis prod.collapse)
  with o have "?sg = (http_OK ''text/plain'' (Text out), t', w')" by simp
  then have "handleCert ?d ?s ?r ?w = (http_OK ''text/plain'' (Text out), ?s, t', w')"
    using p mem_CheckCSR by (simp add: handleCert_def certRequest_def Let_def)
  moreover have "rq_Path ?r \<in> set agentPaths" "map_of (Routes False) (rq_Path ?r) = Some (auth handleCert :: (tracker \<times> mem) handler)"
    unfolding p(1) by (simp add: agentPaths_def, rule agent_routes(7))
  ultimately have "serve False ?d ?s ?r ?w = (http_OK ''text/plain'' (Text out), ?s, t', w')"
    using serve_route [of ?r False "auth handleCert" ?d ?s ?w] p(6) by (simp add: auth_def)
  then show ?thesis by (simp add: http_OK_def StatusOK_def)
qed

theorem cluster_identity_recorded_under_header_witness:
  "let s = newServer mem_config mem_ca; tw = (NewTracker, mem_empty\<lparr>m_clock := day\<rparr>)
   in \<exists>resp t' w' t1 w1 na. serve False (wire pad_key mem_deps) s (mem_named_proxy ''worker-1'') tw = (Reply resp, s, t', w') \<and>
     serve False (wire pad_key mem_deps) s (mem_named_proxy ''NO SUCH node'') tw = (Reply resp, s, t1, w1) \<and> resp_code resp = 200 \<and>
     map_of (CertExpirySeconds t1) (''NO SUCH node'', ''client-kube-proxy'') = Some (unix na)"
proof -
  let ?s = "newServer mem_config mem_ca" and ?r = "mem_named_proxy ''worker-1''" and ?n = "mem_named_proxy ''NO SUCH node''"
  obtain resp t' w' where sv: "serve False (wire pad_key mem_deps) ?s ?r (NewTracker, mem_empty\<lparr>m_clock := day\<rparr>) = (Reply resp, ?s, t', w')"
    "resp_code resp = 200" using mem_named_proxy_served by blast
  have k: "certKind ?r \<in> {''client-kube-proxy'', ''client-rke2-controller''}" by (simp add: mem_named_proxy_props)
  have h: "?r\<lparr>rq_Header := rq_Header ?n\<rparr> = ?n" by (rule mem_named_proxy_props)
  show ?thesis
    unfolding Let_def
  proof (insert cluster_identity_recorded_under_header [OF k sv, unfolded Let_def],
      elim exE conjE, erule allE [of _ "rq_Header ?n"], unfold h)
    fix na v
    assume "authorized ?s ?n \<longrightarrow>
      (case RecordIssued (d_pf mem_deps) (header_Get ?n hdrNodeName) (certKind ?r) na NewTracker v of (t1, w1) \<Rightarrow>
         serve False (wire pad_key mem_deps) ?s ?n (NewTracker, mem_empty\<lparr>m_clock := day\<rparr>) = (Reply resp, ?s, t1, w1) \<and>
         (header_Get ?n hdrNodeName \<noteq> [] \<longrightarrow>
            map_of (CertExpirySeconds t1) (header_Get ?n hdrNodeName, certKind ?r) = Some (unix na) \<and>
            w1 = snd (patchSecret (d_pf mem_deps) Namespace (SecretName (header_Get ?n hdrNodeName))
              [(annotationPrefix @ certKind ?r, formatRFC3339 na)] (snd (timeNow (d_pf mem_deps) v)))))"
    then show "\<exists>resp t' w' t1 w1 na. serve False (wire pad_key mem_deps) ?s ?r (NewTracker, mem_empty\<lparr>m_clock := day\<rparr>) = (Reply resp, ?s, t', w') \<and>
        serve False (wire pad_key mem_deps) ?s ?n (NewTracker, mem_empty\<lparr>m_clock := day\<rparr>) = (Reply resp, ?s, t1, w1) \<and> resp_code resp = 200 \<and>
        map_of (CertExpirySeconds t1) (''NO SUCH node'', ''client-kube-proxy'') = Some (unix na)"
      unfolding mem_named_proxy_props using sv mem_named_proxy_props(6) by (cases "RecordIssued (d_pf mem_deps) ''NO SUCH node'' ''client-kube-proxy'' na NewTracker v") auto
  qed
qed

end
